(* ===== verification/Prelude.thy ===== *)
theory Prelude
  imports Main "HOL-Library.Word"
begin

unbundle bit_operations_syntax

text \<open>
  Shared vocabulary of the development: machine words, the result type of code that can
  throw, the two data types of \<^verbatim>\<open>types_fwd.h\<close> (\<^verbatim>\<open>mem_area\<close> and \<^verbatim>\<open>pte_range\<close>), the
  byte-level meaning of both, and the word lemmas the page arithmetic needs.
\<close>

section \<open>Machine integers\<close>

text \<open>\<^verbatim>\<open>size_t\<close>, \<^verbatim>\<open>uint64_t\<close> and pointers of the supported platform are 64-bit words.\<close>

type_synonym u64 = "64 word"
type_synonym u32 = "32 word"
type_synonym pgnum = u64

text \<open>Facts that turn 64-bit arithmetic into arithmetic on natural numbers when nothing wraps.\<close>

named_theorems no_wrap

lemma unat_add_nw [no_wrap]:
  fixes a b :: u64
  shows "unat a + unat b < 2 ^ 64 \<Longrightarrow> unat (a + b) = unat a + unat b"
  using unat_add_lem [of a b] by simp

lemma unat_mult_nw [no_wrap]:
  fixes a b :: u64
  shows "unat a * unat b < 2 ^ 64 \<Longrightarrow> unat (a * b) = unat a * unat b"
  using unat_mult_lem [of a b] by simp

lemma unat_sub_nw [no_wrap]:
  fixes a b :: u64
  shows "unat b \<le> unat a \<Longrightarrow> unat (a - b) = unat a - unat b"
  by (simp add: unat_sub word_le_nat_alt)

lemma unat_lt_2p64 [simp]: "unat (a :: u64) < 18446744073709551616"
  using unsigned_less [of a] by simp

lemma unat_less_2p64: "unat (a :: u64) < 2 ^ 64"
  using unat_lt_2p64 [of a] by simp

lemma u64_neq_0_iff: "(a :: u64) \<noteq> 0 \<longleftrightarrow> 0 < unat a"
  by (simp add: unat_gt_0)

lemma unat_of_nat_64 [no_wrap]: "n < 2 ^ 64 \<Longrightarrow> unat (of_nat n :: u64) = n"
  by (simp add: unat_of_nat)

lemma eq_of_nat_if_unat: "unat (w :: u64) = n \<Longrightarrow> w = of_nat n"
  by auto

lemmas word_order_nat = word_le_nat_alt word_less_nat_alt

section \<open>Results of code that can throw or abort\<close>

text \<open>
  An error is a value: \<open>AssertFailed\<close> is a failed \<^verbatim>\<open>BOOST_ASSERT\<close> (it aborts a debug build),
  \<open>Terminate\<close> is \<^verbatim>\<open>std::terminate\<close>, \<open>Runtime msg\<close> a thrown \<^verbatim>\<open>std::runtime_error\<close> and
  \<open>OutOfRange\<close> the \<^verbatim>\<open>std::out_of_range\<close> of \<^verbatim>\<open>std::map::at\<close>. \<open>DivByZero\<close> is the trap of an integer
  division by zero, \<open>Mismatch\<close> a collective call whose arguments do not fit the root's, which MPI
  forbids. \<open>BadArrayNewLength\<close> and \<open>BadAlloc\<close> are the exceptions of an allocator. \<open>ErrorStop msg\<close> is
  Fortran's \<^verbatim>\<open>error stop\<close> after printing a message, and \<open>NullAccess\<close> the trap of an access through a
  null pointer.
\<close>

datatype error =
    AssertFailed | Terminate | Runtime string | OutOfRange | DivByZero | Mismatch
  | BadArrayNewLength | BadAlloc | ErrorStop string | NullAccess

type_synonym 'a result = "error + 'a"

definition assertE :: "bool \<Rightarrow> 'a result \<Rightarrow> 'a result" where
  "assertE b k = (if b then k else Inl AssertFailed)"

definition bindE :: "'a result \<Rightarrow> ('a \<Rightarrow> 'b result) \<Rightarrow> 'b result" where
  "bindE m f = (case m of Inl e \<Rightarrow> Inl e | Inr x \<Rightarrow> f x)"

named_theorems result_iff

lemma assertE_Inr [result_iff]: "assertE b k = Inr x \<longleftrightarrow> b \<and> k = Inr x"
  by (simp add: assertE_def)

lemma bindE_Inr [result_iff]: "bindE m f = Inr y \<longleftrightarrow> (\<exists>x. m = Inr x \<and> f x = Inr y)"
  by (simp add: bindE_def split: sum.splits)

lemma assertE_simps [simp]: "assertE True k = k" "assertE False k = Inl AssertFailed"
  by (simp_all add: assertE_def)

lemma bindE_simps [simp]: "bindE (Inr x) f = f x" "bindE (Inl e) f = Inl e"
  by (simp_all add: bindE_def)

section \<open>Memory areas and page ranges\<close>

text \<open>\<^verbatim>\<open>using mem_area = std::span<char>\<close> and \<^verbatim>\<open>struct pte_range\<close> of \<^verbatim>\<open>types_fwd.h\<close>.\<close>

record mem_area =
  ma_data :: u64
  ma_size :: u64

record pte_range =
  pr_begin :: pgnum
  pr_count :: u64

text \<open>\<^verbatim>\<open>span::front\<close>, \<^verbatim>\<open>span::back\<close> and \<^verbatim>\<open>span::end\<close>, as the addresses of what they denote.\<close>

definition ma_back :: "mem_area \<Rightarrow> u64" where
  "ma_back a = ma_data a + ma_size a - 1"

definition ma_end :: "mem_area \<Rightarrow> u64" where
  "ma_end a = ma_data a + ma_size a"

text \<open>The bytes an area denotes, the pages a range denotes and the bytes of one page.\<close>

definition area_bytes :: "mem_area \<Rightarrow> nat set" where
  "area_bytes a = {unat (ma_data a) ..< unat (ma_data a) + unat (ma_size a)}"

definition range_pages :: "pte_range \<Rightarrow> nat set" where
  "range_pages r = {unat (pr_begin r) ..< unat (pr_begin r) + unat (pr_count r)}"

definition page_bytes :: "u64 \<Rightarrow> nat \<Rightarrow> nat set" where
  "page_bytes ps p = {p * unat ps ..< (p + 1) * unat ps}"

lemma page_bytes_iff: "0 < unat ps \<Longrightarrow> x \<in> page_bytes ps p \<longleftrightarrow> x div unat ps = p"
  using div_nat_eqI [of "unat ps" p x] dividend_less_div_times [of "unat ps" x] div_times_less_eq_dividend [of x "unat ps"]
  by (auto simp: page_bytes_def mult.commute)

end
