(* ===== verification/Pagemap.thy ===== *)
theory Pagemap
  imports Prelude
begin

text \<open>
  The page map component (\<^verbatim>\<open>pagemap.h\<close>, \<^verbatim>\<open>pagemap.cc\<close>): the page table entry bits the
  synchroniser reads, the reads of \<^verbatim>\<open>/proc/self/pagemap\<close>, and the conversions between byte
  areas and page ranges. \<open>page_size\<close> is a constant the build generates, so it is an
  argument; the file system calls are arguments as well. Every \<^verbatim>\<open>BOOST_ASSERT\<close> is a branch.
\<close>

section \<open>Page table entries\<close>

datatype pte = Pte (m_entry: u64)

definition dirty_bit :: u64 where
  "dirty_bit = push_bit 55 1"

definition present_bit :: u64 where
  "present_bit = push_bit 63 1"

definition swap_bit :: u64 where
  "swap_bit = push_bit 62 1"

definition is_dirty :: "pte \<Rightarrow> bool" where
  "is_dirty p \<longleftrightarrow> (m_entry p AND dirty_bit) \<noteq> 0"

definition is_present :: "pte \<Rightarrow> bool" where
  "is_present p \<longleftrightarrow> (m_entry p AND present_bit) \<noteq> 0"

definition is_swapped :: "pte \<Rightarrow> bool" where
  "is_swapped p \<longleftrightarrow> (m_entry p AND swap_bit) \<noteq> 0"

definition is_touched :: "pte \<Rightarrow> bool" where
  "is_touched p \<longleftrightarrow> is_present p \<or> is_swapped p"

lemma and_push_bit_1: "n < 64 \<Longrightarrow> ((w :: u64) AND push_bit n 1 \<noteq> 0) \<longleftrightarrow> bit w n"
  by (simp add: and_exp_eq_0_iff_not_bit flip: push_bit_eq_mult [of _ 1, simplified])

lemma is_dirty_bit: "is_dirty p \<longleftrightarrow> bit (m_entry p) 55"
  by (simp add: is_dirty_def dirty_bit_def and_push_bit_1 del: push_bit_of_1)

lemma is_touched_bit: "is_touched p \<longleftrightarrow> bit (m_entry p) 63 \<or> bit (m_entry p) 62"
  by (simp add: is_touched_def is_present_def is_swapped_def present_bit_def swap_bit_def
      and_push_bit_1 del: push_bit_of_1)

section \<open>Reading the page map\<close>

text \<open>
  \<^verbatim>\<open>pagemap::read\<close>: one \<^verbatim>\<open>pread\<close> at offset \<^verbatim>\<open>8 * rng.begin\<close> into a buffer of \<open>res\<close> entries.
  The argument \<open>pread off n\<close> is the system call in units of entries: \<open>None\<close> for the return
  value \<^verbatim>\<open>-1\<close>, otherwise the entries it stored, which may be fewer than asked for. The code
  tests only for \<^verbatim>\<open>-1\<close>, so entries a short read leaves out keep their old value.
\<close>

definition pagemap_read ::
  "(u64 \<Rightarrow> nat \<Rightarrow> u64 list option) \<Rightarrow> u64 list \<Rightarrow> pte_range \<Rightarrow> u64 list result" where
  "pagemap_read pread res rng =
     assertE (length res = unat (pr_count rng))
       (case pread (pr_begin rng * 8) (length res) of
          None \<Rightarrow> Inl (Runtime ''Failed to read /proc/self/pagemap, reason: '')
        | Some es \<Rightarrow> Inr (take (length res) es @ drop (length es) res))"

text \<open>The two \<^verbatim>\<open>get_pte\<close> overloads: into a caller's buffer, and for one page.\<close>

definition get_pte_range ::
  "(u64 \<Rightarrow> nat \<Rightarrow> u64 list option) \<Rightarrow> pte_range \<Rightarrow> u64 list \<Rightarrow> u64 list result" where
  "get_pte_range pread rng res = pagemap_read pread res rng"

definition get_pte :: "(u64 \<Rightarrow> nat \<Rightarrow> u64 list option) \<Rightarrow> pgnum \<Rightarrow> pte result" where
  "get_pte pread page_num =
     bindE (pagemap_read pread [0] \<lparr>pr_begin = page_num, pr_count = 1\<rparr>) (\<lambda>es. Inr (Pte (es ! 0)))"

text \<open>
  \<^verbatim>\<open>clear_soft_dirty\<close>: the stream opened at the first call, then \<^verbatim>\<open>4\<close> written and flushed.
  \<open>write4\<close> is the kernel's reaction to that write; the flag is the state of the stream.
\<close>

definition clear_soft_dirty :: "bool \<Rightarrow> ('os \<Rightarrow> 'os) \<Rightarrow> 'os \<Rightarrow> 'os result" where
  "clear_soft_dirty opened write4 os =
     (if \<not> opened then Inl (Runtime ''Failed to open /proc/self/clear_refs'')
      else Inr (write4 os))"

lemma length_pagemap_read: "pagemap_read pread res rng = Inr es \<Longrightarrow> length es = length res"
  by (auto simp: pagemap_read_def result_iff split: option.splits)

lemma pagemap_read_full:
  assumes "length res = unat (pr_count rng)" "pread (pr_begin rng * 8) (length res) = Some es"
    "length es = length res"
  shows "pagemap_read pread res rng = Inr es"
  using assms by (simp add: pagemap_read_def)

section \<open>Areas and page ranges\<close>

definition pgnum2memarea :: "u64 \<Rightarrow> pgnum \<Rightarrow> mem_area" where
  "pgnum2memarea page_size page_num = \<lparr>ma_data = page_num * page_size, ma_size = page_size\<rparr>"

definition addr2pgnum :: "u64 \<Rightarrow> u64 \<Rightarrow> pgnum" where
  "addr2pgnum page_size addr = addr div page_size"

definition memarea2pgrng :: "u64 \<Rightarrow> mem_area \<Rightarrow> pte_range result" where
  "memarea2pgrng page_size area =
     assertE (ma_size area \<noteq> 0)
       (let b = addr2pgnum page_size (ma_data area);
            e = addr2pgnum page_size (ma_back area) + 1
        in assertE (b * page_size \<le> ma_data area)
          (assertE ((b + 1) * page_size > ma_data area)
          (assertE (e * page_size \<ge> ma_end area)
          (assertE ((e - 1) * page_size < ma_end area)
             (Inr \<lparr>pr_begin = b, pr_count = e - b\<rparr>)))))"

definition memarea2innerpgrng :: "u64 \<Rightarrow> mem_area \<Rightarrow> pte_range option result" where
  "memarea2innerpgrng page_size area =
     assertE (ma_size area \<noteq> 0)
       (let b = addr2pgnum page_size (ma_data area - 1) + 1;
            e = addr2pgnum page_size (ma_end area)
        in assertE (b * page_size \<ge> ma_data area)
          (assertE ((b - 1) * page_size < ma_data area)
          (assertE (e * page_size \<le> ma_end area)
          (assertE ((e + 1) * page_size > ma_end area)
             (Inr (if b \<ge> e then None else Some \<lparr>pr_begin = b, pr_count = e - b\<rparr>))))))"

definition pgrng2memarea :: "u64 \<Rightarrow> pte_range \<Rightarrow> mem_area" where
  "pgrng2memarea page_size rng =
     \<lparr>ma_data = pr_begin rng * page_size, ma_size = pr_count rng * page_size\<rparr>"

text \<open>
  An area the address arithmetic handles without wrapping: not empty, and ending at least one
  page below the top of the address space, as every user space area does.
\<close>

definition area_ok :: "u64 \<Rightarrow> mem_area \<Rightarrow> bool" where
  "area_ok page_size a \<longleftrightarrow> 0 < unat page_size \<and> 0 < unat (ma_size a) \<and>
     unat (ma_data a) + unat (ma_size a) + unat page_size < 2 ^ 64"

definition range_ok :: "u64 \<Rightarrow> pte_range \<Rightarrow> bool" where
  "range_ok page_size r \<longleftrightarrow> 0 < unat page_size \<and> 0 < unat (pr_count r) \<and>
     (unat (pr_begin r) + unat (pr_count r) + 1) * unat page_size < 2 ^ 64"


lemma div_bounds_nat:
  fixes P x :: nat
  assumes "0 < P"
  shows "x div P * P \<le> x" "x < (x div P + 1) * P"
  using assms dividend_less_div_times [of P x] by (auto simp: add.commute)

lemma unat_mult_eq:
  fixes b c :: u64
  assumes "unat b = k" "unat c = m" "k * m < 2 ^ 64"
  shows "unat (b * c) = k * m"
  using unat_mult_nw [of b c] assms by simp

text \<open>The outer page range of an area: all assertions hold, and the ends are as expected.\<close>

lemma memarea2pgrng_ok:
  assumes ok: "area_ok ps a"
  defines "P \<equiv> unat ps" and "A \<equiv> unat (ma_data a)" and "n \<equiv> unat (ma_size a)"
  obtains r where "memarea2pgrng ps a = Inr r" "unat (pr_begin r) = A div P"
    "unat (pr_begin r) + unat (pr_count r) = (A + n - 1) div P + 1"
proof -
  have P: "0 < P" and n: "0 < n" and top: "A + n + P < 2 ^ 64"
    using ok by (auto simp: area_ok_def P_def A_def n_def)
  define b where "b = addr2pgnum ps (ma_data a)"
  define e where "e = addr2pgnum ps (ma_back a) + 1"
  have uP: "unat ps = P" and uA: "unat (ma_data a) = A" by (simp_all add: P_def A_def)
  have uend: "unat (ma_end a) = A + n"
    unfolding ma_end_def A_def n_def by (rule unat_add_nw) (use top P in \<open>simp add: A_def n_def\<close>)
  have uback: "unat (ma_back a) = A + n - 1"
    using uend n unat_sub_nw [of 1 "ma_end a"] by (simp add: ma_back_def ma_end_def)
  have ub: "unat b = A div P" by (simp add: b_def addr2pgnum_def unat_div A_def P_def)
  note d1 = div_bounds_nat [OF P, of A] and d2 = div_bounds_nat [OF P, of "A + n - 1"]
  have lt: "(A + n - 1) div P + 1 < 2 ^ 64"
  proof -
    have "(A + n - 1) div P \<le> A + n - 1" by (rule div_le_dividend)
    then show ?thesis using top P n by linarith
  qed
  have ue: "unat e = (A + n - 1) div P + 1"
    unfolding e_def using unat_add_nw [of "addr2pgnum ps (ma_back a)" 1] lt
    by (simp add: addr2pgnum_def unat_div uback P_def)
  have le: "unat b \<le> unat e"
    using div_le_mono [of A "A + n - 1" P] n unfolding ub ue by linarith
  have "A div P < 2 ^ 64 - 1" by (rule le_less_trans [OF div_le_dividend]) (use top P n in simp)
  then have ub1: "unat (b + 1) = A div P + 1" using unat_add_nw [of b 1] ub by simp
  have ue1: "unat (e - 1) = (A + n - 1) div P"
    using unat_sub_nw [of 1 e] ue by simp
  have A_le: "(A div P + 1) * P \<le> A + P" and E_le: "((A + n - 1) div P + 1) * P \<le> A + n - 1 + P"
    using d1(1) d2(1) by simp_all
  have m1: "unat (b * ps) = A div P * P"
    by (rule unat_mult_eq [OF ub uP]) (use d1 top in linarith)
  have m2: "unat ((b + 1) * ps) = (A div P + 1) * P"
    by (rule unat_mult_eq [OF ub1 uP]) (use A_le top in linarith)
  have m3: "unat (e * ps) = ((A + n - 1) div P + 1) * P"
    by (rule unat_mult_eq [OF ue uP]) (use E_le top in linarith)
  have m4: "unat ((e - 1) * ps) = (A + n - 1) div P * P"
    by (rule unat_mult_eq [OF ue1 uP]) (use d2 top in linarith)
  have "b * ps \<le> ma_data a" "(b + 1) * ps > ma_data a" "e * ps \<ge> ma_end a" "(e - 1) * ps < ma_end a"
    unfolding word_order_nat m1 m2 m3 m4 uend uA using d1 d2 n by linarith+
  then have "memarea2pgrng ps a = Inr \<lparr>pr_begin = b, pr_count = e - b\<rparr>"
    using n unfolding memarea2pgrng_def n_def
    by (simp add: Let_def result_iff u64_neq_0_iff flip: b_def e_def)
  moreover have "unat b + unat (e - b) = unat e" using unat_sub_nw [OF le] le by simp
  ultimately show ?thesis using that ub ue by simp
qed


text \<open>The inner page range of an area.\<close>

lemma memarea2innerpgrng_ok:
  assumes ok: "area_ok ps a" and A0: "ma_data a \<noteq> 0"
  defines "P \<equiv> unat ps" and "A \<equiv> unat (ma_data a)" and "n \<equiv> unat (ma_size a)"
  obtains b e where "memarea2innerpgrng ps a
      = Inr (if e \<le> b then None else Some \<lparr>pr_begin = b, pr_count = e - b\<rparr>)"
    "unat b = (A - 1) div P + 1" "unat e = (A + n) div P"
proof -
  have P: "0 < P" and n: "0 < n" and top: "A + n + P < 2 ^ 64" and A: "0 < A"
    using ok A0 by (auto simp: area_ok_def P_def A_def n_def u64_neq_0_iff)
  define b where "b = addr2pgnum ps (ma_data a - 1) + 1"
  define e where "e = addr2pgnum ps (ma_end a)"
  have uP: "unat ps = P" and uA: "unat (ma_data a) = A" by (simp_all add: P_def A_def)
  have uend: "unat (ma_end a) = A + n"
    unfolding ma_end_def A_def n_def by (rule unat_add_nw) (use top P in \<open>simp add: A_def n_def\<close>)
  have um1: "unat (ma_data a - 1) = A - 1"
    using unat_sub_nw [of 1 "ma_data a"] A by (simp add: A_def)
  note d1 = div_bounds_nat [OF P, of "A - 1"] and d2 = div_bounds_nat [OF P, of "A + n"]
  have "(A - 1) div P < 2 ^ 64 - 1"
    by (rule le_less_trans [OF div_le_dividend]) (use top P in simp)
  then have ub: "unat b = (A - 1) div P + 1"
    unfolding b_def using unat_add_nw [of "addr2pgnum ps (ma_data a - 1)" 1]
    by (simp add: addr2pgnum_def unat_div um1 P_def)
  have ue: "unat e = (A + n) div P" by (simp add: e_def addr2pgnum_def unat_div uend P_def)
  have ub1: "unat (b - 1) = (A - 1) div P" using unat_sub_nw [of 1 b] ub by simp
  have "(A + n) div P < 2 ^ 64 - 1"
    by (rule le_less_trans [OF div_le_dividend]) (use top P in simp)
  then have ue1: "unat (e + 1) = (A + n) div P + 1" using unat_add_nw [of e 1] ue by simp
  have A_le: "((A - 1) div P + 1) * P \<le> A - 1 + P" and E_le: "((A + n) div P + 1) * P \<le> A + n + P"
    using d1(1) d2(1) by simp_all
  have m1: "unat (b * ps) = ((A - 1) div P + 1) * P"
    by (rule unat_mult_eq [OF ub uP]) (use A_le top A in linarith)
  have m2: "unat ((b - 1) * ps) = (A - 1) div P * P"
    by (rule unat_mult_eq [OF ub1 uP]) (use d1 top in linarith)
  have m3: "unat (e * ps) = (A + n) div P * P"
    by (rule unat_mult_eq [OF ue uP]) (use d2 top in linarith)
  have m4: "unat ((e + 1) * ps) = ((A + n) div P + 1) * P"
    by (rule unat_mult_eq [OF ue1 uP]) (use E_le top in linarith)
  have "b * ps \<ge> ma_data a" "(b - 1) * ps < ma_data a" "e * ps \<le> ma_end a" "(e + 1) * ps > ma_end a"
    unfolding word_order_nat m1 m2 m3 m4 uend uA using d1 d2 n A by linarith+
  then have "memarea2innerpgrng ps a
      = Inr (if e \<le> b then None else Some \<lparr>pr_begin = b, pr_count = e - b\<rparr>)"
    using n unfolding memarea2innerpgrng_def n_def
    by (simp add: Let_def result_iff u64_neq_0_iff flip: b_def e_def)
  then show ?thesis using that ub ue by blast
qed

text \<open>The same two facts over sets of pages.\<close>

lemma image_div_interval:
  fixes P :: nat
  assumes "0 < P" "0 < n"
  shows "(\<lambda>x. x div P) ` {A ..< A + n} = {A div P .. (A + n - 1) div P}"
proof (intro set_eqI iffI)
  fix p assume "p \<in> (\<lambda>x. x div P) ` {A ..< A + n}"
  then obtain x where "p = x div P" "A \<le> x" "x \<le> A + n - 1" by auto
  then show "p \<in> {A div P .. (A + n - 1) div P}" by (auto intro: div_le_mono)
next
  fix p assume p: "p \<in> {A div P .. (A + n - 1) div P}"
  define x where "x = max A (p * P)"
  have "p * P \<le> A + n - 1"
    using p assms by (auto simp: less_eq_div_iff_mult_less_eq)
  then have "x \<in> {A ..< A + n}" using assms by (auto simp: x_def)
  moreover have "x div P = p"
  proof (cases "A \<le> p * P")
    case True
    then show ?thesis using assms by (simp add: x_def)
  next
    case False
    then have "p \<le> A div P" using assms by (simp add: less_eq_div_iff_mult_less_eq)
    with p False show ?thesis by (simp add: x_def)
  qed
  ultimately show "p \<in> (\<lambda>x. x div P) ` {A ..< A + n}" by blast
qed

lemma page_subset_iff:
  fixes P :: nat
  assumes "0 < P" "0 < A"
  shows "{p * P ..< (p + 1) * P} \<subseteq> {A ..< B} \<longleftrightarrow> (A - 1) div P + 1 \<le> p \<and> p < B div P"
proof -
  have "{p * P ..< (p + 1) * P} \<subseteq> {A ..< B} \<longleftrightarrow> A \<le> p * P \<and> (p + 1) * P \<le> B"
    using assms(1) by (auto simp: subset_iff intro: Suc_le_lessD dest: spec [of _ "(p + 1) * P - 1"])
  also have "A \<le> p * P \<longleftrightarrow> A - 1 < p * P" using assms(2) by arith
  also have "\<dots> \<longleftrightarrow> (A - 1) div P < p" using assms(1) by (simp add: div_less_iff_less_mult)
  also have "(p + 1) * P \<le> B \<longleftrightarrow> p + 1 \<le> B div P"
    using assms(1) by (simp add: less_eq_div_iff_mult_less_eq)
  finally show ?thesis by auto
qed


section \<open>Correctness of the conversions\<close>

lemma page_meets_area:
  assumes "0 < unat ps"
  shows "page_bytes ps p \<inter> area_bytes a \<noteq> {} \<longleftrightarrow> p \<in> (\<lambda>x. x div unat ps) ` area_bytes a"
  using page_bytes_iff [OF assms] by fastforce

lemma outer_pages_exact:
  assumes ok: "area_ok ps a"
  shows "\<exists>r. memarea2pgrng ps a = Inr r \<and>
    range_pages r = {p. page_bytes ps p \<inter> area_bytes a \<noteq> {}}"
proof -
  obtain r where r: "memarea2pgrng ps a = Inr r"
    and b: "unat (pr_begin r) = unat (ma_data a) div unat ps"
    and e: "unat (pr_begin r) + unat (pr_count r)
      = (unat (ma_data a) + unat (ma_size a) - 1) div unat ps + 1"
    using memarea2pgrng_ok [OF ok] by blast
  have pos: "0 < unat ps" "0 < unat (ma_size a)" using ok by (auto simp: area_ok_def)
  have "range_pages r = (\<lambda>x. x div unat ps) ` area_bytes a"
    unfolding range_pages_def area_bytes_def image_div_interval [OF pos] e unfolding b by auto
  then show ?thesis using r page_meets_area [OF pos(1)] by auto
qed

text \<open>
  \<^verbatim>\<open>memarea2pgrng\<close> returns exactly the pages that hold at least one byte of the area, and
  none of its four range assertions fires, for every nonempty area below the last page of the
  address space.
\<close>

theorem memarea2pgrng_exact:
  assumes ok: "area_ok ps a"
  shows "\<exists>r. memarea2pgrng ps a = Inr r \<and>
    range_pages r = {p. page_bytes ps p \<inter> area_bytes a \<noteq> {}}"
  using assms by (rule outer_pages_exact)

theorem memarea2pgrng_exact_witness:
  "\<exists>r. memarea2pgrng 4096 \<lparr>ma_data = 4000, ma_size = 200\<rparr> = Inr r \<and>
    range_pages r = {p. page_bytes 4096 p \<inter> area_bytes \<lparr>ma_data = 4000, ma_size = 200\<rparr> \<noteq> {}}"
  by (rule memarea2pgrng_exact) (simp add: area_ok_def)

lemma inner_pages_exact:
  assumes ok: "area_ok ps a" and A0: "ma_data a \<noteq> 0"
  shows "\<exists>ro. memarea2innerpgrng ps a = Inr ro \<and>
    (case ro of None \<Rightarrow> {} | Some r \<Rightarrow> range_pages r) = {p. page_bytes ps p \<subseteq> area_bytes a} \<and>
    (ro = None \<longleftrightarrow> {p. page_bytes ps p \<subseteq> area_bytes a} = {})"
proof -
  obtain b e where r: "memarea2innerpgrng ps a
      = Inr (if e \<le> b then None else Some \<lparr>pr_begin = b, pr_count = e - b\<rparr>)"
    and b: "unat b = (unat (ma_data a) - 1) div unat ps + 1"
    and e: "unat e = (unat (ma_data a) + unat (ma_size a)) div unat ps"
    using memarea2innerpgrng_ok [OF ok A0] by blast
  have pos: "0 < unat ps" "0 < unat (ma_data a)"
    using ok A0 by (auto simp: area_ok_def u64_neq_0_iff)
  have inner: "{p. page_bytes ps p \<subseteq> area_bytes a} = {unat b ..< unat e}"
    unfolding page_bytes_def area_bytes_def page_subset_iff [OF pos] b e by auto
  show ?thesis
  proof (cases "e \<le> b")
    case True
    then show ?thesis using r unfolding inner by (simp add: word_order_nat)
  next
    case False
    then have "unat b + unat (e - b) = unat e" using unat_sub_nw [of b e] by (simp add: word_order_nat)
    then show ?thesis using False r unfolding inner by (simp add: range_pages_def word_order_nat)
  qed
qed

text \<open>
  \<^verbatim>\<open>memarea2innerpgrng\<close> returns exactly the pages that lie inside the area, and \<^verbatim>\<open>nullopt\<close>
  when there is none; none of its assertions fires, for an area that does not start at address 0.
\<close>

theorem memarea2innerpgrng_exact:
  assumes ok: "area_ok ps a" and A0: "ma_data a \<noteq> 0"
  shows "\<exists>ro. memarea2innerpgrng ps a = Inr ro \<and>
    (case ro of None \<Rightarrow> {} | Some r \<Rightarrow> range_pages r) = {p. page_bytes ps p \<subseteq> area_bytes a} \<and>
    (ro = None \<longleftrightarrow> {p. page_bytes ps p \<subseteq> area_bytes a} = {})"
  using assms by (rule inner_pages_exact)

theorem memarea2innerpgrng_exact_witness:
  "\<exists>ro. memarea2innerpgrng 4096 \<lparr>ma_data = 4000, ma_size = 9000\<rparr> = Inr ro \<and>
    (case ro of None \<Rightarrow> {} | Some r \<Rightarrow> range_pages r)
      = {p. page_bytes 4096 p \<subseteq> area_bytes \<lparr>ma_data = 4000, ma_size = 9000\<rparr>} \<and>
    (ro = None \<longleftrightarrow> {p. page_bytes 4096 p \<subseteq> area_bytes \<lparr>ma_data = 4000, ma_size = 9000\<rparr>} = {})"
  by (rule memarea2innerpgrng_exact) (simp_all add: area_ok_def)

text \<open>The area of a page range holds the bytes of its pages.\<close>

lemma pgrng2memarea_unat:
  assumes "range_ok ps r"
  shows "unat (ma_data (pgrng2memarea ps r)) = unat (pr_begin r) * unat ps"
    "unat (ma_size (pgrng2memarea ps r)) = unat (pr_count r) * unat ps"
    "area_ok ps (pgrng2memarea ps r)"
proof -
  have top: "unat (pr_begin r) * unat ps + unat (pr_count r) * unat ps + unat ps < 2 ^ 64"
    and pos: "0 < unat ps" "0 < unat (pr_count r)"
    using assms by (simp_all add: range_ok_def algebra_simps)
  show A: "unat (ma_data (pgrng2memarea ps r)) = unat (pr_begin r) * unat ps"
    and B: "unat (ma_size (pgrng2memarea ps r)) = unat (pr_count r) * unat ps"
    using top by (simp_all add: pgrng2memarea_def no_wrap)
  show "area_ok ps (pgrng2memarea ps r)" using top pos by (simp add: area_ok_def A B)
qed

lemma pgrng2memarea_bytes:
  assumes "range_ok ps r"
  shows "area_bytes (pgrng2memarea ps r) = (\<Union>p \<in> range_pages r. page_bytes ps p)"
proof -
  have pos: "0 < unat ps" using assms by (simp add: range_ok_def)
  have "area_bytes (pgrng2memarea ps r) = {unat (pr_begin r) * unat ps
      ..< (unat (pr_begin r) + unat (pr_count r)) * unat ps}"
    by (simp add: area_bytes_def pgrng2memarea_unat [OF assms] algebra_simps)
  then have "x \<in> area_bytes (pgrng2memarea ps r) \<longleftrightarrow> x div unat ps \<in> range_pages r" for x
    by (simp add: range_pages_def less_eq_div_iff_mult_less_eq [OF pos]
        div_less_iff_less_mult [OF pos])
  then show ?thesis by (simp only: set_eq_iff UN_iff page_bytes_iff [OF pos]) blast
qed

text \<open>
  Round trip between page ranges and areas: the outer and the inner conversion both recover
  the range from which an area was made.
\<close>

theorem pgrng2memarea_roundtrip:
  assumes ok: "range_ok ps r" and b0: "pr_begin r \<noteq> 0"
  shows "memarea2pgrng ps (pgrng2memarea ps r) = Inr r \<and>
    memarea2innerpgrng ps (pgrng2memarea ps r) = Inr (Some r)"
proof -
  let ?a = "pgrng2memarea ps r" and ?P = "unat ps" and ?b = "unat (pr_begin r)"
    and ?c = "unat (pr_count r)"
  note u = pgrng2memarea_unat [OF ok]
  have pos: "0 < ?P" "0 < ?c" "0 < ?b" using ok b0 by (auto simp: range_ok_def u64_neq_0_iff)
  have A0: "ma_data ?a \<noteq> 0" using pos by (simp add: u64_neq_0_iff u)
  have e: "?b * ?P + ?c * ?P = (?b + ?c) * ?P" by (simp add: algebra_simps)
  have m1: "(k * ?P - 1) div ?P = k - 1" if k: "0 < k" for k
  proof (rule div_nat_eqI)
    obtain j where "k = Suc j" using k by (cases k) auto
    then show "?P * (k - 1) \<le> k * ?P - 1" and "k * ?P - 1 < ?P * Suc (k - 1)"
      using pos(1) by (simp_all add: mult.commute)
  qed
  have m: "((?b + ?c) * ?P - 1) div ?P + 1 = ?b + ?c" "(?b * ?P - 1) div ?P + 1 = ?b"
    using m1 [of "?b + ?c"] m1 [of ?b] pos by linarith+
  have d: "?b * ?P div ?P = ?b" "(?b + ?c) * ?P div ?P = ?b + ?c" using pos by simp_all
  obtain r' where r': "memarea2pgrng ps ?a = Inr r'" "unat (pr_begin r') = ?b"
    "unat (pr_begin r') + unat (pr_count r') = ?b + ?c"
    by (rule memarea2pgrng_ok [OF u(3), unfolded u(1,2) e m d])
  obtain b' e' where i: "memarea2innerpgrng ps ?a
      = Inr (if e' \<le> b' then None else Some \<lparr>pr_begin = b', pr_count = e' - b'\<rparr>)"
    "unat b' = ?b" "unat e' = ?b + ?c"
    by (rule memarea2innerpgrng_ok [OF u(3) A0, unfolded u(1,2) e m d])
  have "unat (pr_count r') = ?c" using r'(2,3) by linarith
  then have "r' = r" using r'(2) by (cases r, cases r') (simp add: word_unat_eq_iff)
  moreover have "\<not> e' \<le> b'" using i pos by (simp add: word_order_nat)
  moreover have "unat (e' - b') = ?c" using i pos unat_sub_nw [of b' e'] by simp
  then have "\<lparr>pr_begin = b', pr_count = e' - b'\<rparr> = r"
    using i(2) by (cases r) (simp add: word_unat_eq_iff)
  ultimately show ?thesis using r'(1) i(1) by simp
qed

theorem pgrng2memarea_roundtrip_witness:
  "memarea2pgrng 4096 (pgrng2memarea 4096 \<lparr>pr_begin = 7, pr_count = 3\<rparr>)
      = Inr \<lparr>pr_begin = 7, pr_count = 3\<rparr> \<and>
    memarea2innerpgrng 4096 (pgrng2memarea 4096 \<lparr>pr_begin = 7, pr_count = 3\<rparr>)
      = Inr (Some \<lparr>pr_begin = 7, pr_count = 3\<rparr>)"
  by (rule pgrng2memarea_roundtrip) (simp_all add: range_ok_def)

end
