(* ===== verification/Tiling.thy ===== *)
theory Tiling
  imports Prelude
begin

text \<open>
  Several components cut an index range into consecutive pieces: the MPI wrappers into pieces
  that fit an \<^verbatim>\<open>int\<close> count, the guided self-scheduling generators into tasks. What they share is
  stated once here: a rule that maps the number of remaining indices to the size of the next
  piece, the list of pieces it yields, and a locale with the law the rule must obey.
\<close>

function tiles :: "(nat \<Rightarrow> nat) \<Rightarrow> nat \<Rightarrow> nat \<Rightarrow> (nat \<times> nat) list" where
  "tiles piece lo left =
     (if left = 0 \<or> piece left = 0 then []
      else (lo, piece left) # tiles piece (lo + piece left) (left - piece left))"
  by pat_completeness auto
termination
  by (relation "measure (\<lambda>(piece, lo, left). left)") auto

declare tiles.simps [simp del]

definition tile_indices :: "(nat \<times> nat) list \<Rightarrow> nat list" where
  "tile_indices ts = concat (map (\<lambda>(lo, n). [lo ..< lo + n]) ts)"

lemma tiles_0 [simp]: "tiles piece lo 0 = []"
  by (simp add: tiles.simps)

lemma tile_indices_simps [simp]:
  "tile_indices [] = []"
  "tile_indices ((lo, n) # ts) = [lo ..< lo + n] @ tile_indices ts"
  by (simp_all add: tile_indices_def)

lemma tiles_bounded:
  "(l, n) \<in> set (tiles piece lo left) \<Longrightarrow> \<exists>r. 0 < r \<and> r \<le> left \<and> n = piece r"
proof (induction piece lo left rule: tiles.induct)
  case (1 piece lo left)
  show ?case
  proof (cases "left = 0 \<or> piece left = 0")
    case True
    with "1.prems" show ?thesis by (simp add: tiles.simps [of piece lo left])
  next
    case False
    with "1.prems" have "n = piece left \<or> (l, n) \<in> set (tiles piece (lo + piece left) (left - piece left))"
      by (auto simp: tiles.simps [of piece lo left])
    then show ?thesis
    proof
      assume "n = piece left"
      with False show ?thesis by (intro exI [of _ left]) simp
    next
      assume "(l, n) \<in> set (tiles piece (lo + piece left) (left - piece left))"
      with "1.IH" [OF False] obtain r where "0 < r" "r \<le> left - piece left" "n = piece r" by blast
      then show ?thesis by (intro exI [of _ r]) simp
    qed
  qed
qed

locale tiling =
  fixes piece :: "nat \<Rightarrow> nat"
  assumes piece_pos: "0 < r \<Longrightarrow> 0 < piece r"
    and piece_le: "piece r \<le> r"
begin

lemma tiles_Cons:
  "0 < left \<Longrightarrow> tiles piece lo left
    = (lo, piece left) # tiles piece (lo + piece left) (left - piece left)"
  using piece_pos [of left] by (simp add: tiles.simps [of piece lo left])

lemma tiles_induct [case_names empty more]:
  assumes "\<And>lo. Q lo 0"
    and "\<And>lo left. 0 < left \<Longrightarrow> Q (lo + piece left) (left - piece left) \<Longrightarrow> Q lo left"
  shows "Q lo left"
proof (induction left arbitrary: lo rule: less_induct)
  case (less left)
  show ?case
  proof (cases "left = 0")
    case True
    then show ?thesis using assms(1) by simp
  next
    case False
    then have "left - piece left < left" using piece_pos [of left] by simp
    then show ?thesis using False less by (intro assms(2) [of left]) simp_all
  qed
qed

lemma tiles_shift: "tiles piece (k + lo) left = map (\<lambda>(l, n). (k + l, n)) (tiles piece lo left)"
proof (induction lo left rule: tiles_induct)
  case (empty lo)
  then show ?case by simp
next
  case (more lo left)
  then show ?case by (simp add: tiles_Cons add.assoc)
qed

lemma tiles_exact: "tile_indices (tiles piece lo left) = [lo ..< lo + left]"
proof (induction lo left rule: tiles_induct)
  case (empty lo)
  then show ?case by simp
next
  case (more lo left)
  have "[lo ..< lo + left] = [lo ..< lo + piece left] @ [lo + piece left ..< lo + left]"
    using piece_le [of left] upt_add_eq_append [of lo "lo + piece left" "left - piece left"] by simp
  then show ?case using more.hyps more.IH piece_le [of left] by (simp add: tiles_Cons)
qed

lemma tiles_positive: "(l, n) \<in> set (tiles piece lo left) \<Longrightarrow> 0 < n \<and> lo \<le> l \<and> l + n \<le> lo + left"
proof (induction lo left rule: tiles_induct)
  case (empty lo)
  then show ?case by simp
next
  case (more lo left)
  then show ?case using piece_pos [of left] piece_le [of left] by (auto simp: tiles_Cons)
qed

lemma tiles_piece: "(l, n) \<in> set (tiles piece lo left) \<Longrightarrow> n = piece (lo + left - l)"
proof (induction lo left rule: tiles_induct)
  case (empty lo)
  then show ?case by simp
next
  case (more lo left)
  then show ?case using piece_le [of left] by (auto simp: tiles_Cons)
qed

lemma tiles_sum: "sum_list (map snd (tiles piece lo left)) = left"
proof (induction lo left rule: tiles_induct)
  case (empty lo)
  then show ?case by simp
next
  case (more lo left)
  then show ?case using piece_le [of left] by (simp add: tiles_Cons)
qed

lemma length_tiles: "length (tiles piece lo left) \<le> left"
proof (induction lo left rule: tiles_induct)
  case (empty lo)
  then show ?case by simp
next
  case (more lo left)
  then show ?case using piece_pos [of left] by (simp add: tiles_Cons)
qed

end

end
