(* ===== verification/Bigmpi.thy ===== *)
theory Bigmpi
  imports Prelude Tiling "HOL-Library.Multiset"
begin

text \<open>
  The large-count MPI wrappers (\<^verbatim>\<open>bigmpi.cc\<close>): every transfer of a \<^verbatim>\<open>size_t\<close> count is cut into
  calls with an \<^verbatim>\<open>int\<close> count, and \<^verbatim>\<open>sync_areas\<close> keeps at most 256 asynchronous broadcasts in
  flight. MPI itself is an argument: each MPI function maps its arguments and the state of the
  outside world to its results and the next state.
\<close>

section \<open>MPI handles and constants\<close>

text \<open>The predefined handles the sources name; \<open>Other_Datatype\<close> and \<open>Other_Op\<close> are all others.\<close>

datatype mpi_datatype =
    MPI_BYTE | MPI_C_BOOL | MPI_SHORT | MPI_INT | MPI_LONG | MPI_UNSIGNED_LONG
  | MPI_LONG_LONG_INT | MPI_FLOAT | MPI_DOUBLE | MPI_LONG_DOUBLE
  | MPI_INT8_T | MPI_INT16_T | MPI_INT32_T | MPI_INT64_T
  | MPI_UINT8_T | MPI_UINT16_T | MPI_UINT32_T | MPI_UINT64_T | Other_Datatype nat

datatype mpi_op =
    MPI_OP_NULL | MPI_MAX | MPI_MIN | MPI_SUM | MPI_PROD | MPI_LAND | MPI_BAND | MPI_LOR
  | MPI_BOR | MPI_LXOR | MPI_BXOR | MPI_MINLOC | MPI_MAXLOC | MPI_REPLACE | Other_Op nat

text \<open>A buffer argument: \<^verbatim>\<open>MPI_IN_PLACE\<close>, a null pointer or an address.\<close>

datatype mpi_buf = In_Place | Null_Buf | Buf u64

definition MPI_SUCCESS :: int where
  "MPI_SUCCESS = 0"

definition int_max :: u64 where
  "int_max = 2147483647"

definition INT_MAX :: nat where
  "INT_MAX = 2147483647"

lemma unat_int_max [simp]: "unat int_max = INT_MAX"
  by (simp add: int_max_def INT_MAX_def)

lemma INT_MAX_pos [simp]: "0 < INT_MAX"
  by (simp add: INT_MAX_def)

section \<open>The wrappers\<close>

definition get_mpi_type_size_fallback :: "(mpi_datatype \<Rightarrow> int) \<Rightarrow> mpi_datatype \<Rightarrow> u64" where
  "get_mpi_type_size_fallback mpi_Type_size datatype = word_of_int (mpi_Type_size datatype)"

definition get_mpi_type_size :: "(mpi_datatype \<Rightarrow> int) \<Rightarrow> mpi_datatype \<Rightarrow> u64 result" where
  "get_mpi_type_size mpi_Type_size datatype =
     (if datatype = MPI_BYTE then
        assertE (get_mpi_type_size_fallback mpi_Type_size datatype = 1) (Inr 1)
      else if datatype = MPI_DOUBLE then
        assertE (get_mpi_type_size_fallback mpi_Type_size datatype = 8) (Inr 8)
      else if datatype = MPI_INT then
        assertE (get_mpi_type_size_fallback mpi_Type_size datatype = 4) (Inr 4)
      else if datatype = MPI_FLOAT then
        assertE (get_mpi_type_size_fallback mpi_Type_size datatype = 4) (Inr 4)
      else Inr (get_mpi_type_size_fallback mpi_Type_size datatype))"

text \<open>
  The loop that \<^verbatim>\<open>Bcast\<close>, \<^verbatim>\<open>AllReduce\<close> and \<^verbatim>\<open>Reduce\<close> each contain: \<open>call\<close> is the MPI function
  with everything but the buffer and the count already given. \<open>sent\<close> advances by \<open>int_max\<close> in
  64-bit arithmetic, so for a count above the last multiple of \<open>int_max\<close> it would wrap; not
  returning is \<open>None\<close>.
\<close>

partial_function (option) chunk_loop ::
  "(u64 \<Rightarrow> int \<Rightarrow> 'w \<Rightarrow> int \<times> 'w) \<Rightarrow> u64 \<Rightarrow> u64 \<Rightarrow> u64 \<Rightarrow> u64 \<Rightarrow> 'w \<Rightarrow> (int \<times> 'w) option" where
  "chunk_loop call buffer elem_size cnt sent w =
     (if sent < cnt then
        (case call (buffer + sent * elem_size) (uint (min int_max (cnt - sent))) w of
           (ret, w') \<Rightarrow>
             if ret \<noteq> MPI_SUCCESS then Some (ret, w')
             else chunk_loop call buffer elem_size cnt (sent + int_max) w')
      else Some (MPI_SUCCESS, w))"

definition with_elem_size ::
  "(mpi_datatype \<Rightarrow> int) \<Rightarrow> mpi_datatype \<Rightarrow> (u64 \<Rightarrow> 'a option) \<Rightarrow> 'a result option" where
  "with_elem_size mpi_Type_size datatype k =
     (case get_mpi_type_size mpi_Type_size datatype of
        Inl e \<Rightarrow> Some (Inl e)
      | Inr elem_size \<Rightarrow>
          if elem_size > 0 then map_option Inr (k elem_size) else Some (Inl AssertFailed))"

definition Bcast ::
  "(mpi_datatype \<Rightarrow> int) \<Rightarrow> (u64 \<Rightarrow> int \<Rightarrow> mpi_datatype \<Rightarrow> int \<Rightarrow> 'c \<Rightarrow> 'w \<Rightarrow> int \<times> 'w) \<Rightarrow>
   u64 \<Rightarrow> u64 \<Rightarrow> mpi_datatype \<Rightarrow> int \<Rightarrow> 'c \<Rightarrow> 'w \<Rightarrow> (int \<times> 'w) result option" where
  "Bcast mpi_Type_size mpi_Bcast buffer cnt datatype root comm w =
     with_elem_size mpi_Type_size datatype (\<lambda>elem_size.
       chunk_loop (\<lambda>buf n. mpi_Bcast buf n datatype root comm) buffer elem_size cnt 0 w)"

definition AllReduce ::
  "(mpi_datatype \<Rightarrow> int) \<Rightarrow>
   (mpi_buf \<Rightarrow> u64 \<Rightarrow> int \<Rightarrow> mpi_datatype \<Rightarrow> mpi_op \<Rightarrow> 'c \<Rightarrow> 'w \<Rightarrow> int \<times> 'w) \<Rightarrow>
   u64 \<Rightarrow> u64 \<Rightarrow> mpi_datatype \<Rightarrow> mpi_op \<Rightarrow> 'c \<Rightarrow> 'w \<Rightarrow> (int \<times> 'w) result option" where
  "AllReduce mpi_Type_size mpi_Allreduce recvbuf cnt datatype op comm w =
     with_elem_size mpi_Type_size datatype (\<lambda>elem_size.
       chunk_loop (\<lambda>buf n. mpi_Allreduce In_Place buf n datatype op comm) recvbuf elem_size cnt 0 w)"

definition Reduce ::
  "(mpi_datatype \<Rightarrow> int) \<Rightarrow> ('c \<Rightarrow> int) \<Rightarrow>
   (mpi_buf \<Rightarrow> mpi_buf \<Rightarrow> int \<Rightarrow> mpi_datatype \<Rightarrow> mpi_op \<Rightarrow> int \<Rightarrow> 'c \<Rightarrow> 'w \<Rightarrow> int \<times> 'w) \<Rightarrow>
   u64 \<Rightarrow> u64 \<Rightarrow> mpi_datatype \<Rightarrow> mpi_op \<Rightarrow> 'c \<Rightarrow> int \<Rightarrow> 'w \<Rightarrow> (int \<times> 'w) result option" where
  "Reduce mpi_Type_size mpi_Comm_rank mpi_Reduce buffer cnt datatype op comm root_rank w =
     with_elem_size mpi_Type_size datatype (\<lambda>elem_size.
       let my_rank = mpi_Comm_rank comm in
       chunk_loop (\<lambda>buf n.
         if my_rank = root_rank then mpi_Reduce In_Place (Buf buf) n datatype op root_rank comm
         else mpi_Reduce (Buf buf) Null_Buf n datatype op root_rank comm)
         buffer elem_size cnt 0 w)"


section \<open>What the loop does\<close>

text \<open>A reference: a list of calls run in order up to the first that does not succeed.\<close>

fun run_calls :: "(u64 \<Rightarrow> int \<Rightarrow> 'w \<Rightarrow> int \<times> 'w) \<Rightarrow> (u64 \<times> int) list \<Rightarrow> 'w \<Rightarrow> int \<times> 'w" where
  "run_calls call [] w = (MPI_SUCCESS, w)"
| "run_calls call ((buf, n) # cs) w =
     (case call buf n w of (ret, w') \<Rightarrow>
        if ret \<noteq> MPI_SUCCESS then (ret, w') else run_calls call cs w')"

text \<open>The calls for \<open>n\<close> elements: consecutive pieces of at most \<^verbatim>\<open>INT_MAX\<close> elements.\<close>

definition int_piece :: "nat \<Rightarrow> nat" where
  "int_piece r = min INT_MAX r"

interpretation int_pieces: tiling int_piece
  by unfold_locales (auto simp: int_piece_def)

definition chunk_calls :: "u64 \<Rightarrow> u64 \<Rightarrow> (nat \<times> nat) list \<Rightarrow> (u64 \<times> int) list" where
  "chunk_calls buffer elem_size ts = map (\<lambda>(off, n). (buffer + of_nat off * elem_size, int n)) ts"

lemma chunk_calls_simps [simp]:
  "chunk_calls b es [] = []"
  "chunk_calls b es ((off, n) # ts) = (b + of_nat off * es, int n) # chunk_calls b es ts"
  by (simp_all add: chunk_calls_def)

lemma unat_min_int_max: "unat (min int_max x) = int_piece (unat x)"
  by (simp add: int_piece_def min_def word_order_nat)

lemma chunk_loop_tiles:
  assumes "unat cnt + INT_MAX \<le> 2 ^ 64"
    and "left = unat cnt - unat sent" "0 < left \<longrightarrow> unat sent = off"
  shows "chunk_loop call b es cnt sent w
    = Some (run_calls call (chunk_calls b es (tiles int_piece off left)) w)"
  using assms(2,3)
proof (induction off left arbitrary: sent w rule: int_pieces.tiles_induct)
  case (empty off)
  then show ?case by (subst chunk_loop.simps) (simp add: word_order_nat not_less)
next
  case (more off left)
  have "unat sent = off" using more.hyps more.prems(2) by blast
  then have s: "unat sent = off" "off < unat cnt" "left = unat cnt - off"
    using more.hyps more.prems(1) by linarith+
  have lt: "sent < cnt" using s by (simp add: word_order_nat)
  have uleft: "unat (cnt - sent) = left" using s unat_sub_nw [of sent cnt] by simp
  have un: "uint (min int_max (cnt - sent)) = int (int_piece left)"
    using unat_min_int_max [of "cnt - sent"] unfolding uleft by (simp add: uint_nat)
  have off: "of_nat off = sent" by (simp flip: s(1))
  have nxt: "unat (sent + int_max) = off + INT_MAX"
    using unat_add_nw [of sent int_max] s assms(1) by simp
  have IH: "chunk_loop call b es cnt (sent + int_max) w'
    = Some (run_calls call (chunk_calls b es (tiles int_piece (off + int_piece left) (left - int_piece left))) w')"
    for w'
    by (rule more.IH) (use s nxt in \<open>auto simp: int_piece_def\<close>)
  show ?case
    by (subst chunk_loop.simps)
      (simp add: lt un IH off int_pieces.tiles_Cons more.hyps split: prod.split)
qed

text \<open>
  \<^verbatim>\<open>bigmpi::Bcast\<close> always returns, and does what a list of plain \<^verbatim>\<open>MPI_Bcast\<close> calls does:
  the calls cover the elements \<open>0 .. count\<close> exactly once and in order, each has a count between
  1 and \<^verbatim>\<open>INT_MAX\<close>, and the first call that fails ends the transfer with its return code.
\<close>

theorem Bcast_chunks:
  assumes "unat cnt + INT_MAX \<le> 2 ^ 64" "get_mpi_type_size tsize dt = Inr es" "0 < es"
  shows "\<exists>ts. Bcast tsize mpi_Bcast buf cnt dt root comm w
      = Some (Inr (run_calls (\<lambda>b n. mpi_Bcast b n dt root comm) (chunk_calls buf es ts) w)) \<and>
    tile_indices ts = [0 ..< unat cnt] \<and> (\<forall>(off, n) \<in> set ts. 0 < n \<and> n \<le> INT_MAX)"
proof -
  let ?ts = "tiles int_piece 0 (unat cnt)"
  have "\<forall>(off, n) \<in> set ?ts. 0 < n \<and> n \<le> INT_MAX"
    using int_pieces.tiles_positive [of _ _ 0 "unat cnt"] tiles_bounded [of _ _ int_piece 0 "unat cnt"]
    by (fastforce simp: int_piece_def)
  moreover have "chunk_loop (\<lambda>b n. mpi_Bcast b n dt root comm) buf es cnt 0 w
      = Some (run_calls (\<lambda>b n. mpi_Bcast b n dt root comm) (chunk_calls buf es ?ts) w)"
    by (rule chunk_loop_tiles [OF assms(1)]) auto
  ultimately show ?thesis
    using assms(2,3) int_pieces.tiles_exact [of 0 "unat cnt"]
    by (intro exI [of _ ?ts]) (simp add: Bcast_def with_elem_size_def)
qed


theorem Bcast_chunks_witness:
  "\<exists>ts. Bcast (\<lambda>_. 8) (\<lambda>b n dt root comm w. (0, w @ [(b, n)])) 4096 5000000000 MPI_DOUBLE 0 () []
      = Some (Inr (run_calls (\<lambda>b n w. (0, w @ [(b, n)])) (chunk_calls 4096 8 ts) [])) \<and>
    tile_indices ts = [0 ..< unat (5000000000 :: u64)] \<and> (\<forall>(off, n) \<in> set ts. 0 < n \<and> n \<le> INT_MAX)"
  by (rule Bcast_chunks) (simp_all add: INT_MAX_def get_mpi_type_size_def get_mpi_type_size_fallback_def)

section \<open>What a broadcast leaves in memory\<close>

type_synonym memory = "u64 \<Rightarrow> 8 word"

definition block :: "u64 \<Rightarrow> nat \<Rightarrow> u64 set" where
  "block a n = {a + of_nat i | i. i < n}"

definition overwrite :: "memory \<Rightarrow> u64 set \<Rightarrow> memory \<Rightarrow> memory" where
  "overwrite new S old = (\<lambda>a. if a \<in> S then new a else old a)"

lemma block_0 [simp]: "block a 0 = {}"
  by (simp add: block_def)

lemma block_split: "block a (m + n) = block a m \<union> block (a + of_nat m) n"
proof (intro set_eqI iffI)
  fix x assume "x \<in> block a (m + n)"
  then obtain i where i: "x = a + of_nat i" "i < m + n" by (auto simp: block_def)
  show "x \<in> block a m \<union> block (a + of_nat m) n"
  proof (cases "i < m")
    case True
    then show ?thesis using i by (auto simp: block_def)
  next
    case False
    then obtain j where "i = m + j" by (metis add_diff_inverse_nat)
    then show ?thesis using i by (auto simp: block_def add.assoc intro!: exI [of _ j])
  qed
next
  fix x assume "x \<in> block a m \<union> block (a + of_nat m) n"
  then consider i where "x = a + of_nat i" "i < m" | j where "x = a + of_nat m + of_nat j" "j < n"
    by (auto simp: block_def)
  then show "x \<in> block a (m + n)"
  proof cases
    case (1 i)
    then show ?thesis by (auto simp: block_def)
  next
    case (2 j)
    then show ?thesis by (auto simp: block_def add.assoc intro!: exI [of _ "m + j"])
  qed
qed

lemma overwrite_empty [simp]: "overwrite new {} old = old"
  by (simp add: overwrite_def)

lemma overwrite_overwrite [simp]: "overwrite new T (overwrite new S old) = overwrite new (S \<union> T) old"
  by (auto simp: overwrite_def)

text \<open>
  What \<^verbatim>\<open>MPI_Bcast\<close> promises to a receiver whose buffer has the address it has on the root: it
  succeeds and stores the root's bytes.
\<close>

definition bcast_delivers ::
  "(u64 \<Rightarrow> int \<Rightarrow> mpi_datatype \<Rightarrow> int \<Rightarrow> 'c \<Rightarrow> memory \<Rightarrow> int \<times> memory) \<Rightarrow> memory \<Rightarrow> u64 \<Rightarrow>
   mpi_datatype \<Rightarrow> int \<Rightarrow> 'c \<Rightarrow> bool" where
  "bcast_delivers mpi_Bcast root_mem es dt root comm \<longleftrightarrow>
     (\<forall>buf n mem. 0 < n \<longrightarrow> n \<le> INT_MAX \<longrightarrow> mpi_Bcast buf (int n) dt root comm mem
        = (MPI_SUCCESS, overwrite root_mem (block buf (n * unat es)) mem))"

lemma run_calls_delivers:
  assumes "bcast_delivers mpi_Bcast root_mem es dt root comm"
  shows "run_calls (\<lambda>b n. mpi_Bcast b n dt root comm) (chunk_calls buf es (tiles int_piece off left)) mem
    = (MPI_SUCCESS, overwrite root_mem (block (buf + of_nat off * es) (left * unat es)) mem)"
proof (induction off left arbitrary: mem rule: int_pieces.tiles_induct)
  case (empty off)
  then show ?case by simp
next
  case (more off left)
  let ?n = "int_piece left"
  have n: "0 < ?n" "?n \<le> INT_MAX" "?n \<le> left" using more.hyps by (auto simp: int_piece_def)
  have len: "left * unat es = ?n * unat es + (left - ?n) * unat es"
    using n(3) by (simp flip: add_mult_distrib)
  have adr: "buf + of_nat off * es + of_nat (?n * unat es) = buf + of_nat (off + ?n) * es"
    by (simp add: algebra_simps)
  have "block (buf + of_nat off * es) (left * unat es) = block (buf + of_nat off * es) (?n * unat es)
      \<union> block (buf + of_nat (off + ?n) * es) ((left - ?n) * unat es)"
    unfolding len block_split adr ..
  then show ?case
    using assms n more.IH by (simp add: int_pieces.tiles_Cons more.hyps bcast_delivers_def)
qed

text \<open>
  C35. A large-count broadcast leaves in the receiver's buffer the root's bytes, all \<^verbatim>\<open>count\<close>
  elements of it, and changes no other byte.
\<close>

theorem Bcast_delivers:
  assumes "unat cnt + INT_MAX \<le> 2 ^ 64" "get_mpi_type_size tsize dt = Inr es" "0 < es"
    and "bcast_delivers mpi_Bcast root_mem es dt root comm"
  shows "Bcast tsize mpi_Bcast buf cnt dt root comm mem
    = Some (Inr (MPI_SUCCESS, overwrite root_mem (block buf (unat cnt * unat es)) mem))"
proof -
  have "chunk_loop (\<lambda>b n. mpi_Bcast b n dt root comm) buf es cnt 0 mem
      = Some (run_calls (\<lambda>b n. mpi_Bcast b n dt root comm)
          (chunk_calls buf es (tiles int_piece 0 (unat cnt))) mem)"
    by (rule chunk_loop_tiles [OF assms(1)]) auto
  then show ?thesis
    using assms(2,3) run_calls_delivers [OF assms(4), of buf 0 "unat cnt" mem]
    by (simp add: Bcast_def with_elem_size_def)
qed

theorem Bcast_delivers_witness:
  "Bcast (\<lambda>_. 1) (\<lambda>b n dt root comm m. (0, overwrite (\<lambda>_. 7) (block b (nat n)) m))
      4096 5000000000 MPI_BYTE 0 () (\<lambda>_. 0)
    = Some (Inr (MPI_SUCCESS, overwrite (\<lambda>_. 7) (block 4096 (unat (5000000000 :: u64) * unat (1 :: u64))) (\<lambda>_. 0)))"
  by (rule Bcast_delivers)
    (simp_all add: INT_MAX_def get_mpi_type_size_def get_mpi_type_size_fallback_def bcast_delivers_def MPI_SUCCESS_def)


section \<open>sync_areas\<close>

text \<open>
  The lambda \<^verbatim>\<open>async_wait_rquest\<close>: a window of at most 256 pending requests. When it is full,
  \<^verbatim>\<open>MPI_Waitany\<close> completes one and the new request takes its slot. \<^verbatim>\<open>MPI_Waitany\<close> returns the
  index of the completed request, \<open>None\<close> for \<^verbatim>\<open>MPI_UNDEFINED\<close>.
\<close>

definition window_size :: nat where
  "window_size = 256"

definition async_wait_request ::
  "('r list \<Rightarrow> 'w \<Rightarrow> nat option \<times> 'w) \<Rightarrow> 'r \<Rightarrow> 'r list \<times> 'w \<Rightarrow> ('r list \<times> 'w) result" where
  "async_wait_request waitany request bw =
     (if length (fst bw) = window_size then
        (case waitany (fst bw) (snd bw) of (index, w') \<Rightarrow>
           assertE (index \<noteq> None) (Inr ((fst bw)[the index := request], w')))
      else Inr (fst bw @ [request], snd bw))"

partial_function (option) sync_area_loop ::
  "(u64 \<Rightarrow> int \<Rightarrow> 'w \<Rightarrow> 'r \<times> 'w) \<Rightarrow> ('r list \<Rightarrow> 'w \<Rightarrow> nat option \<times> 'w) \<Rightarrow> u64 \<Rightarrow> u64 \<Rightarrow> u64 \<Rightarrow>
   'r list \<times> 'w \<Rightarrow> ('r list \<times> 'w) result option" where
  "sync_area_loop ibcast waitany begin_addr cnt sent bw =
     (if sent < cnt then
        (case ibcast (begin_addr + sent) (uint (min int_max (cnt - sent))) (snd bw) of (request, w1) \<Rightarrow>
           (case async_wait_request waitany request (fst bw, w1) of
              Inl e \<Rightarrow> Some (Inl e)
            | Inr bw' \<Rightarrow> sync_area_loop ibcast waitany begin_addr cnt (sent + int_max) bw'))
      else Some (Inr bw))"

fun sync_areas_loop ::
  "(u64 \<Rightarrow> int \<Rightarrow> 'w \<Rightarrow> 'r \<times> 'w) \<Rightarrow> ('r list \<Rightarrow> 'w \<Rightarrow> nat option \<times> 'w) \<Rightarrow> mem_area list \<Rightarrow>
   'r list \<times> 'w \<Rightarrow> ('r list \<times> 'w) result option" where
  "sync_areas_loop ibcast waitany [] bw = Some (Inr bw)"
| "sync_areas_loop ibcast waitany (mem # mems) bw =
     (case sync_area_loop ibcast waitany (ma_data mem) (ma_size mem) 0 bw of
        None \<Rightarrow> None
      | Some (Inl e) \<Rightarrow> Some (Inl e)
      | Some (Inr bw') \<Rightarrow> sync_areas_loop ibcast waitany mems bw')"

definition sync_areas ::
  "(u64 \<Rightarrow> int \<Rightarrow> 'w \<Rightarrow> 'r \<times> 'w) \<Rightarrow> ('r list \<Rightarrow> 'w \<Rightarrow> nat option \<times> 'w) \<Rightarrow> ('r list \<Rightarrow> 'w \<Rightarrow> 'w) \<Rightarrow>
   mem_area list \<Rightarrow> 'w \<Rightarrow> 'w result option" where
  "sync_areas ibcast waitany waitall mem_areas w =
     map_option (\<lambda>r. bindE r (\<lambda>(buffer, w'). Inr (waitall buffer w')))
       (sync_areas_loop ibcast waitany mem_areas ([], w))"

text \<open>
  What MPI documents of the three calls, for a receiver: \<open>outstanding\<close> is the multiset of
  requests started and not yet waited for, \<open>settled\<close> the memory once all of them are complete.
  \<^verbatim>\<open>MPI_Ibcast\<close> starts a request that will store the root's bytes, \<^verbatim>\<open>MPI_Waitany\<close> completes one
  of the given requests and \<^verbatim>\<open>MPI_Waitall\<close> all of them.
\<close>

definition mpi_requests_ok ::
  "('w \<Rightarrow> 'r multiset) \<Rightarrow> ('w \<Rightarrow> memory) \<Rightarrow> memory \<Rightarrow> (u64 \<Rightarrow> int \<Rightarrow> 'w \<Rightarrow> 'r \<times> 'w) \<Rightarrow>
   ('r list \<Rightarrow> 'w \<Rightarrow> nat option \<times> 'w) \<Rightarrow> ('r list \<Rightarrow> 'w \<Rightarrow> 'w) \<Rightarrow> bool" where
  "mpi_requests_ok outstanding settled root_mem ibcast waitany waitall \<longleftrightarrow>
     (\<forall>a n w. outstanding (snd (ibcast a (int n) w)) = add_mset (fst (ibcast a (int n) w)) (outstanding w) \<and>
        settled (snd (ibcast a (int n) w)) = overwrite root_mem (block a n) (settled w)) \<and>
     (\<forall>rs w. rs \<noteq> [] \<longrightarrow> (\<exists>i. fst (waitany rs w) = Some i \<and> i < length rs \<and>
        outstanding (snd (waitany rs w)) = outstanding w - {# rs ! i #}) \<and>
        settled (snd (waitany rs w)) = settled w) \<and>
     (\<forall>rs w. outstanding (waitall rs w) = outstanding w - mset rs \<and> settled (waitall rs w) = settled w)"

definition window_ok :: "('w \<Rightarrow> 'r multiset) \<Rightarrow> 'r list \<times> 'w \<Rightarrow> bool" where
  "window_ok outstanding bw \<longleftrightarrow> outstanding (snd bw) = mset (fst bw) \<and> length (fst bw) \<le> window_size"

lemma async_wait_request_ok:
  assumes mpi: "mpi_requests_ok outstanding settled root_mem ibcast waitany waitall"
    and out: "outstanding w = add_mset r (mset buffer)" and len: "length buffer \<le> window_size"
  obtains bw where "async_wait_request waitany r (buffer, w) = Inr bw"
    "window_ok outstanding bw" "settled (snd bw) = settled w"
proof (cases "length buffer = window_size")
  case False
  then show ?thesis
    using that [of "(buffer @ [r], w)"] out len by (simp add: async_wait_request_def window_ok_def)
next
  case True
  then have "buffer \<noteq> []" by (auto simp: window_size_def)
  then obtain i w' where i: "waitany buffer w = (Some i, w')" "i < length buffer"
    "outstanding w' = outstanding w - {# buffer ! i #}" "settled w' = settled w"
    using mpi unfolding mpi_requests_ok_def by (metis prod.collapse)
  have "mset (buffer[i := r]) = add_mset r (mset buffer) - {# buffer ! i #}"
    using i(2) by (simp add: mset_update)
  then show ?thesis
    using that [of "(buffer[i := r], w')"] True i out
    by (simp add: async_wait_request_def window_ok_def)
qed


lemma sync_area_loop_ok:
  assumes mpi: "mpi_requests_ok outstanding settled root_mem ibcast waitany waitall"
    and top: "unat cnt + INT_MAX \<le> 2 ^ 64"
    and "left = unat cnt - unat sent" "0 < left \<longrightarrow> unat sent = off" "window_ok outstanding bw"
  shows "\<exists>bw'. sync_area_loop ibcast waitany b cnt sent bw = Some (Inr bw') \<and> window_ok outstanding bw' \<and>
    settled (snd bw') = overwrite root_mem (block (b + of_nat off) left) (settled (snd bw))"
  using assms(3-5)
proof (induction off left arbitrary: sent bw rule: int_pieces.tiles_induct)
  case (empty off)
  then show ?case by (subst sync_area_loop.simps) (simp add: word_order_nat not_less)
next
  case (more off left)
  have "unat sent = off" using more.hyps more.prems(2) by blast
  then have s: "unat sent = off" "off < unat cnt" "left = unat cnt - off"
    using more.hyps more.prems(1) by linarith+
  have lt: "sent < cnt" using s by (simp add: word_order_nat)
  have uleft: "unat (cnt - sent) = left" using s unat_sub_nw [of sent cnt] by simp
  have un: "uint (min int_max (cnt - sent)) = int (int_piece left)"
    using unat_min_int_max [of "cnt - sent"] unfolding uleft by (simp add: uint_nat)
  have off: "of_nat off = sent" by (simp flip: s(1))
  have nxt: "unat (sent + int_max) = off + INT_MAX"
    using unat_add_nw [of sent int_max] s top by simp
  obtain r w1 where ib: "ibcast (b + sent) (int (int_piece left)) (snd bw) = (r, w1)" by fastforce
  have w1: "outstanding w1 = add_mset r (mset (fst bw))"
    "settled w1 = overwrite root_mem (block (b + sent) (int_piece left)) (settled (snd bw))"
    using mpi more.prems(3) unfolding mpi_requests_ok_def window_ok_def
    by (metis ib fst_conv snd_conv)+
  obtain bw1 where bw1: "async_wait_request waitany r (fst bw, w1) = Inr bw1"
    "window_ok outstanding bw1" "settled (snd bw1) = settled w1"
    using async_wait_request_ok [OF mpi w1(1)] more.prems(3) by (auto simp: window_ok_def)
  have "\<exists>bw'. sync_area_loop ibcast waitany b cnt (sent + int_max) bw1 = Some (Inr bw') \<and>
    window_ok outstanding bw' \<and> settled (snd bw') = overwrite root_mem
      (block (b + of_nat (off + int_piece left)) (left - int_piece left)) (settled (snd bw1))"
    by (rule more.IH) (use s nxt bw1(2) in \<open>simp_all add: int_piece_def min_def\<close>)
  moreover have "block (b + sent) left = block (b + sent) (int_piece left)
      \<union> block (b + of_nat (off + int_piece left)) (left - int_piece left)"
    using block_split [of "b + sent" "int_piece left" "left - int_piece left"]
      int_pieces.piece_le [of left] by (simp add: off [symmetric] add.assoc)
  ultimately show ?case
    by (subst sync_area_loop.simps) (simp add: lt un ib bw1 w1(2) off)
qed

definition areas_block :: "mem_area list \<Rightarrow> u64 set" where
  "areas_block as = (\<Union>a \<in> set as. block (ma_data a) (unat (ma_size a)))"

lemma sync_areas_loop_ok:
  assumes mpi: "mpi_requests_ok outstanding settled root_mem ibcast waitany waitall"
    and top: "\<forall>a \<in> set as. unat (ma_size a) + INT_MAX \<le> 2 ^ 64"
    and "window_ok outstanding bw"
  shows "\<exists>bw'. sync_areas_loop ibcast waitany as bw = Some (Inr bw') \<and> window_ok outstanding bw' \<and>
    settled (snd bw') = overwrite root_mem (areas_block as) (settled (snd bw))"
  using assms(2,3)
proof (induction as arbitrary: bw)
  case Nil
  then show ?case by (simp add: areas_block_def)
next
  case (Cons a as)
  obtain bw1 where "sync_area_loop ibcast waitany (ma_data a) (ma_size a) 0 bw = Some (Inr bw1)"
    "window_ok outstanding bw1"
    "settled (snd bw1) = overwrite root_mem (block (ma_data a) (unat (ma_size a))) (settled (snd bw))"
    using sync_area_loop_ok [OF mpi, of "ma_size a" "unat (ma_size a)" 0 0 bw "ma_data a"] Cons.prems
    by auto
  moreover obtain bw2 where "sync_areas_loop ibcast waitany as bw1 = Some (Inr bw2)"
    "window_ok outstanding bw2"
    "settled (snd bw2) = overwrite root_mem (areas_block as) (settled (snd bw1))"
    using Cons.IH [OF _ \<open>window_ok outstanding bw1\<close>] Cons.prems(1) by (meson list.set_intros(2))
  ultimately show ?case by (simp add: areas_block_def)
qed

lemma sync_areas_ok:
  assumes mpi: "mpi_requests_ok outstanding settled root_mem ibcast waitany waitall"
    and top: "\<forall>a \<in> set as. unat (ma_size a) + INT_MAX \<le> 2 ^ 64" and "outstanding w = {#}"
  shows "\<exists>w'. sync_areas ibcast waitany waitall as w = Some (Inr w') \<and> outstanding w' = {#} \<and>
    settled w' = overwrite root_mem (areas_block as) (settled w)"
proof -
  obtain bw where bw: "sync_areas_loop ibcast waitany as ([], w) = Some (Inr bw)"
    "window_ok outstanding bw" "settled (snd bw) = overwrite root_mem (areas_block as) (settled w)"
    using sync_areas_loop_ok [OF mpi top, of "([], w)"] assms(3) by (auto simp: window_ok_def)
  have "outstanding (waitall (fst bw) (snd bw)) = outstanding (snd bw) - mset (fst bw)"
    "settled (waitall (fst bw) (snd bw)) = settled (snd bw)"
    using mpi by (simp_all add: mpi_requests_ok_def)
  then show ?thesis
    using bw by (cases bw) (simp add: sync_areas_def window_ok_def)
qed

text \<open>
  C31. \<^verbatim>\<open>sync_areas\<close> returns without a failed assertion, waits for every broadcast it started,
  whatever request \<^verbatim>\<open>MPI_Waitany\<close> picks when the window of 256 is full, and leaves the root's
  bytes in all the areas and every other byte as it was.
\<close>

theorem sync_areas_correct:
  assumes mpi: "mpi_requests_ok outstanding settled root_mem ibcast waitany waitall"
    and top: "\<forall>a \<in> set as. unat (ma_size a) + INT_MAX \<le> 2 ^ 64" and "outstanding w = {#}"
  shows "\<exists>w'. sync_areas ibcast waitany waitall as w = Some (Inr w') \<and> outstanding w' = {#} \<and>
    settled w' = overwrite root_mem (areas_block as) (settled w)"
  using assms by (rule sync_areas_ok)

text \<open>
  A concrete world for the witness: requests are numbered, broadcasts copy at once, and
  \<^verbatim>\<open>MPI_Waitany\<close> completes the last request of the list.
\<close>

definition demo_ibcast :: "memory \<Rightarrow> u64 \<Rightarrow> int \<Rightarrow> nat multiset \<times> nat \<times> memory \<Rightarrow>
    nat \<times> nat multiset \<times> nat \<times> memory" where
  "demo_ibcast root_mem a n w = (case w of (out, k, m) \<Rightarrow>
     (k, add_mset k out, Suc k, overwrite root_mem (block a (nat n)) m))"

definition demo_waitany :: "nat list \<Rightarrow> nat multiset \<times> nat \<times> memory \<Rightarrow>
    nat option \<times> nat multiset \<times> nat \<times> memory" where
  "demo_waitany rs w = (case w of (out, k, m) \<Rightarrow> (Some (length rs - 1), out - {# rs ! (length rs - 1) #}, k, m))"

definition demo_waitall :: "nat list \<Rightarrow> nat multiset \<times> nat \<times> memory \<Rightarrow> nat multiset \<times> nat \<times> memory" where
  "demo_waitall rs w = (case w of (out, k, m) \<Rightarrow> (out - mset rs, k, m))"

lemma demo_requests_ok:
  "mpi_requests_ok fst (\<lambda>w. snd (snd w)) root_mem (demo_ibcast root_mem) demo_waitany demo_waitall"
  by (auto simp: mpi_requests_ok_def demo_ibcast_def demo_waitany_def demo_waitall_def split: prod.splits)

theorem sync_areas_correct_witness:
  "\<exists>w'. sync_areas (demo_ibcast (\<lambda>_. 7)) demo_waitany demo_waitall
      [\<lparr>ma_data = 4096, ma_size = 5000000000\<rparr>] ({#}, 0, \<lambda>_. 0) = Some (Inr w') \<and> fst w' = {#} \<and>
    snd (snd w') = overwrite (\<lambda>_. 7) (areas_block [\<lparr>ma_data = 4096, ma_size = 5000000000\<rparr>])
      (snd (snd ({#}, 0, \<lambda>_. 0)))"
  using sync_areas_correct [OF demo_requests_ok [of "\<lambda>_. 7"],
      of "[\<lparr>ma_data = 4096, ma_size = 5000000000\<rparr>]" "({#}, 0, \<lambda>_. 0)"]
  by (simp add: INT_MAX_def)

end
