(* ===== verification/Gss.thy ===== *)
theory Gss
  imports Prelude Tiling
begin

text \<open>
  Guided self-scheduling (\<^verbatim>\<open>c_dynamic_schedule_binding.cc\<close> and \<^verbatim>\<open>.h\<close>): the generator that
  hands out ranges of a one-dimensional loop, the one that hands out stretches of a collapsed
  double loop, and the loops of the \<^verbatim>\<open>S_P_GSS_UINT64_T_PAR_FOR\<close> macros over what they hand out.
  The integers are 64-bit words.
\<close>

section \<open>The one-dimensional generator\<close>

record s_p_gss_state =
  gss_current :: u64
  gss_end :: u64
  gss_grain_size :: u64
  gss_process_count :: u64

record s_p_simple_task =
  task_begin :: u64
  task_end :: u64

text \<open>\<open>all_reduce comm n\<close> is the sum over the ranks of \<open>comm\<close>, of which this rank contributes \<open>n\<close>.\<close>

definition s_p_new_gss_state ::
  "('c \<Rightarrow> u64 \<Rightarrow> u64) \<Rightarrow> u64 \<Rightarrow> u64 \<Rightarrow> u64 \<Rightarrow> u64 \<Rightarrow> 'c \<Rightarrow> s_p_gss_state" where
  "s_p_new_gss_state all_reduce begin_idx end_idx grain_size current_rank_process_count comm =
     \<lparr>gss_current = begin_idx, gss_end = end_idx, gss_grain_size = grain_size,
      gss_process_count = all_reduce comm current_rank_process_count\<rparr>"

text \<open>
  \<^verbatim>\<open>next = ((remaining - 1) / all_rank_process_count) + 1\<close>, then the \<^verbatim>\<open>max\<close> with the grain size
  and the \<^verbatim>\<open>min\<close> with what remains: the three lines both generators share.
\<close>

definition gss_next :: "u64 \<Rightarrow> u64 \<Rightarrow> u64 \<Rightarrow> u64" where
  "gss_next process_count grain_size remaining =
     min (max ((remaining - 1) div process_count + 1) grain_size) remaining"

text \<open>
  The generator. It returns \<^verbatim>\<open>true\<close> and leaves the buffer alone when the range is used up
  (\<open>None\<close>), otherwise \<^verbatim>\<open>false\<close> with a task in the buffer (\<open>Some\<close>). A process count of 0 is a
  division by zero.
\<close>

definition s_p_gss_generator ::
  "s_p_gss_state \<Rightarrow> (s_p_simple_task option \<times> s_p_gss_state) result" where
  "s_p_gss_generator st =
     (let remaining = gss_end st - gss_current st in
      if remaining = 0 then Inr (None, st)
      else if gss_process_count st = 0 then Inl DivByZero
      else let n = gss_next (gss_process_count st) (gss_grain_size st) remaining in
        Inr (Some \<lparr>task_begin = gss_current st, task_end = gss_current st + n\<rparr>,
             st\<lparr>gss_current := gss_current st + n\<rparr>))"

subsection \<open>Size of the next task\<close>

definition gss_piece :: "nat \<Rightarrow> nat \<Rightarrow> nat \<Rightarrow> nat" where
  "gss_piece process_count grain r = min (max ((r - 1) div process_count + 1) grain) r"

interpretation gss_pieces: tiling "gss_piece process_count grain" for process_count grain
  by unfold_locales (auto simp: gss_piece_def)

lemma unat_gss_next:
  assumes "0 < unat r"
  shows "unat (gss_next p g r) = gss_piece (unat p) (unat g) (unat r)"
proof -
  have r1: "unat (r - 1) = unat r - 1" using unat_sub_nw [of 1 r] assms by simp
  have "unat r < 2 ^ 64" using unsigned_less [of r] by simp
  then have "unat r - 1 < 2 ^ 64 - 1" using assms by linarith
  then have "(unat r - 1) div unat p < 2 ^ 64 - 1" by (rule le_less_trans [OF div_le_dividend])
  then have "unat ((r - 1) div p + 1) = (unat r - 1) div unat p + 1"
    using unat_add_nw [of "(r - 1) div p" 1] by (simp add: unat_div r1)
  then show ?thesis
    by (simp add: gss_next_def gss_piece_def min_def max_def word_le_nat_alt)
qed

lemma gss_next_le: "unat (gss_next p g r) \<le> unat r"
  by (simp add: gss_next_def min_def word_le_nat_alt)

lemma gss_next_pos: "0 < unat r \<Longrightarrow> 0 < unat (gss_next p g r)"
  using gss_pieces.piece_pos by (simp add: unat_gss_next)

lemma gss_piece_mono: "r \<le> s \<Longrightarrow> gss_piece p g r \<le> gss_piece p g s"
  unfolding gss_piece_def by (intro min.mono max.mono add_mono div_le_mono) auto

subsection \<open>Running the generator to the end\<close>

text \<open>
  What a range-based \<^verbatim>\<open>for\<close> over the generator yields: call it until it returns \<^verbatim>\<open>true\<close>. Each
  call takes at least one index off the remaining ones, so this ends.
\<close>

function gss_run :: "s_p_gss_state \<Rightarrow> s_p_simple_task list result" where
  "gss_run st =
     (case s_p_gss_generator st of
        Inl e \<Rightarrow> Inl e
      | Inr (None, _) \<Rightarrow> Inr []
      | Inr (Some t, st') \<Rightarrow> bindE (gss_run st') (\<lambda>ts. Inr (t # ts)))"
  by pat_completeness auto

lemma gss_generator_decreases:
  assumes "s_p_gss_generator st = Inr (Some t, st')"
  shows "unat (gss_end st' - gss_current st') < unat (gss_end st - gss_current st)"
proof -
  let ?r = "gss_end st - gss_current st"
  let ?n = "gss_next (gss_process_count st) (gss_grain_size st) ?r"
  have r: "?r \<noteq> 0" and st': "st' = st\<lparr>gss_current := gss_current st + ?n\<rparr>"
    using assms by (auto simp: s_p_gss_generator_def Let_def split: if_splits)
  have "gss_end st' - gss_current st' = ?r - ?n" using st' by (simp add: algebra_simps)
  moreover have "0 < unat ?r" using r by (simp only: u64_neq_0_iff)
  then have "unat (?r - ?n) < unat ?r"
    unfolding unat_sub_nw [OF gss_next_le] using gss_next_pos [of ?r] by (intro diff_less)
  ultimately show ?thesis by simp
qed

termination gss_run
  by (relation "measure (\<lambda>st. unat (gss_end st - gss_current st))")
    (auto simp: gss_generator_decreases)

declare gss_run.simps [simp del]

text \<open>
  The indices one task makes a thread run: the inner \<^verbatim>\<open>for\<close> of the macro,
  \<^verbatim>\<open>for (i = task.begin; i < task.end; i++)\<close>.
\<close>

definition task_indices :: "s_p_simple_task \<Rightarrow> nat list" where
  "task_indices t = [unat (task_begin t) ..< unat (task_end t)]"

definition par_for_indices :: "s_p_simple_task list \<Rightarrow> nat list" where
  "par_for_indices ts = concat (map task_indices ts)"


definition tile_task :: "nat \<times> nat \<Rightarrow> s_p_simple_task" where
  "tile_task t = \<lparr>task_begin = of_nat (fst t), task_end = of_nat (fst t + snd t)\<rparr>"

definition task_size :: "s_p_simple_task \<Rightarrow> nat" where
  "task_size t = unat (task_end t) - unat (task_begin t)"

text \<open>One call of the generator, over natural numbers.\<close>

lemma gss_generator_step:
  assumes "gss_process_count st \<noteq> 0" "unat (gss_current st) = lo"
    and "0 < left" "unat (gss_end st) = lo + left"
  defines "n \<equiv> gss_piece (unat (gss_process_count st)) (unat (gss_grain_size st)) left"
  shows "s_p_gss_generator st = Inr (Some (tile_task (lo, n)), st\<lparr>gss_current := of_nat (lo + n)\<rparr>)"
proof -
  have rem: "unat (gss_end st - gss_current st) = left"
    using unat_sub_nw [of "gss_current st" "gss_end st"] assms(2,4) by simp
  then have "gss_end st - gss_current st \<noteq> 0" using assms(3) by (auto simp: u64_neq_0_iff)
  moreover have un: "unat (gss_next (gss_process_count st) (gss_grain_size st) (gss_end st - gss_current st)) = n"
    using unat_gss_next [of "gss_end st - gss_current st"] assms(3) by (simp add: rem n_def)
  then have "gss_next (gss_process_count st) (gss_grain_size st) (gss_end st - gss_current st) = of_nat n"
    by (rule eq_of_nat_if_unat)
  moreover have "gss_current st = of_nat lo" using assms(2) by (rule eq_of_nat_if_unat)
  ultimately show ?thesis
    using assms(1) by (simp add: s_p_gss_generator_def Let_def tile_task_def)
qed

lemma gss_run_tiles:
  assumes "gss_process_count st \<noteq> 0" "unat (gss_current st) = lo" "unat (gss_end st) = lo + left"
  shows "gss_run st = Inr (map tile_task
    (tiles (gss_piece (unat (gss_process_count st)) (unat (gss_grain_size st))) lo left))"
  using assms
proof (induction left arbitrary: lo st rule: less_induct)
  case (less left)
  let ?f = "gss_piece (unat (gss_process_count st)) (unat (gss_grain_size st))"
  show ?case
  proof (cases "left = 0")
    case True
    then have "gss_end st = gss_current st" using less.prems by (simp add: word_unat_eq_iff)
    then show ?thesis using True by (simp add: gss_run.simps [of st] s_p_gss_generator_def)
  next
    case False
    then have left: "0 < left" by simp
    note step = gss_generator_step [OF less.prems(1,2) left less.prems(3)]
    have p: "0 < ?f left" "?f left \<le> left"
      using left gss_pieces.piece_pos gss_pieces.piece_le by blast+
    let ?st = "st\<lparr>gss_current := of_nat (lo + ?f left)\<rparr>"
    have "lo + ?f left < 2 ^ 64" using p less.prems(3) unat_less_2p64 [of "gss_end st"] by linarith
    then have cur: "unat (gss_current ?st) = lo + ?f left" by (simp add: unat_of_nat_64 del: of_nat_add)
    have "gss_run ?st = Inr (map tile_task (tiles ?f (lo + ?f left) (left - ?f left)))"
      using less.IH [of "left - ?f left" ?st "lo + ?f left"] p left less.prems cur by simp
    then show ?thesis
      using left by (simp add: gss_run.simps [of st] step gss_pieces.tiles_Cons [OF left])
  qed
qed


lemma task_indices_tile:
  "l + n < 2 ^ 64 \<Longrightarrow> task_indices (tile_task (l, n)) = [l ..< l + n]"
  by (simp add: task_indices_def tile_task_def unat_of_nat_64 del: of_nat_add)

lemma par_for_indices_tiles:
  "(\<forall>(l, n) \<in> set ts. l + n < 2 ^ 64) \<Longrightarrow> par_for_indices (map tile_task ts) = tile_indices ts"
  by (induction ts) (auto simp: par_for_indices_def task_indices_tile)

lemma gss_tiles_below:
  assumes "lo + left < 2 ^ 64"
  shows "\<forall>(l, n) \<in> set (tiles (gss_piece p g) lo left). 0 < n \<and> l + n < 2 ^ 64"
  using gss_pieces.tiles_positive [of _ _ p g lo left] assms by fastforce

lemma gss_run_exact:
  assumes "gss_process_count st \<noteq> 0" "gss_current st \<le> gss_end st"
  shows "\<exists>ts. gss_run st = Inr ts \<and>
    par_for_indices ts = [unat (gss_current st) ..< unat (gss_end st)] \<and>
    (\<forall>t \<in> set ts. task_begin t < task_end t)"
proof -
  let ?lo = "unat (gss_current st)" and ?left = "unat (gss_end st) - unat (gss_current st)"
  let ?ts = "tiles (gss_piece (unat (gss_process_count st)) (unat (gss_grain_size st))) ?lo ?left"
  have e: "unat (gss_end st) = ?lo + ?left" using assms(2) by (simp add: word_order_nat)
  have below: "\<forall>(l, n) \<in> set ?ts. 0 < n \<and> l + n < 2 ^ 64"
    by (rule gss_tiles_below) (use e unat_less_2p64 [of "gss_end st"] in linarith)
  have "par_for_indices (map tile_task ?ts) = [?lo ..< ?lo + ?left]"
    using par_for_indices_tiles [of ?ts] below gss_pieces.tiles_exact by fastforce
  moreover have "task_begin (tile_task t) < task_end (tile_task t)" if "t \<in> set ?ts" for t
    using below that by (cases t)
      (fastforce simp: tile_task_def word_less_nat_alt unat_of_nat_64 simp del: of_nat_add)
  ultimately show ?thesis
    using gss_run_tiles [OF assms(1) refl e] e by (intro exI [of _ "map tile_task ?ts"]) auto
qed

text \<open>
  C30. The guided generator hands out every index of \<^verbatim>\<open>begin .. end\<close> exactly once and in order,
  in nonempty tasks, and then stops: the macro runs its body for the indices a sequential loop
  would run it for.
\<close>

theorem gss_exact:
  assumes "gss_process_count st \<noteq> 0" "gss_current st \<le> gss_end st"
  shows "\<exists>ts. gss_run st = Inr ts \<and>
    par_for_indices ts = [unat (gss_current st) ..< unat (gss_end st)] \<and>
    (\<forall>t \<in> set ts. task_begin t < task_end t)"
  using assms by (rule gss_run_exact)

definition gss_example :: s_p_gss_state where
  "gss_example = \<lparr>gss_current = 3, gss_end = 50, gss_grain_size = 4, gss_process_count = 4\<rparr>"

theorem gss_exact_witness:
  "\<exists>ts. gss_run gss_example = Inr ts \<and>
    par_for_indices ts = [unat (gss_current gss_example) ..< unat (gss_end gss_example)] \<and>
    (\<forall>t \<in> set ts. task_begin t < task_end t)"
  by (rule gss_exact) (simp_all add: gss_example_def)

lemma gss_tiles_sorted:
  "sorted_wrt (\<lambda>s t. snd t \<le> snd s) (tiles (gss_piece p g) lo left)"
proof (induction left arbitrary: lo rule: less_induct)
  case (less left)
  show ?case
  proof (cases "left = 0")
    case False
    let ?n = "gss_piece p g left"
    have n: "0 < ?n" using False gss_pieces.piece_pos by blast
    have "snd t \<le> ?n" if t: "t \<in> set (tiles (gss_piece p g) (lo + ?n) (left - ?n))" for t
    proof -
      obtain r where "r \<le> left - ?n" "snd t = gss_piece p g r"
        using tiles_bounded t by (metis prod.collapse)
      then show ?thesis using gss_piece_mono [of r left p g] by simp
    qed
    then show ?thesis using less.IH [of "left - ?n" "lo + ?n"] n False
      by (simp add: gss_pieces.tiles_Cons)
  qed simp
qed

text \<open>
  The schedule is guided: task sizes never grow, no task is larger than a fair share of the
  whole range or the grain size, and no task is smaller than the grain size unless it takes all
  that remains.
\<close>

theorem gss_guided:
  assumes "gss_process_count st \<noteq> 0" "gss_current st \<le> gss_end st"
  shows "\<exists>ts. gss_run st = Inr ts \<and> sorted_wrt (\<lambda>s t. task_size t \<le> task_size s) ts \<and>
    (\<forall>t \<in> set ts. min (unat (gss_grain_size st)) (unat (gss_end st) - unat (task_begin t)) \<le> task_size t \<and>
      task_size t \<le> max ((unat (gss_end st) - unat (gss_current st) - 1) div unat (gss_process_count st) + 1)
        (unat (gss_grain_size st)))"
proof -
  let ?lo = "unat (gss_current st)" and ?left = "unat (gss_end st) - unat (gss_current st)"
  let ?f = "gss_piece (unat (gss_process_count st)) (unat (gss_grain_size st))"
  let ?ts = "tiles ?f ?lo ?left"
  have e: "unat (gss_end st) = ?lo + ?left" using assms(2) by (simp add: word_order_nat)
  have lt: "?lo + ?left < 2 ^ 64" using e unat_less_2p64 [of "gss_end st"] by linarith
  have size: "task_size (tile_task t) = snd t" "unat (task_begin (tile_task t)) = fst t"
    if "t \<in> set ?ts" for t
  proof -
    have b: "fst t + snd t < 2 ^ 64" using gss_tiles_below [OF lt] that by fastforce
    then show "task_size (tile_task t) = snd t" "unat (task_begin (tile_task t)) = fst t"
      by (simp_all add: task_size_def tile_task_def unat_of_nat_64 del: of_nat_add)
  qed
  have "min (unat (gss_grain_size st)) (unat (gss_end st) - fst t) \<le> snd t \<and>
    snd t \<le> max ((?left - 1) div unat (gss_process_count st) + 1) (unat (gss_grain_size st))"
    if "t \<in> set ?ts" for t
  proof -
    obtain l n where t: "t = (l, n)" by fastforce
    have l: "?lo \<le> l" "n = ?f (?lo + ?left - l)"
      using gss_pieces.tiles_positive gss_pieces.tiles_piece that t by blast+
    have "n \<le> ?f ?left" unfolding l(2) by (rule gss_piece_mono) (use l(1) in simp)
    moreover have "min (unat (gss_grain_size st)) (?lo + ?left - l) \<le> n"
      unfolding l(2) gss_piece_def by simp
    moreover have "?lo + ?left - l = unat (gss_end st) - l" using e by simp
    moreover have "?f ?left \<le> max ((?left - 1) div unat (gss_process_count st) + 1) (unat (gss_grain_size st))"
      by (simp add: gss_piece_def)
    ultimately show ?thesis unfolding t by simp
  qed
  moreover have "sorted_wrt (\<lambda>s t. task_size t \<le> task_size s) (map tile_task ?ts)"
    unfolding sorted_wrt_map
    by (rule sorted_wrt_mono_rel [OF _ gss_tiles_sorted]) (simp add: size)
  ultimately show ?thesis
    using gss_run_tiles [OF assms(1) refl e] by (intro exI [of _ "map tile_task ?ts"]) (simp add: size)
qed

theorem gss_guided_witness:
  "\<exists>ts. gss_run gss_example = Inr ts \<and> sorted_wrt (\<lambda>s t. task_size t \<le> task_size s) ts \<and>
    (\<forall>t \<in> set ts. min (unat (gss_grain_size gss_example)) (unat (gss_end gss_example) - unat (task_begin t)) \<le> task_size t \<and>
      task_size t \<le> max ((unat (gss_end gss_example) - unat (gss_current gss_example) - 1)
        div unat (gss_process_count gss_example) + 1) (unat (gss_grain_size gss_example)))"
  by (rule gss_guided) (simp_all add: gss_example_def)

lemma gss_run_returns: "gss_process_count st \<noteq> 0 \<Longrightarrow> \<exists>ts. gss_run st = Inr ts"
proof (induction st rule: gss_run.induct)
  case (1 st)
  show ?case
  proof (cases "gss_end st - gss_current st = 0")
    case True
    then show ?thesis by (simp add: gss_run.simps [of st] s_p_gss_generator_def)
  next
    case False
    let ?n = "gss_next (gss_process_count st) (gss_grain_size st) (gss_end st - gss_current st)"
    have step: "s_p_gss_generator st = Inr (Some \<lparr>task_begin = gss_current st, task_end = gss_current st + ?n\<rparr>,
        st\<lparr>gss_current := gss_current st + ?n\<rparr>)"
      using False 1(2) by (simp add: s_p_gss_generator_def Let_def)
    from 1(1) [OF this refl refl] 1(2) show ?thesis by (auto simp: gss_run.simps [of st] step)
  qed
qed

text \<open>
  A range that is empty because it is reversed is not empty for the generator: for \<^verbatim>\<open>end < begin\<close> the unsigned
  difference wraps, and the macro runs its body for \<^verbatim>\<open>begin\<close> and what follows, where a sequential loop runs it not at
  all. (A first task that itself wraps is the exception: it ends below its begin.)
\<close>

theorem gss_reversed_range:
  fixes st
  defines "n \<equiv> unat (gss_next (gss_process_count st) (gss_grain_size st) (gss_end st - gss_current st))"
  assumes "gss_process_count st \<noteq> 0" "gss_end st < gss_current st" "unat (gss_current st) + n < 2 ^ 64"
  shows "\<exists>t ts. gss_run st = Inr (t # ts) \<and> task_indices t = [unat (gss_current st) ..< unat (gss_current st) + n] \<and> 0 < n"
proof -
  let ?n = "gss_next (gss_process_count st) (gss_grain_size st) (gss_end st - gss_current st)"
  let ?st = "st\<lparr>gss_current := gss_current st + ?n\<rparr>"
  have r: "gss_end st - gss_current st \<noteq> 0" using assms(3) by auto
  then have "0 < unat (gss_end st - gss_current st)" by (simp only: u64_neq_0_iff)
  then have pos: "0 < n" unfolding n_def by (rule gss_next_pos)
  obtain ts where ts: "gss_run ?st = Inr ts" using gss_run_returns [of ?st] assms(2) by auto
  have "unat (gss_current st + ?n) = unat (gss_current st) + n"
    using unat_add_nw [of "gss_current st" ?n] assms(4) by (simp add: n_def)
  then show ?thesis
    using r ts pos assms(2) by (simp add: gss_run.simps [of st] s_p_gss_generator_def Let_def task_indices_def)
qed

theorem gss_reversed_range_witness:
  "\<exists>t ts. gss_run \<lparr>gss_current = 10, gss_end = 0, gss_grain_size = 4, gss_process_count = 40\<rparr> = Inr (t # ts) \<and>
    task_indices t = [10 ..< 461168601842738801]"
proof -
  let ?st = "\<lparr>gss_current = 10, gss_end = 0, gss_grain_size = 4, gss_process_count = 40\<rparr>"
  have n: "unat (gss_next (gss_process_count ?st) (gss_grain_size ?st) (gss_end ?st - gss_current ?st)) = 461168601842738791"
    by (simp add: gss_next_def)
  have "gss_process_count ?st \<noteq> 0" "gss_end ?st < gss_current ?st"
    "unat (gss_current ?st) + unat (gss_next (gss_process_count ?st) (gss_grain_size ?st) (gss_end ?st - gss_current ?st)) < 2 ^ 64"
    unfolding n by simp_all
  from gss_reversed_range [OF this] have "\<exists>t ts. gss_run ?st = Inr (t # ts) \<and>
      task_indices t = [unat (gss_current ?st) ..< unat (gss_current ?st) + 461168601842738791] \<and> 0 < (461168601842738791 :: nat)"
    unfolding n .
  moreover have "unat (gss_current ?st) = 10" "(10 :: nat) + 461168601842738791 = 461168601842738801" by simp_all
  ultimately show ?thesis by metis
qed

end
