(* ===== verification/Gss_Collapse.thy ===== *)
theory Gss_Collapse
  imports Gss
begin

text \<open>
  The generator for a collapsed double loop and the loop of
  \<^verbatim>\<open>S_P_GSS_UINT64_T_PAR_FOR_COLLAPSE_2\<close>. The shape of the double loop is the user's: a function
  that advances an \<open>(i, j)\<close> point by a number of iterations. It is an argument here, and
  \<open>walks\<close> states what the library relies on.
\<close>

record s_p_ij_point =
  pt_i :: u64
  pt_j :: u64

record s_p_collapse_2_task =
  ij_begin :: s_p_ij_point
  ij_end :: s_p_ij_point

text \<open>\<^verbatim>\<open>collapse_2_gss_gen_func\<close>: current point, final end, expected count and the user's state;
  it returns the point after the last iteration taken and how many it took.\<close>

type_synonym 'g collapse_2_gss_gen_func =
  "s_p_ij_point \<Rightarrow> s_p_ij_point \<Rightarrow> u64 \<Rightarrow> 'g \<Rightarrow> s_p_ij_point \<times> u64"

record 'g s_p_collapse_2_gss_state =
  c2_current :: s_p_ij_point
  c2_end :: s_p_ij_point
  c2_remaining_index :: u64
  c2_grain_size :: u64
  c2_process_count :: u64
  c2_gen_func :: "'g collapse_2_gss_gen_func"
  c2_gen_func_state :: 'g

definition s_p_new_collapse_2_gss_state ::
  "('c \<Rightarrow> u64 \<Rightarrow> u64) \<Rightarrow> u64 \<Rightarrow> u64 \<Rightarrow> u64 \<Rightarrow> u64 \<Rightarrow> u64 \<Rightarrow> u64 \<Rightarrow> 'g collapse_2_gss_gen_func \<Rightarrow>
   'g \<Rightarrow> u64 \<Rightarrow> 'c \<Rightarrow> 'g s_p_collapse_2_gss_state" where
  "s_p_new_collapse_2_gss_state all_reduce i_begin i_end j_begin j_end grain_size all_index_count
     gen_func gen_func_state current_rank_process_count comm =
     \<lparr>c2_current = \<lparr>pt_i = i_begin, pt_j = j_begin\<rparr>, c2_end = \<lparr>pt_i = i_end, pt_j = j_end\<rparr>,
      c2_remaining_index = all_index_count, c2_grain_size = grain_size,
      c2_process_count = all_reduce comm current_rank_process_count,
      c2_gen_func = gen_func, c2_gen_func_state = gen_func_state\<rparr>"

definition s_p_collapse_2_gss_generator ::
  "'g s_p_collapse_2_gss_state \<Rightarrow> (s_p_collapse_2_task option \<times> 'g s_p_collapse_2_gss_state) result" where
  "s_p_collapse_2_gss_generator st =
     (if pt_i (c2_current st) = pt_i (c2_end st) then
        assertE (c2_remaining_index st = 0) (Inr (None, st))
      else if c2_process_count st = 0 then Inl DivByZero
      else
        let n = gss_next (c2_process_count st) (c2_grain_size st) (c2_remaining_index st);
            gen_res = c2_gen_func st (c2_current st) (c2_end st) n (c2_gen_func_state st)
        in assertE (snd gen_res \<noteq> 0)
          (Inr (Some \<lparr>ij_begin = c2_current st, ij_end = fst gen_res\<rparr>,
                st\<lparr>c2_current := fst gen_res,
                   c2_remaining_index := c2_remaining_index st - snd gen_res\<rparr>)))"

text \<open>
  Calling the generator until it returns \<^verbatim>\<open>true\<close>. The user's function decides whether that ever
  happens, so not ending is \<open>None\<close>.
\<close>

partial_function (option) collapse_2_run ::
  "'g s_p_collapse_2_gss_state \<Rightarrow> s_p_collapse_2_task list result option" where
  "collapse_2_run st =
     (case s_p_collapse_2_gss_generator st of
        Inl e \<Rightarrow> Some (Inl e)
      | Inr r \<Rightarrow>
          (case fst r of
             None \<Rightarrow> Some (Inr [])
           | Some t \<Rightarrow> Option.bind (collapse_2_run (snd r)) (\<lambda>ts. Some (bindE ts (\<lambda>ts. Inr (t # ts))))))"

text \<open>
  The inner loop of the macro: from \<^verbatim>\<open>ij_begin\<close>, advancing by one iteration, while the point
  differs from \<^verbatim>\<open>ij_end\<close>. The result is the points at which the body runs.
\<close>

partial_function (option) collapse_2_points ::
  "'g collapse_2_gss_gen_func \<Rightarrow> 'g \<Rightarrow> s_p_ij_point \<Rightarrow> s_p_ij_point \<Rightarrow> s_p_ij_point \<Rightarrow>
   s_p_ij_point list option" where
  "collapse_2_points gen_func gs final_end ij stop =
     (if pt_i ij \<noteq> pt_i stop \<or> pt_j ij \<noteq> pt_j stop then
        Option.bind (collapse_2_points gen_func gs final_end (fst (gen_func ij final_end 1 gs)) stop)
          (\<lambda>ps. Some (ij # ps))
      else Some [])"

fun collapse_2_par_for ::
  "'g collapse_2_gss_gen_func \<Rightarrow> 'g \<Rightarrow> s_p_ij_point \<Rightarrow> s_p_collapse_2_task list \<Rightarrow>
   s_p_ij_point list option" where
  "collapse_2_par_for gen_func gs final_end [] = Some []"
| "collapse_2_par_for gen_func gs final_end (t # ts) =
     Option.bind (collapse_2_points gen_func gs final_end (ij_begin t) (ij_end t)) (\<lambda>ps.
       Option.bind (collapse_2_par_for gen_func gs final_end ts) (\<lambda>qs. Some (ps @ qs)))"

text \<open>
  What a generator function has to do: the double loop visits the distinct points
  \<open>pt 0, \<dots>, pt (N - 1)\<close>, \<open>pt N\<close> is the point behind the last one and the only one with the end's
  \<open>i\<close>, and from \<open>pt k\<close> the function advances by the expected count or to the end.
\<close>

definition walks ::
  "'g collapse_2_gss_gen_func \<Rightarrow> 'g \<Rightarrow> s_p_ij_point \<Rightarrow> (nat \<Rightarrow> s_p_ij_point) \<Rightarrow> nat \<Rightarrow> bool" where
  "walks gen_func gs final_end pt N \<longleftrightarrow> N < 2 ^ 64 \<and> inj_on pt {..N} \<and>
     pt_i (pt N) = pt_i final_end \<and> (\<forall>k < N. pt_i (pt k) \<noteq> pt_i final_end) \<and>
     (\<forall>k < N. \<forall>n. gen_func (pt k) final_end n gs
        = (pt (min (k + unat n) N), of_nat (min (unat n) (N - k))))"

lemma walksD:
  assumes "walks gf gs fe pt N" "k < N"
  shows "gf (pt k) fe n gs = (pt (k + min (unat n) (N - k)), of_nat (min (unat n) (N - k)))"
proof -
  have "min (k + unat n) N = k + min (unat n) (N - k)" using assms(2) by simp
  then show ?thesis using assms unfolding walks_def by metis
qed

lemma collapse_2_points_walk:
  assumes w: "walks gf gs fe pt N"
  shows "k + n \<le> N \<Longrightarrow> collapse_2_points gf gs fe (pt k) (pt (k + n)) = Some (map pt [k ..< k + n])"
proof (induction n arbitrary: k)
  case 0
  then show ?case by (simp add: collapse_2_points.simps)
next
  case (Suc n)
  have "pt k \<noteq> pt (k + Suc n)"
    using w Suc.prems inj_onD [of pt "{..N}" k "k + Suc n"] by (auto simp: walks_def)
  then have ne: "pt_i (pt k) \<noteq> pt_i (pt (k + Suc n)) \<or> pt_j (pt k) \<noteq> pt_j (pt (k + Suc n))"
    by (auto intro: s_p_ij_point.equality)
  have "k + min (unat (1 :: u64)) (N - k) = Suc k" using Suc.prems by simp
  then have "fst (gf (pt k) fe 1 gs) = pt (Suc k)" using walksD [OF w, of k 1] Suc.prems by simp
  moreover have "collapse_2_points gf gs fe (pt (Suc k)) (pt (Suc k + n)) = Some (map pt [Suc k ..< Suc k + n])"
    using Suc.IH [of "Suc k"] Suc.prems by simp
  moreover have "[k ..< k + Suc n] = k # [Suc k ..< Suc k + n]" by (simp add: upt_conv_Cons)
  ultimately show ?case using ne by (simp add: collapse_2_points.simps [of gf gs fe "pt k"])
qed


text \<open>One call of the generator at \<open>pt k\<close>, with \<open>R\<close> iterations still counted as remaining.\<close>

definition at_point ::
  "'g s_p_collapse_2_gss_state \<Rightarrow> (nat \<Rightarrow> s_p_ij_point) \<Rightarrow> nat \<Rightarrow> nat \<Rightarrow> bool" where
  "at_point st pt k R \<longleftrightarrow> c2_current st = pt k \<and> c2_remaining_index st = of_nat R \<and> R < 2 ^ 64 \<and>
     c2_process_count st \<noteq> 0"

abbreviation c2_walks :: "'g s_p_collapse_2_gss_state \<Rightarrow> (nat \<Rightarrow> s_p_ij_point) \<Rightarrow> nat \<Rightarrow> bool" where
  "c2_walks st pt N \<equiv> walks (c2_gen_func st) (c2_gen_func_state st) (c2_end st) pt N"

lemma collapse_2_step:
  assumes w: "c2_walks st pt N" and a: "at_point st pt k R" and "k < N" "0 < R"
  defines "c \<equiv> min (gss_piece (unat (c2_process_count st)) (unat (c2_grain_size st)) R) (N - k)"
  obtains st' where "s_p_collapse_2_gss_generator st
      = Inr (Some \<lparr>ij_begin = pt k, ij_end = pt (k + c)\<rparr>, st')"
    "at_point st' pt (k + c) (R - c)" "0 < c" "c \<le> N - k" "c \<le> R"
    "c2_gen_func st' = c2_gen_func st" "c2_gen_func_state st' = c2_gen_func_state st"
    "c2_end st' = c2_end st"
proof -
  let ?n = "gss_next (c2_process_count st) (c2_grain_size st) (c2_remaining_index st)"
  have uR: "unat (c2_remaining_index st) = R" using a by (simp add: at_point_def unat_of_nat_64)
  have un: "unat ?n = gss_piece (unat (c2_process_count st)) (unat (c2_grain_size st)) R"
    using unat_gss_next [of "c2_remaining_index st"] assms(4) by (simp add: uR)
  have gen: "c2_gen_func st (pt k) (c2_end st) ?n (c2_gen_func_state st) = (pt (k + c), of_nat c)"
    using walksD [OF w assms(3), of ?n] by (simp add: un c_def)
  have c: "0 < c" "c \<le> N - k" "c \<le> R"
    using gss_pieces.piece_pos [OF assms(4)] gss_pieces.piece_le [of _ _ R] assms(3)
    by (auto simp: c_def min_le_iff_disj)
  have c64: "c < 2 ^ 64" using c(3) a by (simp add: at_point_def)
  then have uc: "unat (of_nat c :: u64) = c" by (rule unat_of_nat_64)
  then have "(of_nat c :: u64) \<noteq> 0" using c(1) by (simp add: u64_neq_0_iff)
  moreover have "unat (c2_remaining_index st - of_nat c) = R - c"
    using unat_sub_nw [of "of_nat c" "c2_remaining_index st"] c uc uR by simp
  then have "c2_remaining_index st - of_nat c = of_nat (R - c)" by (rule eq_of_nat_if_unat)
  moreover have "pt_i (pt k) \<noteq> pt_i (c2_end st)" using w assms(3) by (simp add: walks_def)
  moreover have "R - c < 2 ^ 64" using a unfolding at_point_def by linarith
  ultimately show ?thesis
    using a gen c that [of "st\<lparr>c2_current := pt (k + c), c2_remaining_index := of_nat (R - c)\<rparr>"]
    by (simp add: s_p_collapse_2_gss_generator_def Let_def at_point_def)
qed

lemma collapse_2_run_some:
  assumes "s_p_collapse_2_gss_generator st = Inr (Some t, st')" "collapse_2_run st' = Some r"
  shows "collapse_2_run st = Some (bindE r (\<lambda>ts. Inr (t # ts)))"
  using assms by (simp add: collapse_2_run.simps [of st])

lemma collapse_2_run_walk:
  assumes "c2_walks st pt N" "at_point st pt k (N - k)" "k \<le> N"
  shows "\<exists>ts. collapse_2_run st = Some (Inr ts) \<and>
    collapse_2_par_for (c2_gen_func st) (c2_gen_func_state st) (c2_end st) ts = Some (map pt [k ..< N])"
  using assms
proof (induction "N - k" arbitrary: st k rule: less_induct)
  case less
  show ?case
  proof (cases "k = N")
    case True
    then show ?thesis
      using less.prems by (simp add: collapse_2_run.simps [of st] s_p_collapse_2_gss_generator_def
          at_point_def walks_def)
  next
    case False
    then have k: "k < N" "0 < N - k" using less.prems(3) by auto
    obtain c st' where s: "s_p_collapse_2_gss_generator st
        = Inr (Some \<lparr>ij_begin = pt k, ij_end = pt (k + c)\<rparr>, st')"
      "at_point st' pt (k + c) (N - k - c)" "0 < c" "c \<le> N - k"
      "c2_gen_func st' = c2_gen_func st" "c2_gen_func_state st' = c2_gen_func_state st"
      "c2_end st' = c2_end st"
      using collapse_2_step [OF less.prems(1,2) k] by metis
    have kc: "N - (k + c) < N - k" "k + c \<le> N" using s(3,4) k by linarith+
    obtain ts where ts: "collapse_2_run st' = Some (Inr ts)"
      "collapse_2_par_for (c2_gen_func st) (c2_gen_func_state st) (c2_end st) ts = Some (map pt [k + c ..< N])"
      using less.hyps [OF kc(1), of st'] s less.prems(1) kc(2) by auto
    have "[k ..< N] = [k ..< k + c] @ [k + c ..< N]"
      using upt_add_eq_append [of k "k + c" "N - (k + c)"] s(4) k by simp
    then show ?thesis
      using collapse_2_run_some [OF s(1) ts(1)] ts(2) collapse_2_points_walk [OF less.prems(1), of k c] s(4) k
      by simp
  qed
qed

text \<open>
  With a generator function that walks the double loop and the right \<^verbatim>\<open>all_index_count\<close>, the
  collapsed loop runs its body at exactly the points of the double loop, each once and in order;
  both the generator and the macro's loops end and no assertion fails.
\<close>

theorem collapse_2_exact:
  assumes "c2_walks st pt N" "c2_current st = pt 0" "c2_remaining_index st = of_nat N"
    and "c2_process_count st \<noteq> 0"
  shows "\<exists>ts. collapse_2_run st = Some (Inr ts) \<and>
    collapse_2_par_for (c2_gen_func st) (c2_gen_func_state st) (c2_end st) ts = Some (map pt [0 ..< N])"
proof (rule collapse_2_run_walk [OF assms(1)])
  show "at_point st pt 0 (N - 0)" using assms by (simp add: at_point_def walks_def)
qed simp

text \<open>A \<^verbatim>\<open>3 * 2\<close> double loop: the point behind iteration \<open>k\<close> and the function that advances by \<open>n\<close>.\<close>

definition rect_point :: "nat \<Rightarrow> s_p_ij_point" where
  "rect_point k = \<lparr>pt_i = of_nat (k div 2), pt_j = of_nat (k mod 2)\<rparr>"

definition rect_gen :: "unit collapse_2_gss_gen_func" where
  "rect_gen p e n g =
     (let k = 2 * unat (pt_i p) + unat (pt_j p); m = min (unat n) (2 * unat (pt_i e) - k)
      in (rect_point (k + m), of_nat m))"

lemma rect_walks: "walks rect_gen () \<lparr>pt_i = 3, pt_j = 0\<rparr> rect_point 6"
proof -
  have row: "unat (pt_i (rect_point k)) = k div 2" "unat (pt_j (rect_point k)) = k mod 2" if "k \<le> 6" for k
    using that by (auto simp: rect_point_def intro!: unat_of_nat_64)
  have inj: "inj_on rect_point {..6}"
    by (rule inj_onI) (metis row atMost_iff div_mult_mod_eq)
  have ends: "pt_i (rect_point 6) = 3" "\<And>k. k < 6 \<Longrightarrow> pt_i (rect_point k) \<noteq> 3"
  proof -
    show "pt_i (rect_point 6) = 3" by (simp add: rect_point_def)
    fix k :: nat
    assume "k < 6"
    then have "unat (pt_i (rect_point k)) < unat (3 :: u64)" using row(1) [of k] by simp
    then show "pt_i (rect_point k) \<noteq> 3" by auto
  qed
  have gen: "rect_gen (rect_point k) \<lparr>pt_i = 3, pt_j = 0\<rparr> n ()
      = (rect_point (min (k + unat n) 6), of_nat (min (unat n) (6 - k)))" if "k < 6" for k n
  proof -
    have "2 * (k div 2) + k mod 2 = k" by simp
    moreover have "k + min (unat n) (6 - k) = min (k + unat n) 6" using that by simp
    ultimately show ?thesis using row [of k] that by (simp add: rect_gen_def Let_def)
  qed
  show ?thesis using inj ends gen by (simp add: walks_def)
qed

theorem collapse_2_exact_witness:
  "\<exists>ts. collapse_2_run (s_p_new_collapse_2_gss_state (\<lambda>c n. 2 * n) 0 3 0 0 1 6 rect_gen () 1 ()) = Some (Inr ts) \<and>
     collapse_2_par_for rect_gen () \<lparr>pt_i = 3, pt_j = 0\<rparr> ts = Some (map rect_point [0 ..< 6])"
proof -
  let ?st = "s_p_new_collapse_2_gss_state (\<lambda>c n. 2 * n) 0 3 0 0 1 6 rect_gen () 1 ()"
  have "c2_current ?st = rect_point 0" "c2_remaining_index ?st = of_nat 6" "c2_process_count ?st \<noteq> 0"
    by (simp_all add: s_p_new_collapse_2_gss_state_def rect_point_def)
  moreover have "c2_walks ?st rect_point 6"
    using rect_walks by (simp add: s_p_new_collapse_2_gss_state_def)
  ultimately show ?thesis
    using collapse_2_exact [of ?st rect_point 6] by (simp add: s_p_new_collapse_2_gss_state_def)
qed

end
