(* ===== verification/Protocol.thy ===== *)
theory Protocol
  imports Main
begin

text \<open>
  Transition systems with labelled steps, for protocols between ranks. A step labelled \<open>True\<close> does
  work, a step labelled \<open>False\<close> is a busy wait that found nothing. The locale \<open>transition_invariant\<close> is
  the contract of a system with an invariant, and \<open>protocol\<close> extends it by what a protocol that ends
  meets: a measure that work decreases and waiting keeps, and
  work always being at most a few waits away. Its lemmas are what every such protocol has: its
  reachable states satisfy the invariant, no run does more work than the measure allows, and a
  final state can always be reached.
\<close>

inductive run :: "('s \<Rightarrow> bool \<Rightarrow> 's \<Rightarrow> bool) \<Rightarrow> 's \<Rightarrow> nat \<Rightarrow> 's \<Rightarrow> bool" for step where
  run_here: "run step s 0 s"
| run_work: "run step s w t \<Longrightarrow> step t True u \<Longrightarrow> run step s (Suc w) u"
| run_wait: "run step s w t \<Longrightarrow> step t False u \<Longrightarrow> run step s w u"

abbreviation reachable :: "('s \<Rightarrow> bool \<Rightarrow> 's \<Rightarrow> bool) \<Rightarrow> 's \<Rightarrow> 's \<Rightarrow> bool" where
  "reachable step s t \<equiv> \<exists>w. run step s w t"

lemma run_trans:
  assumes "run step t v u" "run step s w t"
  shows "run step s (w + v) u"
  using assms by (induction rule: run.induct) (auto intro: run.intros)

lemma run_lift:
  assumes "run step s w t" "\<And>s b t. step s b t \<Longrightarrow> step' s b t"
  shows "run step' s w t"
  using assms(1) by (induction rule: run.induct) (auto intro: run.intros assms(2))

lemma run_step: "run step s w t \<Longrightarrow> step t b u \<Longrightarrow> run step s (w + (if b then 1 else 0)) u"
  by (cases b) (auto intro: run.intros)

lemma reachable_step: "reachable step s t \<Longrightarrow> step t b u \<Longrightarrow> reachable step s u"
  using run_step by metis

lemma reachable_trans: "reachable step s t \<Longrightarrow> reachable step t u \<Longrightarrow> reachable step s u"
  by (elim exE) (rule exI, erule (1) run_trans)

lemma run_starts: "run step s w t \<Longrightarrow> s \<noteq> t \<Longrightarrow> \<exists>b u. step s b u"
  by (induction rule: run.induct) metis+

locale transition_invariant =
  fixes init :: "'s \<Rightarrow> bool"
    and step :: "'s \<Rightarrow> bool \<Rightarrow> 's \<Rightarrow> bool"
    and inv :: "'s \<Rightarrow> bool"
  assumes init_inv: "init s \<Longrightarrow> inv s"
    and step_inv: "inv s \<Longrightarrow> step s b t \<Longrightarrow> inv t"
begin

lemma run_inv: "run step s w t \<Longrightarrow> inv s \<Longrightarrow> inv t"
  by (induction rule: run.induct) (auto intro: step_inv)

lemma reachable_inv: "init s \<Longrightarrow> reachable step s t \<Longrightarrow> inv t"
  using run_inv init_inv by blast

end

locale protocol = transition_invariant init step inv
  for init :: "'s \<Rightarrow> bool"
    and step :: "'s \<Rightarrow> bool \<Rightarrow> 's \<Rightarrow> bool"
    and inv :: "'s \<Rightarrow> bool" +
  fixes final :: "'s \<Rightarrow> bool"
    and work_left :: "'s \<Rightarrow> nat"
  assumes work_less: "inv s \<Longrightarrow> step s True t \<Longrightarrow> work_left t < work_left s"
    and wait_same: "inv s \<Longrightarrow> step s False t \<Longrightarrow> work_left t = work_left s"
    and progress: "inv s \<Longrightarrow> \<not> final s \<Longrightarrow> \<exists>t u. run step s 0 t \<and> step t True u"
begin

lemma run_work_left:
  assumes "run step s w t" "inv s"
  shows "w + work_left t \<le> work_left s"
  using assms
proof (induction rule: run.induct)
  case (run_work s w t u)
  then have "work_left u < work_left t" using run_inv work_less by blast
  then show ?case using run_work by simp
next
  case (run_wait s w t u)
  then have "work_left u = work_left t" using run_inv wait_same by blast
  then show ?case using run_wait by simp
qed simp

lemma work_bounded: "init s \<Longrightarrow> run step s w t \<Longrightarrow> w \<le> work_left s"
  using run_work_left init_inv by fastforce

lemma inv_can_finish: "inv s \<Longrightarrow> \<exists>t. reachable step s t \<and> final t"
proof (induction "work_left s" arbitrary: s rule: less_induct)
  case less
  show ?case
  proof (cases "final s")
    case True
    then show ?thesis using run_here by fast
  next
    case False
    obtain t u where u: "run step s 0 t" "step t True u" using progress less.prems False by blast
    have r: "run step s (Suc 0) u" using u by (rule run_work)
    moreover have "work_left u < work_left s" using run_work_left [OF r less.prems] by simp
    moreover have "inv u" using run_inv [OF r less.prems] .
    ultimately show ?thesis using less.hyps run_trans by metis
  qed
qed

lemma can_finish: "init s \<Longrightarrow> reachable step s t \<Longrightarrow> \<exists>u. reachable step t u \<and> final u"
  using inv_can_finish reachable_inv by blast

lemma stuck_final: "init s \<Longrightarrow> reachable step s t \<Longrightarrow> (\<And>b u. \<not> step t b u) \<Longrightarrow> final t"
proof (rule ccontr)
  assume a: "init s" "reachable step s t" "\<And>b u. \<not> step t b u" "\<not> final t"
  obtain x u where "run step t 0 x" "step x True u" using progress reachable_inv a by blast
  then show False using a(3) run_starts [of step t 0 x] by metis
qed

end

end
