(* ===== verification/Dynamic_Schedule.thy ===== *)
theory Dynamic_Schedule
  imports Protocol "HOL-Library.Multiset"
begin

text \<open>
  The dynamic scheduler of \<^verbatim>\<open>dynamic_schedule.h\<close>: rank 0 walks a range and hands its values to the
  other ranks on request, and to its own user in between. Every rank runs its handler as a small
  state machine whose steps are the MPI calls of the source; the ranks' steps interleave freely.

  MPI is modelled by one channel in each direction between the root and every other rank. A message
  is first in transit; it becomes visible to \<^verbatim>\<open>iprobe\<close> when it is delivered, at any later time, in the
  order of sending (the source relies on that order: it concludes from a visible \<^verbatim>\<open>val_gen_done\<close> that
  all values are visible). A receive takes the first visible message of its tag. The all-gather and
  the barrier of the constructors are behind the initial state. The handles of the non-blocking sends
  (\<^verbatim>\<open>m_requests\<close>) are added in \<open>Request_Rings\<close>.
\<close>

section \<open>Messages and states\<close>

text \<open>\<^verbatim>\<open>enum mpi_tag\<close>, split by direction.\<close>

datatype 'v down_msg = Server_send_val 'v | Val_gen_done
datatype up_msg = Client_request_val | Client_finished

record 'm chan =
  inbox :: "'m list"
  transit :: "'m list"

definition isend :: "'m chan \<Rightarrow> 'm \<Rightarrow> 'm chan" where
  "isend ch m = ch\<lparr>transit := transit ch @ [m]\<rparr>"

definition chan_all :: "'m chan \<Rightarrow> 'm list" where
  "chan_all ch = inbox ch @ transit ch"

definition iprobe :: "'m chan \<Rightarrow> ('m \<Rightarrow> bool) \<Rightarrow> bool" where
  "iprobe ch tag = list_ex tag (inbox ch)"

fun take_first :: "('m \<Rightarrow> bool) \<Rightarrow> 'm list \<Rightarrow> ('m \<times> 'm list) option" where
  "take_first tag [] = None"
| "take_first tag (m # ms) =
     (if tag m then Some (m, ms) else map_option (\<lambda>r. (fst r, m # snd r)) (take_first tag ms))"

definition recv :: "'m chan \<Rightarrow> ('m \<Rightarrow> bool) \<Rightarrow> ('m \<times> 'm chan) option" where
  "recv ch tag = map_option (\<lambda>r. (fst r, ch\<lparr>inbox := snd r\<rparr>)) (take_first tag (inbox ch))"

definition is_val :: "'v down_msg \<Rightarrow> bool" where
  "is_val m = (case m of Server_send_val v \<Rightarrow> True | Val_gen_done \<Rightarrow> False)"

definition is_gen_done :: "'v down_msg \<Rightarrow> bool" where
  "is_gen_done m = (case m of Server_send_val v \<Rightarrow> False | Val_gen_done \<Rightarrow> True)"

text \<open>
  Where \<^verbatim>\<open>server_handler\<close> stands. \<open>Srv_first q\<close> still has the sends \<open>q\<close> of the first round to do,
  \<open>Srv_handle\<close> is the head of the loop of \<^verbatim>\<open>handle_client_request\<close>, in \<open>Srv_user\<close> the user of rank 0
  works on the current value, the others are the loops of \<^verbatim>\<open>finish_cleanup\<close>.
\<close>

datatype 'v server_pc =
  Srv_first "(nat \<times> 'v) list"
| Srv_handle
| Srv_user
| Srv_send_done nat
| Srv_wait_finished nat
| Srv_drain
| Srv_done

text \<open>
  Where \<^verbatim>\<open>client_handler\<close> stands: \<open>Cl_while\<close> and \<open>Cl_gen\<close> are the two tests of the waiting loop of
  \<^verbatim>\<open>next\<close>, \<open>Cl_recheck\<close> the second test for a value, \<open>Cl_recv\<close> the receive behind the loop,
  in \<open>Cl_user\<close> the user works on \<^verbatim>\<open>m_value\<close>, and \<open>Cl_done\<close> is \<^verbatim>\<open>m_totally_finished\<close>.
\<close>

datatype client_pc = Cl_while | Cl_gen | Cl_recheck | Cl_recv | Cl_user | Cl_done

record 'v client =
  cl_pc :: client_pc
  m_leader_gen_finished :: bool
  got :: "'v list"

record 'v sched =
  srv_pc :: "'v server_pc"
  srv_left :: "'v list"
  srv_used :: "'v list"
  clients :: "nat \<Rightarrow> 'v client"
  down :: "nat \<Rightarrow> 'v down_msg chan"
  up :: "nat \<Rightarrow> up_msg chan"

section \<open>The first round\<close>

text \<open>
  \<^verbatim>\<open>first_time_handle_client_request\<close>: \<open>first_pass\<close> is the \<^verbatim>\<open>for\<close> loop from rank \<open>i\<close> on; it returns the
  sends, the buffer sizes, the values left and whether it returned from the function.
\<close>

function first_pass ::
  "nat \<Rightarrow> nat \<Rightarrow> nat list \<Rightarrow> 'v list \<Rightarrow> (nat \<times> 'v) list \<times> nat list \<times> 'v list \<times> bool" where
  "first_pass n i sizes vs =
     (if i < n then
        if i = 0 then first_pass n (Suc i) sizes vs
        else if sizes ! i = 0 then first_pass n (Suc i) sizes vs
        else (case vs of
            [] \<Rightarrow> ([], sizes, [], True)
          | v # vs' \<Rightarrow>
              (let r = first_pass n (Suc i) (sizes[i := sizes ! i - 1]) vs'
               in ((i, v) # fst r, snd r)))
      else ([], sizes, vs, False))"
  by pat_completeness auto
termination by (relation "measure (\<lambda>(n, i, sizes, vs). n - i)") auto

declare first_pass.simps [simp del]

text \<open>The \<^verbatim>\<open>while\<close> loop around it. It runs forever if the root's own buffer size is not 0.\<close>

partial_function (option) first_time_handle_client_request ::
  "nat \<Rightarrow> nat list \<Rightarrow> 'v list \<Rightarrow> ((nat \<times> 'v) list \<times> 'v list) option" where
  "first_time_handle_client_request n sizes vs =
     (if list_all (\<lambda>b. b = 0) sizes then Some ([], vs)
      else (case first_pass n 0 sizes vs of (sends, sizes', vs', returned) \<Rightarrow>
        if returned then Some (sends, vs')
        else Option.bind (first_time_handle_client_request n sizes' vs')
               (\<lambda>r. Some (sends @ fst r, snd r))))"

text \<open>What the first round is for: in each round \<open>k\<close> every rank with more than \<open>k\<close> requests gets one value.\<close>

definition round_ranks :: "nat \<Rightarrow> nat list \<Rightarrow> nat \<Rightarrow> nat list" where
  "round_ranks n sizes k = filter (\<lambda>i. 0 < i \<and> k < sizes ! i) [0 ..< n]"

definition round_robin :: "nat \<Rightarrow> nat list \<Rightarrow> nat list" where
  "round_robin n sizes = concat (map (round_ranks n sizes) [0 ..< Max (set sizes)])"

definition pred_sizes :: "nat \<Rightarrow> nat list \<Rightarrow> nat list" where
  "pred_sizes i sizes = map (\<lambda>j. if i \<le> j \<and> j \<noteq> 0 then sizes ! j - 1 else sizes ! j) [0 ..< length sizes]"

lemma pred_sizes_update:
  "i < length sizes \<Longrightarrow> i \<noteq> 0 \<Longrightarrow> pred_sizes (Suc i) (sizes[i := sizes ! i - 1]) = pred_sizes i sizes"
  by (rule nth_equalityI) (auto simp: pred_sizes_def nth_list_update le_Suc_eq not_less_eq_eq)

lemma pred_sizes_skip:
  "i = 0 \<or> sizes ! i = 0 \<Longrightarrow> pred_sizes (Suc i) sizes = pred_sizes i sizes"
  by (rule nth_equalityI) (auto simp: pred_sizes_def le_Suc_eq not_less_eq_eq intro: le_antisym)

lemma first_pass_eq:
  assumes "length sizes = n" "i \<le> n"
  defines "ds \<equiv> filter (\<lambda>j. 0 < j \<and> 0 < sizes ! j) [i ..< n]"
  shows "\<exists>sizes'. first_pass n i sizes vs = (zip ds vs, sizes', drop (length ds) vs, length vs < length ds)
    \<and> (\<not> length vs < length ds \<longrightarrow> sizes' = pred_sizes i sizes)"
  using assms(1,2) unfolding ds_def
proof (induction n i sizes vs rule: first_pass.induct)
  case (1 n i sizes vs)
  show ?case
  proof (cases "i < n")
    case False
    have "pred_sizes n sizes = sizes"
      by (rule nth_equalityI) (auto simp: pred_sizes_def "1.prems")
    moreover have "i = n" using False "1.prems" by simp
    ultimately show ?thesis by (simp add: first_pass.simps [of n n])
  next
    case i: True
    then have up: "[i ..< n] = i # [Suc i ..< n]" by (rule upt_conv_Cons)
    show ?thesis
    proof (cases "i = 0 \<or> sizes ! i = 0")
      case True
      have eq: "first_pass n i sizes vs = first_pass n (Suc i) sizes vs"
        using True i by (subst first_pass.simps) auto
      have fl: "filter (\<lambda>j. 0 < j \<and> 0 < sizes ! j) [i ..< n] = filter (\<lambda>j. 0 < j \<and> 0 < sizes ! j) [Suc i ..< n]"
        using True up by auto
      show ?thesis
      proof (cases "i = 0")
        case True
        then show ?thesis
          unfolding eq fl using "1.IH"(1) [OF i _ "1.prems"(1)] i pred_sizes_skip [of i sizes] by simp
      next
        case z: False
        then have "sizes ! i = 0" using True by simp
        then show ?thesis
          unfolding eq fl using "1.IH"(2) [OF i z _ "1.prems"(1)] i pred_sizes_skip [of i sizes] by simp
      qed
    next
      case False
      show ?thesis
      proof (cases vs)
        case Nil
        then show ?thesis using False i up by (simp add: first_pass.simps [of n i])
      next
        case (Cons v vs')
        let ?sz = "sizes[i := sizes ! i - 1]"
        have fl: "filter (\<lambda>j. 0 < j \<and> 0 < ?sz ! j) [Suc i ..< n] = filter (\<lambda>j. 0 < j \<and> 0 < sizes ! j) [Suc i ..< n]"
          by (rule filter_cong) auto
        have "\<exists>sizes'. first_pass n (Suc i) ?sz vs' = (zip (filter (\<lambda>j. 0 < j \<and> 0 < sizes ! j) [Suc i ..< n]) vs', sizes',
            drop (length (filter (\<lambda>j. 0 < j \<and> 0 < sizes ! j) [Suc i ..< n])) vs',
            length vs' < length (filter (\<lambda>j. 0 < j \<and> 0 < sizes ! j) [Suc i ..< n]))
          \<and> (\<not> length vs' < length (filter (\<lambda>j. 0 < j \<and> 0 < sizes ! j) [Suc i ..< n]) \<longrightarrow> sizes' = pred_sizes (Suc i) ?sz)"
          using "1.IH"(3) [OF i _ _ Cons] False i "1.prems"(1) unfolding fl by simp
        then show ?thesis
          using False i up Cons "1.prems"(1) pred_sizes_update [of i sizes]
          by (auto simp: first_pass.simps [of n i] Let_def)
      qed
    qed
  qed
qed

lemma round_ranks_Suc:
  assumes "length sizes = n" "sizes ! 0 = 0"
  shows "round_ranks n sizes (Suc k) = round_ranks n (pred_sizes 0 sizes) k"
  unfolding round_ranks_def by (rule filter_cong) (auto simp: pred_sizes_def assms)

lemma zip_take_length: "zip xs (take (length xs) ys) = zip xs ys"
  by (induction xs ys rule: list_induct2') simp_all

lemma first_time_rounds:
  assumes "length sizes = n" "0 < n" "sizes ! 0 = 0" "\<forall>b \<in> set sizes. b \<le> M"
  defines "rr \<equiv> concat (map (round_ranks n sizes) [0 ..< M])"
  shows "first_time_handle_client_request n sizes vs = Some (zip rr vs, drop (length rr) vs)"
  using assms(1-4) unfolding rr_def
proof (induction M arbitrary: sizes vs)
  case 0
  then show ?case by (simp add: first_time_handle_client_request.simps [of n sizes] list_all_iff)
next
  case (Suc M)
  show ?case
  proof (cases "list_all (\<lambda>b. b = 0) sizes")
    case True
    then have "sizes ! i = 0" if "i < n" for i
      using that Suc.prems(1) by (auto simp: list_all_iff)
    then have "round_ranks n sizes k = []" for k by (auto simp: round_ranks_def filter_empty_conv)
    then have "concat (map (round_ranks n sizes) [0 ..< Suc M]) = []" by auto
    moreover have "first_time_handle_client_request n sizes vs = Some ([], vs)"
      using True by (simp add: first_time_handle_client_request.simps [of n sizes])
    ultimately show ?thesis by (simp only: zip_Nil list.size drop_0)
  next
    case False
    let ?ds = "round_ranks n sizes 0" and ?sz = "pred_sizes 0 sizes"
    let ?rr = "concat (map (round_ranks n ?sz) [0 ..< M])"
    have rr: "concat (map (round_ranks n sizes) [0 ..< Suc M]) = ?ds @ ?rr"
      using Suc.prems(1,3)
      by (simp add: upt_conv_Cons map_Suc_upt [symmetric] o_def round_ranks_Suc del: upt_Suc)
    obtain sz where sz: "first_pass n 0 sizes vs = (zip ?ds vs, sz, drop (length ?ds) vs, length vs < length ?ds)"
      "\<not> length vs < length ?ds \<longrightarrow> sz = ?sz"
      using first_pass_eq [of sizes n 0 vs] Suc.prems(1) unfolding round_ranks_def by auto
    have "length ?sz = n" "?sz ! 0 = 0" using Suc.prems(1,2,3) by (simp_all add: pred_sizes_def)
    moreover have "\<forall>b \<in> set ?sz. b \<le> M"
    proof
      fix b
      assume "b \<in> set ?sz"
      then obtain j where j: "j < length sizes" and "b = (if j \<noteq> 0 then sizes ! j - 1 else sizes ! j)"
        unfolding pred_sizes_def by force
      moreover have "sizes ! j \<le> Suc M" using Suc.prems(4) nth_mem [OF j] by blast
      ultimately show "b \<le> M" using Suc.prems(3) by (cases "j = 0") simp_all
    qed
    ultimately have IH: "first_time_handle_client_request n ?sz (drop (length ?ds) vs)
        = Some (zip ?rr (drop (length ?ds) vs), drop (length ?rr) (drop (length ?ds) vs))"
      using Suc.IH [of ?sz] Suc.prems(2) by blast
    show ?thesis
    proof (cases "length vs < length ?ds")
      case True
      have "zip (?ds @ ?rr) vs = zip ?ds vs" using True by (simp add: zip_append1 zip_take_length)
      then show ?thesis
        using sz(1) True False unfolding rr by (simp add: first_time_handle_client_request.simps [of n sizes])
    next
      case notret: False
      have "zip (?ds @ ?rr) vs = zip ?ds vs @ zip ?rr (drop (length ?ds) vs)"
        using notret by (simp add: zip_append1 zip_take_length)
      then show ?thesis
        using sz notret False IH unfolding rr
        by (simp add: first_time_handle_client_request.simps [of n sizes] add.commute)
    qed
  qed
qed

lemma first_time_round_robin:
  assumes "length sizes = n" "0 < n" "sizes ! 0 = 0"
  shows "first_time_handle_client_request n sizes vs
    = Some (zip (round_robin n sizes) vs, drop (length (round_robin n sizes)) vs)"
  unfolding round_robin_def by (rule first_time_rounds) (use assms in auto)

text \<open>
  The first round ends and hands the values out round-robin: in its \<open>k\<close>-th pass each rank that
  asked for more than \<open>k\<close> values gets the next one, until all requests are answered or no value is left.
\<close>

theorem first_round_robin:
  assumes "length sizes = n" "0 < n" "sizes ! 0 = 0"
  shows "first_time_handle_client_request n sizes vs
    = Some (zip (round_robin n sizes) vs, drop (length (round_robin n sizes)) vs)"
  using assms by (rule first_time_round_robin)

theorem first_round_robin_witness:
  "first_time_handle_client_request 3 [0, 2, 3] ''abcdefg''
    = Some ([(1, CHR ''a''), (2, CHR ''b''), (1, CHR ''c''), (2, CHR ''d''), (2, CHR ''e'')], ''fg'')"
proof -
  have m: "Max (set [0, 2, 3 :: nat]) = 3" by simp
  have "round_robin 3 [0, 2, 3] = [1, 2, 1, 2, 2]"
    unfolding round_robin_def m by (simp add: round_ranks_def upt_rec numeral_2_eq_2 numeral_3_eq_3)
  then show ?thesis using first_round_robin [of "[0, 2, 3]" 3 "''abcdefg''"] by simp
qed

section \<open>The server\<close>

definition is_request :: "up_msg \<Rightarrow> bool" where
  "is_request m = (case m of Client_request_val \<Rightarrow> True | Client_finished \<Rightarrow> False)"

definition is_finished :: "up_msg \<Rightarrow> bool" where
  "is_finished m = (case m of Client_request_val \<Rightarrow> False | Client_finished \<Rightarrow> True)"

text \<open>\<^verbatim>\<open>iprobe(any_source, client_request_val)\<close>: whether some rank's request is visible.\<close>

definition iprobe_any :: "nat \<Rightarrow> 'v sched \<Rightarrow> bool" where
  "iprobe_any n s = list_ex (\<lambda>c. iprobe (up s c) is_request) [1 ..< n]"

text \<open>One turn of the loop of \<^verbatim>\<open>handle_client_request\<close>; \<open>c\<close> is the source the probe reports.\<close>

definition handle_client_request :: "nat \<Rightarrow> nat \<Rightarrow> 'v sched \<Rightarrow> 'v sched option" where
  "handle_client_request n c s =
     (case srv_left s of
        [] \<Rightarrow> Some (s\<lparr>srv_pc := Srv_send_done 0\<rparr>)
      | v # vs \<Rightarrow>
          if \<not> iprobe_any n s then Some (s\<lparr>srv_pc := Srv_user\<rparr>)
          else if c \<in> {1 ..< n} then
            map_option (\<lambda>r. s\<lparr>up := (up s)(c := snd r),
                             down := (down s)(c := isend (down s c) (Server_send_val v)),
                             srv_left := vs\<rparr>)
              (recv (up s c) is_request)
          else None)"

text \<open>The three loops of \<^verbatim>\<open>finish_cleanup\<close>, one turn each.\<close>

definition send_gen_done :: "nat \<Rightarrow> nat \<Rightarrow> 'v sched \<Rightarrow> 'v sched" where
  "send_gen_done n i s =
     (if i < n then
        s\<lparr>srv_pc := Srv_send_done (Suc i),
          down := (if i = 0 then down s else (down s)(i := isend (down s i) Val_gen_done))\<rparr>
      else s\<lparr>srv_pc := Srv_wait_finished 0\<rparr>)"

definition wait_finished :: "nat \<Rightarrow> nat \<Rightarrow> 'v sched \<Rightarrow> 'v sched option" where
  "wait_finished n i s =
     (if i < n then
        if i = 0 then Some (s\<lparr>srv_pc := Srv_wait_finished (Suc i)\<rparr>)
        else map_option (\<lambda>r. s\<lparr>srv_pc := Srv_wait_finished (Suc i), up := (up s)(i := snd r)\<rparr>)
               (recv (up s i) is_finished)
      else Some (s\<lparr>srv_pc := Srv_drain\<rparr>))"

definition drain_requests :: "nat \<Rightarrow> nat \<Rightarrow> 'v sched \<Rightarrow> 'v sched option" where
  "drain_requests n c s =
     (if \<not> iprobe_any n s then Some (s\<lparr>srv_pc := Srv_done\<rparr>)
      else if c \<in> {1 ..< n} then
        map_option (\<lambda>r. s\<lparr>up := (up s)(c := snd r)\<rparr>) (recv (up s c) is_request)
      else None)"

text \<open>
  One step of the root. In \<open>Srv_user\<close> the user has consumed \<^verbatim>\<open>*m_iter\<close> and calls \<^verbatim>\<open>next\<close>; \<open>None\<close> is a
  blocked or finished server (or a source whose request is not visible).
\<close>

definition server_step :: "nat \<Rightarrow> nat \<Rightarrow> 'v sched \<Rightarrow> 'v sched option" where
  "server_step n c s =
     (case srv_pc s of
        Srv_first [] \<Rightarrow> Some (s\<lparr>srv_pc := Srv_handle\<rparr>)
      | Srv_first (iv # q) \<Rightarrow>
          Some (s\<lparr>srv_pc := Srv_first q,
                  down := (down s)(fst iv := isend (down s (fst iv)) (Server_send_val (snd iv)))\<rparr>)
      | Srv_handle \<Rightarrow> handle_client_request n c s
      | Srv_user \<Rightarrow>
          (case srv_left s of
             [] \<Rightarrow> None
           | v # vs \<Rightarrow> Some (s\<lparr>srv_pc := Srv_handle, srv_used := srv_used s @ [v], srv_left := vs\<rparr>))
      | Srv_send_done i \<Rightarrow> Some (send_gen_done n i s)
      | Srv_wait_finished i \<Rightarrow> wait_finished n i s
      | Srv_drain \<Rightarrow> drain_requests n c s
      | Srv_done \<Rightarrow> None)"

section \<open>A client\<close>

definition has_val_in_buffer :: "'v down_msg chan \<Rightarrow> bool" where
  "has_val_in_buffer d = iprobe d is_val"

definition leader_gen_finished ::
  "'v client \<Rightarrow> 'v down_msg chan \<Rightarrow> bool \<times> 'v client \<times> 'v down_msg chan" where
  "leader_gen_finished k d =
     (if m_leader_gen_finished k then (True, k, d)
      else (case recv d is_gen_done of
          Some r \<Rightarrow> (True, k\<lparr>m_leader_gen_finished := True\<rparr>, snd r)
        | None \<Rightarrow> (False, k, d)))"

definition value_of :: "'v down_msg \<Rightarrow> 'v list" where
  "value_of m = (case m of Server_send_val v \<Rightarrow> [v] | Val_gen_done \<Rightarrow> [])"

text \<open>
  One step of \<^verbatim>\<open>client_handler::next\<close>; the label is \<open>False\<close> for a test of the waiting loop that
  found nothing.
\<close>

definition client_step ::
  "'v client \<Rightarrow> 'v down_msg chan \<Rightarrow> up_msg chan \<Rightarrow>
   (bool \<times> 'v client \<times> 'v down_msg chan \<times> up_msg chan) option" where
  "client_step k d u =
     (case cl_pc k of
        Cl_while \<Rightarrow>
          if has_val_in_buffer d then Some (True, k\<lparr>cl_pc := Cl_recv\<rparr>, d, u)
          else Some (False, k\<lparr>cl_pc := Cl_gen\<rparr>, d, u)
      | Cl_gen \<Rightarrow>
          (case leader_gen_finished k d of (fin, k', d') \<Rightarrow>
             if fin then Some (True, k'\<lparr>cl_pc := Cl_recheck\<rparr>, d', u)
             else Some (False, k'\<lparr>cl_pc := Cl_while\<rparr>, d', u))
      | Cl_recheck \<Rightarrow>
          if has_val_in_buffer d then Some (True, k\<lparr>cl_pc := Cl_recv\<rparr>, d, u)
          else Some (True, k\<lparr>cl_pc := Cl_done\<rparr>, d, isend u Client_finished)
      | Cl_recv \<Rightarrow>
          map_option (\<lambda>r. (True, k\<lparr>cl_pc := Cl_user, got := got k @ value_of (fst r)\<rparr>, snd r,
                          isend u Client_request_val))
            (recv d is_val)
      | Cl_user \<Rightarrow> Some (True, k\<lparr>cl_pc := Cl_while\<rparr>, d, u)
      | Cl_done \<Rightarrow> None)"

section \<open>All ranks together\<close>

inductive sched_step :: "nat \<Rightarrow> 'v sched \<Rightarrow> bool \<Rightarrow> 'v sched \<Rightarrow> bool" for n where
  sched_server: "server_step n c s = Some t \<Longrightarrow> sched_step n s True t"
| sched_client: "c \<in> {1 ..< n} \<Longrightarrow> client_step (clients s c) (down s c) (up s c) = Some (b, k, d, u) \<Longrightarrow>
    sched_step n s b (s\<lparr>clients := (clients s)(c := k), down := (down s)(c := d), up := (up s)(c := u)\<rparr>)"
| sched_deliver_down: "c \<in> {1 ..< n} \<Longrightarrow> down s c = \<lparr>inbox = ms, transit = m # ts\<rparr> \<Longrightarrow>
    sched_step n s True (s\<lparr>down := (down s)(c := \<lparr>inbox = ms @ [m], transit = ts\<rparr>)\<rparr>)"
| sched_deliver_up: "c \<in> {1 ..< n} \<Longrightarrow> up s c = \<lparr>inbox = us, transit = m # ts\<rparr> \<Longrightarrow>
    sched_step n s True (s\<lparr>up := (up s)(c := \<lparr>inbox = us @ [m], transit = ts\<rparr>)\<rparr>)"

text \<open>
  The state behind the barrier: every client has sent as many requests as its buffer is large and
  the root is about to serve the first round. \<open>sizes\<close> is what the all-gather returned.
\<close>

definition sched_start :: "nat \<Rightarrow> nat list \<Rightarrow> 'v list \<Rightarrow> 'v sched option" where
  "sched_start n sizes vs =
     map_option (\<lambda>r. \<lparr>srv_pc = Srv_first (fst r), srv_left = snd r, srv_used = [],
         clients = (\<lambda>c. \<lparr>cl_pc = Cl_while, m_leader_gen_finished = False, got = []\<rparr>),
         down = (\<lambda>c. \<lparr>inbox = [], transit = []\<rparr>),
         up = (\<lambda>c. \<lparr>inbox = [], transit = replicate (sizes ! c) Client_request_val\<rparr>)\<rparr>)
       (first_time_handle_client_request n sizes vs)"

end
