(* ===== verification/Schedule_Proofs.thy ===== *)
theory Schedule_Proofs
  imports Dynamic_Schedule "HOL-Library.Sublist"
begin

text \<open>
  The proof that the dynamic scheduler hands every value of the range to exactly one rank, in order,
  that it never deadlocks and that it ends with no message left, for every interleaving.
\<close>

section \<open>Channels\<close>

lemma take_first_Some:
  "take_first P ms = Some (m, ms') \<Longrightarrow>
   \<exists>xs ys. ms = xs @ m # ys \<and> ms' = xs @ ys \<and> P m \<and> (\<forall>x \<in> set xs. \<not> P x)"
proof (induction ms arbitrary: ms')
  case (Cons a ms)
  show ?case
  proof (cases "P a")
    case True
    then show ?thesis using Cons.prems by (intro exI [of _ "[]"] exI [of _ ms]) simp
  next
    case False
    then obtain ns where ns: "take_first P ms = Some (m, ns)" "ms' = a # ns" using Cons.prems by auto
    obtain xs ys where "ms = xs @ m # ys" "ns = xs @ ys" "P m" "\<forall>x \<in> set xs. \<not> P x"
      using Cons.IH [OF ns(1)] by blast
    then show ?thesis using False ns(2) by (intro exI [of _ "a # xs"] exI [of _ ys]) simp
  qed
qed simp

lemma take_first_None: "take_first P ms = None \<longleftrightarrow> \<not> list_ex P ms"
  by (induction ms) auto

lemma recv_Some:
  assumes "recv ch P = Some (m, ch')"
  obtains xs ys where "inbox ch = xs @ m # ys" "inbox ch' = xs @ ys" "transit ch' = transit ch"
    "P m" "\<forall>x \<in> set xs. \<not> P x"
proof -
  obtain ms' where ms': "take_first P (inbox ch) = Some (m, ms')" "ch' = ch\<lparr>inbox := ms'\<rparr>"
    using assms by (auto simp: recv_def)
  obtain xs ys where "inbox ch = xs @ m # ys" "ms' = xs @ ys" "P m" "\<forall>x \<in> set xs. \<not> P x"
    using take_first_Some [OF ms'(1)] by blast
  then show ?thesis using that ms'(2) by simp
qed

lemma recv_None: "recv ch P = None \<longleftrightarrow> \<not> iprobe ch P"
  by (simp add: recv_def iprobe_def take_first_None)

fun vals :: "'v down_msg list \<Rightarrow> 'v list" where
  "vals [] = []"
| "vals (m # ms) = value_of m @ vals ms"

lemma vals_append [simp]: "vals (xs @ ys) = vals xs @ vals ys"
  by (induction xs) simp_all

lemma vals_no_val: "\<forall>m \<in> set ms. \<not> is_val m \<Longrightarrow> vals ms = []"
  by (induction ms) (auto simp: is_val_def value_of_def split: down_msg.splits)

lemma vals_gen_done: "is_gen_done m \<Longrightarrow> value_of m = []"
  by (simp add: is_gen_done_def value_of_def split: down_msg.splits)

lemma chan_all_isend [simp]: "chan_all (isend ch m) = chan_all ch @ [m]"
  by (simp add: chan_all_def isend_def)

lemma inbox_isend [simp]: "inbox (isend ch m) = inbox ch"
  by (simp add: isend_def)

lemma chan_all_deliver: "chan_all \<lparr>inbox = ms @ [m], transit = ts\<rparr> = chan_all \<lparr>inbox = ms, transit = m # ts\<rparr>"
  by (simp add: chan_all_def)

section \<open>The invariant\<close>

text \<open>Which ranks have been sent \<^verbatim>\<open>val_gen_done\<close>, and whose \<^verbatim>\<open>client_finished\<close> the root has received.\<close>

fun gen_done_sent :: "'v server_pc \<Rightarrow> nat \<Rightarrow> bool" where
  "gen_done_sent (Srv_send_done i) c = (c < i)"
| "gen_done_sent (Srv_wait_finished i) c = True"
| "gen_done_sent Srv_drain c = True"
| "gen_done_sent Srv_done c = True"
| "gen_done_sent _ c = False"

fun fin_received :: "'v server_pc \<Rightarrow> nat \<Rightarrow> bool" where
  "fin_received (Srv_wait_finished i) c = (c < i)"
| "fin_received Srv_drain c = True"
| "fin_received Srv_done c = True"
| "fin_received _ c = False"

text \<open>
  What holds of one rank: its queue from the root is values, then at most one \<^verbatim>\<open>val_gen_done\<close>; its
  queue to the root is requests, then \<^verbatim>\<open>client_finished\<close> once it is done. \<open>g\<close> and \<open>f\<close> say whether the
  root has sent the one and received the other.
\<close>

definition end_mark :: "'m \<Rightarrow> bool \<Rightarrow> 'm list" where
  "end_mark m b = (if b then [m] else [])"

lemma end_mark_simps [simp]: "end_mark m True = [m]" "end_mark m False = []"
  by (simp_all add: end_mark_def)

definition down_ok :: "bool \<Rightarrow> 'v client \<Rightarrow> 'v down_msg chan \<Rightarrow> bool" where
  "down_ok g k d \<longleftrightarrow>
     (\<exists>vs. chan_all d = map Server_send_val vs @ end_mark Val_gen_done (g \<and> \<not> m_leader_gen_finished k)) \<and>
     (m_leader_gen_finished k \<longrightarrow> g \<and> transit d = [])"

definition up_ok :: "bool \<Rightarrow> 'v client \<Rightarrow> up_msg chan \<Rightarrow> bool" where
  "up_ok f k u \<longleftrightarrow>
     (\<exists>r. chan_all u = replicate r Client_request_val @ end_mark Client_finished (cl_pc k = Cl_done \<and> \<not> f)) \<and>
     (f \<longrightarrow> cl_pc k = Cl_done \<and> transit u = [])"

definition pc_ok :: "'v client \<Rightarrow> 'v down_msg chan \<Rightarrow> bool" where
  "pc_ok k d \<longleftrightarrow>
     (cl_pc k \<in> {Cl_recheck, Cl_done} \<longrightarrow> m_leader_gen_finished k) \<and>
     (cl_pc k = Cl_done \<longrightarrow> inbox d = []) \<and>
     (cl_pc k = Cl_recv \<longrightarrow> has_val_in_buffer d)"

definition rank_ok :: "bool \<Rightarrow> bool \<Rightarrow> 'v client \<Rightarrow> 'v down_msg chan \<Rightarrow> up_msg chan \<Rightarrow> bool" where
  "rank_ok g f k d u \<longleftrightarrow> down_ok g k d \<and> up_ok f k u \<and> pc_ok k d"

lemmas rank_defs = rank_ok_def down_ok_def up_ok_def pc_ok_def

text \<open>The values a rank has got and those on their way to it.\<close>

definition received :: "'v client \<Rightarrow> 'v down_msg chan \<Rightarrow> 'v list" where
  "received k d = got k @ vals (chan_all d)"

lemma tag_simps [simp]:
  "is_val (Server_send_val v)" "\<not> is_val Val_gen_done" "is_gen_done Val_gen_done"
  "\<not> is_gen_done (Server_send_val v)" "is_request Client_request_val" "\<not> is_request Client_finished"
  "is_finished Client_finished" "\<not> is_finished Client_request_val"
  by (simp_all add: is_val_def is_gen_done_def is_request_def is_finished_def)

lemma tag_exclusive: "is_gen_done m \<Longrightarrow> \<not> is_val m" "is_finished u \<Longrightarrow> \<not> is_request u"
  by (cases m; simp) (cases u; simp)

text \<open>A queue of messages of one kind with at most one end mark of another kind behind them.\<close>

lemma queue_first:
  assumes "xs @ m # ys = zs @ end_mark e b" "P m" "\<forall>x \<in> set xs. \<not> P x" "\<forall>z \<in> set zs. P z" "\<not> P e"
  shows "xs = [] \<and> (\<exists>ws. zs = m # ws \<and> ys = ws @ end_mark e b)"
proof (cases zs)
  case Nil
  then have "m = e" using assms(1) by (cases b) (auto simp: append_eq_Cons_conv)
  then show ?thesis using assms(2,5) by simp
next
  case (Cons z ws)
  then have "xs = []" using assms(1,3,4) by (cases xs) auto
  then show ?thesis using assms(1) Cons by simp
qed

lemma queue_last:
  assumes "xs @ m # ys = zs @ end_mark e b" "\<not> P m" "\<forall>z \<in> set zs. P z"
  shows "b \<and> m = e \<and> ys = [] \<and> xs = zs"
proof -
  have nin: "m \<notin> set zs" using assms(2,3) by blast
  have "b"
    using arg_cong [OF assms(1), of set] nin by (cases b) auto
  then show ?thesis using assms(1) nin
  proof (cases ys rule: rev_cases)
    case (snoc us u)
    then have "xs @ m # us = zs" using assms(1) \<open>b\<close> by simp
    then show ?thesis using nin by auto
  qed simp
qed

section \<open>Steps of a client\<close>

lemma recv_val:
  assumes "down_ok g k d" "recv d is_val = Some (m, d')"
  shows "down_ok g k d' \<and> vals (chan_all d) = value_of m @ vals (chan_all d') \<and> is_val m"
proof -
  obtain xs ys where x: "inbox d = xs @ m # ys" "inbox d' = xs @ ys" "transit d' = transit d"
    "is_val m" "\<forall>x \<in> set xs. \<not> is_val x"
    using recv_Some [OF assms(2)] by blast
  obtain vs where vs: "chan_all d = map Server_send_val vs @ end_mark Val_gen_done (g \<and> \<not> m_leader_gen_finished k)"
    using assms(1) by (auto simp: down_ok_def)
  have all: "chan_all d = xs @ m # (ys @ transit d)" using x(1) by (simp add: chan_all_def)
  obtain ws where w: "xs = []" "map Server_send_val vs = m # ws"
    "ys @ transit d = ws @ end_mark Val_gen_done (g \<and> \<not> m_leader_gen_finished k)"
    using queue_first [OF trans [OF all [symmetric] vs] x(4,5)] by auto
  obtain us where "ws = map Server_send_val us" using w(2) by auto
  then have "chan_all d' = map Server_send_val us @ end_mark Val_gen_done (g \<and> \<not> m_leader_gen_finished k)"
    using w x(2,3) by (simp add: chan_all_def)
  moreover have "vals (chan_all d) = value_of m @ vals (chan_all d')"
    using x(2,3) w(1) unfolding all by (simp add: chan_all_def)
  ultimately show ?thesis using assms(1) x(3,4) by (auto simp: down_ok_def)
qed

lemma recv_gen_done:
  assumes "down_ok g k d" "\<not> m_leader_gen_finished k" "recv d is_gen_done = Some (m, d')"
  shows "down_ok g (k\<lparr>m_leader_gen_finished := True\<rparr>) d' \<and> vals (chan_all d') = vals (chan_all d)"
proof -
  obtain xs ys where x: "inbox d = xs @ m # ys" "inbox d' = xs @ ys" "transit d' = transit d" "is_gen_done m"
    using recv_Some [OF assms(3)] by blast
  obtain vs where vs: "chan_all d = map Server_send_val vs @ end_mark Val_gen_done g"
    using assms(1,2) by (auto simp: down_ok_def)
  have all: "chan_all d = xs @ m # (ys @ transit d)" using x(1) by (simp add: chan_all_def)
  have e: "g" "ys @ transit d = []" "xs = map Server_send_val vs"
    using queue_last [where P = is_val, OF trans [OF all [symmetric] vs] tag_exclusive(1) [OF x(4)]] by auto
  have "chan_all d' = map Server_send_val vs" using e x(2,3) by (simp add: chan_all_def)
  moreover have "vals (chan_all d') = vals (chan_all d)"
    using all e x(2-4) by (simp add: chan_all_def vals_gen_done)
  ultimately show ?thesis using e x(3) by (auto simp: down_ok_def)
qed

text \<open>The same two facts for the queue to the root.\<close>

lemma recv_request:
  assumes "up_ok f k u" "recv u is_request = Some (m, u')"
  shows "up_ok f k u'"
proof -
  obtain xs ys where x: "inbox u = xs @ m # ys" "inbox u' = xs @ ys" "transit u' = transit u"
    "is_request m" "\<forall>x \<in> set xs. \<not> is_request x"
    using recv_Some [OF assms(2)] by blast
  obtain r where r: "chan_all u = replicate r Client_request_val @ end_mark Client_finished (cl_pc k = Cl_done \<and> \<not> f)"
    using assms(1) by (auto simp: up_ok_def)
  have all: "xs @ m # (ys @ transit u) = chan_all u" using x(1) by (simp add: chan_all_def)
  obtain ws where w: "xs = []" "replicate r Client_request_val = m # ws"
    "ys @ transit u = ws @ end_mark Client_finished (cl_pc k = Cl_done \<and> \<not> f)"
    using queue_first [OF trans [OF all r] x(4,5)] by auto
  have "ws = replicate (r - 1) Client_request_val" using w(2) by (cases r) auto
  then have "chan_all u' = replicate (r - 1) Client_request_val @ end_mark Client_finished (cl_pc k = Cl_done \<and> \<not> f)"
    using w x(2,3) by (simp add: chan_all_def)
  then show ?thesis using assms(1) x(3) by (auto simp: up_ok_def)
qed

lemma recv_finished:
  assumes "up_ok False k u" "recv u is_finished = Some (m, u')"
  shows "up_ok True k u'"
proof -
  obtain xs ys where x: "inbox u = xs @ m # ys" "inbox u' = xs @ ys" "transit u' = transit u" "is_finished m"
    using recv_Some [OF assms(2)] by blast
  obtain r where r: "chan_all u = replicate r Client_request_val @ end_mark Client_finished (cl_pc k = Cl_done)"
    using assms(1) by (auto simp: up_ok_def)
  have all: "xs @ m # (ys @ transit u) = chan_all u" using x(1) by (simp add: chan_all_def)
  have "cl_pc k = Cl_done" "ys @ transit u = []" "xs = replicate r Client_request_val"
    using queue_last [where P = is_request, OF trans [OF all r] tag_exclusive(2) [OF x(4)]] by auto
  then show ?thesis using x(2,3) by (auto simp: up_ok_def chan_all_def)
qed

lemma isend_replicate:
  "chan_all u = replicate r m \<Longrightarrow> \<exists>r. chan_all (isend u m) = replicate r m"
  by (rule exI [of _ "Suc r"]) (simp add: replicate_append_same)

lemma gen_finished_ok:
  assumes "down_ok g k d" "leader_gen_finished k d = (fin, k', d')"
  shows "down_ok g k' d' \<and> received k' d' = received k d \<and> cl_pc k' = cl_pc k \<and>
    (fin \<longrightarrow> m_leader_gen_finished k') \<and> (\<not> fin \<longrightarrow> k' = k \<and> d' = d)"
proof (cases "m_leader_gen_finished k")
  case True
  then show ?thesis using assms by (auto simp: leader_gen_finished_def)
next
  case False
  show ?thesis
  proof (cases "recv d is_gen_done")
    case None
    then show ?thesis using False assms by (auto simp: leader_gen_finished_def)
  next
    case (Some r)
    then have "recv d is_gen_done = Some (fst r, d')" "k' = k\<lparr>m_leader_gen_finished := True\<rparr>" fin
      using False assms(2) by (auto simp: leader_gen_finished_def)
    then show ?thesis using recv_gen_done [OF assms(1) False] by (auto simp: received_def)
  qed
qed

lemma client_step_ok:
  assumes "rank_ok g f k d u" "client_step k d u = Some (b, k', d', u')"
  shows "rank_ok g f k' d' u' \<and> received k' d' = received k d"
proof (cases "cl_pc k")
  case Cl_while
  then show ?thesis using assms by (auto simp: client_step_def rank_defs received_def split: if_splits)
next
  case Cl_gen
  obtain fin k1 d1 where l: "leader_gen_finished k d = (fin, k1, d1)" by (metis prod_cases3)
  have "down_ok g k1 d1" "received k1 d1 = received k d" "fin \<longrightarrow> m_leader_gen_finished k1"
    using gen_finished_ok [OF _ l, of g] assms(1) by (auto simp: rank_ok_def)
  moreover have "k' = k1\<lparr>cl_pc := (if fin then Cl_recheck else Cl_while)\<rparr>" "d' = d1" "u' = u"
    using assms(2) Cl_gen l by (auto simp: client_step_def split: if_splits)
  ultimately show ?thesis using assms(1) Cl_gen by (auto simp: rank_defs received_def)
next
  case Cl_recheck
  show ?thesis
  proof (cases "has_val_in_buffer d")
    case True
    then show ?thesis using assms Cl_recheck by (auto simp: client_step_def rank_defs received_def)
  next
    case False
    have fin: "m_leader_gen_finished k" "transit d = []" using assms(1) Cl_recheck by (auto simp: rank_defs)
    obtain vs where "chan_all d = map Server_send_val vs" using assms(1) fin by (auto simp: rank_defs)
    then have "inbox d = map Server_send_val vs" using fin by (simp add: chan_all_def)
    then have "vs = []" using False
      by (cases vs) (auto simp: has_val_in_buffer_def iprobe_def is_val_def)
    then have "inbox d = []" using \<open>inbox d = map Server_send_val vs\<close> by simp
    then show ?thesis using assms Cl_recheck fin False by (auto simp: client_step_def rank_defs received_def)
  qed
next
  case Cl_recv
  then obtain m where r: "recv d is_val = Some (m, d')" and k': "k' = k\<lparr>cl_pc := Cl_user, got := got k @ value_of m\<rparr>"
    and u': "u' = isend u Client_request_val"
    using assms(2) by (auto simp: client_step_def)
  have d: "down_ok g k d'" "vals (chan_all d) = value_of m @ vals (chan_all d')"
    using recv_val [OF _ r, of g k] assms(1) by (auto simp: rank_ok_def)
  obtain r where "chan_all u = replicate r Client_request_val" "\<not> f"
    using assms(1) Cl_recv by (auto simp: rank_defs)
  then have "up_ok f k' u'" using isend_replicate [of u r] by (auto simp: up_ok_def k' u' simp del: chan_all_isend)
  moreover have "received k' d' = received k d" using d(2) by (simp add: received_def k')
  ultimately show ?thesis using d(1) by (auto simp: rank_ok_def down_ok_def pc_ok_def k')
next
  case Cl_user
  then show ?thesis using assms by (auto simp: client_step_def rank_defs received_def)
next
  case Cl_done
  then show ?thesis using assms by (simp add: client_step_def)
qed

section \<open>The invariant of all ranks\<close>

fun pending :: "'v server_pc \<Rightarrow> nat \<Rightarrow> 'v list" where
  "pending (Srv_first q) c = map snd (filter (\<lambda>x. fst x = c) q)"
| "pending _ c = []"

text \<open>All values handed to rank \<open>c\<close>: received, on their way, or about to be sent in the first round.\<close>

definition assigned :: "'v sched \<Rightarrow> nat \<Rightarrow> 'v list" where
  "assigned s c = received (clients s c) (down s c) @ pending (srv_pc s) c"

definition ranks_ok :: "nat \<Rightarrow> 'v sched \<Rightarrow> bool" where
  "ranks_ok n s \<longleftrightarrow> (\<forall>c \<in> {1 ..< n}.
     rank_ok (gen_done_sent (srv_pc s) c) (fin_received (srv_pc s) c) (clients s c) (down s c) (up s c))"

definition root_ok :: "nat \<Rightarrow> 'v sched \<Rightarrow> bool" where
  "root_ok n s \<longleftrightarrow>
     (case srv_pc s of
        Srv_first q \<Rightarrow> fst ` set q \<subseteq> {1 ..< n}
      | Srv_handle \<Rightarrow> True
      | Srv_user \<Rightarrow> srv_left s \<noteq> []
      | Srv_send_done i \<Rightarrow> srv_left s = [] \<and> i \<le> n
      | Srv_wait_finished i \<Rightarrow> srv_left s = [] \<and> i \<le> n
      | Srv_drain \<Rightarrow> srv_left s = []
      | Srv_done \<Rightarrow> srv_left s = [] \<and> (\<forall>c \<in> {1 ..< n}. chan_all (up s c) = []))"

text \<open>
  The values walked so far are those the root has used and those handed to the ranks, and each rank
  has its own in the order of the range.
\<close>

definition dist_ok :: "nat \<Rightarrow> 'v list \<Rightarrow> 'v list \<Rightarrow> 'v list \<Rightarrow> (nat \<Rightarrow> 'v list) \<Rightarrow> bool" where
  "dist_ok n xs left used asg \<longleftrightarrow>
     (\<exists>pre. xs = pre @ left \<and> mset pre = mset used + (\<Sum>c \<in> {1 ..< n}. mset (asg c)) \<and>
        subseq used pre \<and> (\<forall>c \<in> {1 ..< n}. subseq (asg c) pre))"

definition sched_inv :: "nat \<Rightarrow> 'v list \<Rightarrow> 'v sched \<Rightarrow> bool" where
  "sched_inv n xs s \<longleftrightarrow> ranks_ok n s \<and> root_ok n s \<and>
     dist_ok n xs (srv_left s) (srv_used s) (assigned s)"

lemma sum_update:
  fixes F G :: "'a \<Rightarrow> 'b :: comm_monoid_add"
  assumes "finite A" "c \<in> A" "\<And>x. x \<noteq> c \<Longrightarrow> G x = F x"
  shows "sum G A + F c = sum F A + G c"
proof -
  have "sum G (A - {c}) = sum F (A - {c})" by (rule sum.cong) (auto simp: assms(3))
  then show ?thesis
    using sum.remove [OF assms(1,2), of G] sum.remove [OF assms(1,2), of F] by (simp add: add_ac)
qed

lemma subseq_snoc: "subseq xs pre \<Longrightarrow> subseq xs (pre @ [v])"
  by (metis append_Nil2 list_emb_append_mono list_emb_Nil)

lemma subseq_snoc2: "subseq xs pre \<Longrightarrow> subseq (xs @ [v]) (pre @ [v])"
  by simp

lemma dist_ok_cong:
  "dist_ok n xs l u a \<Longrightarrow> (\<And>c. c \<in> {1 ..< n} \<Longrightarrow> a' c = a c) \<Longrightarrow> dist_ok n xs l u a'"
  unfolding dist_ok_def by (metis (no_types, lifting) sum.cong)

lemma dist_ok_used:
  assumes "dist_ok n xs (v # left) used asg"
  shows "dist_ok n xs left (used @ [v]) asg"
proof -
  obtain pre where p: "xs = pre @ v # left" "mset pre = mset used + (\<Sum>c \<in> {1 ..< n}. mset (asg c))"
    "subseq used pre" "\<forall>c \<in> {1 ..< n}. subseq (asg c) pre"
    using assms unfolding dist_ok_def by blast
  then show ?thesis
    unfolding dist_ok_def by (intro exI [of _ "pre @ [v]"]) (simp add: subseq_snoc)
qed

lemma dist_ok_send:
  assumes "dist_ok n xs (v # left) used asg" "c \<in> {1 ..< n}"
    and "asg' c = asg c @ [v]" "\<And>x. x \<noteq> c \<Longrightarrow> asg' x = asg x"
  shows "dist_ok n xs left used asg'"
proof -
  obtain pre where p: "xs = pre @ v # left" "mset pre = mset used + (\<Sum>c \<in> {1 ..< n}. mset (asg c))"
    "subseq used pre" "\<forall>c \<in> {1 ..< n}. subseq (asg c) pre"
    using assms(1) unfolding dist_ok_def by blast
  have "(\<Sum>c \<in> {1 ..< n}. mset (asg' c)) + mset (asg c) = (\<Sum>c \<in> {1 ..< n}. mset (asg c)) + mset (asg' c)"
    using sum_update [of "{1 ..< n}" c "\<lambda>c. mset (asg' c)" "\<lambda>c. mset (asg c)"] assms(2,4) by simp
  then have "(\<Sum>c \<in> {1 ..< n}. mset (asg' c)) = (\<Sum>c \<in> {1 ..< n}. mset (asg c)) + {#v#}"
    using assms(3) by (simp add: add_ac)
  moreover have "subseq (asg' x) (pre @ [v])" if "x \<in> {1 ..< n}" for x
    using p(4) that assms(3) assms(4) [of x] by (cases "x = c") (simp_all add: subseq_snoc)
  ultimately show ?thesis
    unfolding dist_ok_def using p(1-3) by (intro exI [of _ "pre @ [v]"]) (simp add: subseq_snoc)
qed

section \<open>Every step keeps the invariant\<close>

lemma deliver_down_ok:
  assumes "rank_ok g f k \<lparr>inbox = ms, transit = m # ts\<rparr> u"
  shows "rank_ok g f k \<lparr>inbox = ms @ [m], transit = ts\<rparr> u"
  using assms unfolding rank_defs chan_all_deliver
  by (auto simp: has_val_in_buffer_def iprobe_def)

lemma deliver_up_ok:
  assumes "rank_ok g f k d \<lparr>inbox = us, transit = m # ts\<rparr>"
  shows "rank_ok g f k d \<lparr>inbox = us @ [m], transit = ts\<rparr>"
  using assms unfolding rank_defs chan_all_deliver by auto

lemma inv_client:
  assumes "sched_inv n xs s" "c \<in> {1 ..< n}" "client_step (clients s c) (down s c) (up s c) = Some (b, k, d, u)"
  shows "sched_inv n xs
    (s\<lparr>clients := (clients s)(c := k), down := (down s)(c := d), up := (up s)(c := u)\<rparr>)" (is "sched_inv n xs ?t")
proof -
  have r: "rank_ok (gen_done_sent (srv_pc s) c) (fin_received (srv_pc s) c) (clients s c) (down s c) (up s c)"
    using assms(1,2) by (simp add: sched_inv_def ranks_ok_def)
  note ok = client_step_ok [OF r assms(3)]
  have "ranks_ok n ?t" using assms(1) ok by (auto simp: sched_inv_def ranks_ok_def)
  moreover have "root_ok n ?t"
  proof (cases "srv_pc s = Srv_done")
    case True
    then have "client_step (clients s c) (down s c) (up s c) = None"
      using r by (auto simp: rank_defs client_step_def)
    then show ?thesis using assms(3) by simp
  next
    case False
    then show ?thesis using assms(1) by (auto simp: sched_inv_def root_ok_def split: server_pc.splits)
  qed
  moreover have "assigned ?t x = assigned s x" for x using ok by (simp add: assigned_def)
  ultimately show ?thesis using assms(1) by (auto simp: sched_inv_def intro: dist_ok_cong)
qed

lemma inv_deliver_down:
  assumes "sched_inv n xs s" "c \<in> {1 ..< n}" "down s c = \<lparr>inbox = ms, transit = m # ts\<rparr>"
  shows "sched_inv n xs (s\<lparr>down := (down s)(c := \<lparr>inbox = ms @ [m], transit = ts\<rparr>)\<rparr>)" (is "sched_inv n xs ?t")
proof -
  have "ranks_ok n ?t"
    using assms deliver_down_ok unfolding sched_inv_def ranks_ok_def by fastforce
  moreover have "root_ok n ?t" using assms(1) by (auto simp: sched_inv_def root_ok_def split: server_pc.splits)
  moreover have "assigned ?t x = assigned s x" for x
    using assms(3) by (simp add: assigned_def received_def chan_all_deliver)
  ultimately show ?thesis using assms(1) by (auto simp: sched_inv_def intro: dist_ok_cong)
qed

lemma inv_deliver_up:
  assumes "sched_inv n xs s" "c \<in> {1 ..< n}" "up s c = \<lparr>inbox = us, transit = m # ts\<rparr>"
  shows "sched_inv n xs (s\<lparr>up := (up s)(c := \<lparr>inbox = us @ [m], transit = ts\<rparr>)\<rparr>)" (is "sched_inv n xs ?t")
proof -
  have "ranks_ok n ?t"
    using assms deliver_up_ok unfolding sched_inv_def ranks_ok_def by fastforce
  moreover have "root_ok n ?t"
    using assms by (auto simp: sched_inv_def root_ok_def chan_all_def split: server_pc.splits)
  moreover have "assigned ?t x = assigned s x" for x by (simp add: assigned_def)
  ultimately show ?thesis using assms(1) by (auto simp: sched_inv_def intro: dist_ok_cong)
qed

text \<open>
  Most server steps change the root's program counter and one rank's channels. The invariant then
  holds again if it holds of that rank, and if the counter says the same of the other ranks.
\<close>

lemma ranks_ok_update:
  assumes "ranks_ok n s"
    and "\<And>x. x \<in> {1 ..< n} \<Longrightarrow> x \<noteq> c \<Longrightarrow> gen_done_sent (srv_pc t) x = gen_done_sent (srv_pc s) x \<and>
      fin_received (srv_pc t) x = fin_received (srv_pc s) x \<and> down t x = down s x \<and> up t x = up s x"
    and "clients t = clients s"
    and "c \<in> {1 ..< n} \<Longrightarrow> rank_ok (gen_done_sent (srv_pc t) c) (fin_received (srv_pc t) c)
      (clients t c) (down t c) (up t c)"
  shows "ranks_ok n t"
  unfolding ranks_ok_def
proof
  fix x
  assume x: "x \<in> {1 ..< n}"
  show "rank_ok (gen_done_sent (srv_pc t) x) (fin_received (srv_pc t) x) (clients t x) (down t x) (up t x)"
  proof (cases "x = c")
    case True
    then show ?thesis using assms(4) x by blast
  next
    case False
    then show ?thesis using assms(1,3) assms(2) [OF x False] x by (simp add: ranks_ok_def)
  qed
qed

lemma rank_ok_send_val:
  assumes "rank_ok False f k d u"
  shows "rank_ok False f k (isend d (Server_send_val v)) u"
proof -
  obtain vs where "chan_all d = map Server_send_val vs" using assms by (auto simp: rank_defs)
  then have "chan_all (isend d (Server_send_val v)) = map Server_send_val (vs @ [v])" by simp
  then show ?thesis
    using assms by (auto simp: rank_defs has_val_in_buffer_def iprobe_def simp del: map_append chan_all_isend)
qed

lemma rank_ok_send_gen_done:
  assumes "rank_ok False f k d u"
  shows "rank_ok True f k (isend d Val_gen_done) u"
  using assms by (auto simp: rank_defs has_val_in_buffer_def iprobe_def)

lemma rank_ok_recv:
  "rank_ok g f k d u \<Longrightarrow> recv u is_request = Some (m, u') \<Longrightarrow> rank_ok g f k d u'"
  "rank_ok g False k d u \<Longrightarrow> recv u is_finished = Some (m, u') \<Longrightarrow> rank_ok g True k d u'"
  unfolding rank_ok_def using recv_request recv_finished by blast+

lemma ranks_okD:
  assumes "sched_inv n xs s" "c \<in> {1 ..< n}"
  shows "rank_ok (gen_done_sent (srv_pc s) c) (fin_received (srv_pc s) c) (clients s c) (down s c) (up s c)"
  using assms by (simp add: sched_inv_def ranks_ok_def)

lemma received_send_val: "received k (isend d (Server_send_val v)) = received k d @ [v]"
  by (simp add: received_def value_of_def)

lemma received_send_gen_done: "received k (isend d Val_gen_done) = received k d"
  by (simp add: received_def value_of_def)

lemma inv_first:
  assumes "sched_inv n xs s" "srv_pc s = Srv_first q" "server_step n c s = Some t"
  shows "sched_inv n xs t"
proof (cases q)
  case Nil
  then have t: "t = s\<lparr>srv_pc := Srv_handle\<rparr>" using assms(2,3) by (simp add: server_step_def)
  have "assigned t = assigned s" using assms(2) Nil by (auto simp: assigned_def t)
  then show ?thesis using assms(1,2) by (simp add: sched_inv_def ranks_ok_def root_ok_def t)
next
  case (Cons iv q')
  obtain i v where iv: "iv = (i, v)" by (cases iv)
  have t: "t = s\<lparr>srv_pc := Srv_first q', down := (down s)(i := isend (down s i) (Server_send_val v))\<rparr>"
    using assms(2,3) Cons iv by (simp add: server_step_def)
  have "root_ok n t" using assms(1,2) Cons by (simp add: sched_inv_def root_ok_def t)
  moreover have "ranks_ok n t"
    by (rule ranks_ok_update [where s = s and c = i])
      (use assms(1,2) in \<open>simp_all add: sched_inv_def ranks_ok_def t rank_ok_send_val\<close>)
  moreover have "assigned t = assigned s"
    using assms(2) Cons iv by (auto simp: assigned_def t received_send_val)
  ultimately show ?thesis using assms(1) by (simp add: sched_inv_def t)
qed

lemma inv_handle:
  assumes "sched_inv n xs s" "srv_pc s = Srv_handle" "server_step n c s = Some t"
  shows "sched_inv n xs t"
proof (cases "srv_left s")
  case Nil
  then have t: "t = s\<lparr>srv_pc := Srv_send_done 0\<rparr>"
    using assms(2,3) by (simp add: server_step_def handle_client_request_def)
  have "assigned t = assigned s" using assms(2) by (auto simp: assigned_def t)
  then show ?thesis using assms(1,2) Nil by (simp add: sched_inv_def ranks_ok_def root_ok_def t)
next
  case (Cons v vs)
  show ?thesis
  proof (cases "iprobe_any n s")
    case False
    then have t: "t = s\<lparr>srv_pc := Srv_user\<rparr>"
      using assms(2,3) Cons by (simp add: server_step_def handle_client_request_def)
    have "assigned t = assigned s" using assms(2) by (auto simp: assigned_def t)
    then show ?thesis using assms(1,2) Cons by (simp add: sched_inv_def ranks_ok_def root_ok_def t)
  next
    case True
    then have c: "c \<in> {1 ..< n}"
      using assms(2,3) Cons by (auto simp: server_step_def handle_client_request_def split: if_splits)
    obtain m u where r: "recv (up s c) is_request = Some (m, u)"
      and t: "t = s\<lparr>up := (up s)(c := u), down := (down s)(c := isend (down s c) (Server_send_val v)), srv_left := vs\<rparr>"
      using assms(2,3) Cons True c by (auto simp: server_step_def handle_client_request_def)
    have "rank_ok False False (clients s c) (down s c) u"
      using rank_ok_recv(1) [OF ranks_okD [OF assms(1) c] r] assms(2) by simp
    then have "ranks_ok n t"
      using assms(1,2) by (intro ranks_ok_update [where s = s and t = t and c = c])
        (simp_all add: sched_inv_def t rank_ok_send_val)
    moreover have "root_ok n t" using assms(2) by (simp add: root_ok_def t)
    moreover have "dist_ok n xs vs (srv_used s) (assigned t)"
      by (rule dist_ok_send [where asg = "assigned s" and c = c and v = v])
        (use assms(1,2) Cons c in \<open>simp_all add: sched_inv_def assigned_def t received_send_val\<close>)
    ultimately show ?thesis by (simp add: sched_inv_def t)
  qed
qed

lemma inv_cleanup:
  assumes "sched_inv n xs s" "server_step n c s = Some t"
    and "srv_pc s = Srv_send_done i \<or> srv_pc s = Srv_wait_finished i"
  shows "sched_inv n xs t"
proof (cases "srv_pc s = Srv_send_done i")
  case True
  then have t: "t = send_gen_done n i s" using assms(2) by (simp add: server_step_def)
  have "rank_ok False False (clients s i) (down s i) (up s i)" if "i \<in> {1 ..< n}"
    using assms(1) True that by (force simp: sched_inv_def ranks_ok_def)
  then have "ranks_ok n t"
    using assms(1) True by (intro ranks_ok_update [where s = s and t = t and c = i])
      (auto simp: sched_inv_def t send_gen_done_def root_ok_def intro: rank_ok_send_gen_done)
  moreover have "root_ok n t" using assms(1) True by (auto simp: sched_inv_def t send_gen_done_def root_ok_def)
  moreover have "assigned t = assigned s" "srv_left t = srv_left s" "srv_used t = srv_used s"
    using True by (auto simp: assigned_def t send_gen_done_def received_send_gen_done)
  ultimately show ?thesis using assms(1) by (simp add: sched_inv_def)
next
  case False
  then have pc: "srv_pc s = Srv_wait_finished i" using assms(3) by simp
  then have t: "wait_finished n i s = Some t" using assms(2) by (simp add: server_step_def)
  have "rank_ok True True (clients s i) (down s i) (up t i)" if "i \<in> {1 ..< n}"
    using rank_ok_recv(2) ranks_okD [OF assms(1) that] pc t that by (auto simp: wait_finished_def)
  then have "ranks_ok n t"
    using assms(1) pc t by (intro ranks_ok_update [where s = s and t = t and c = i])
      (auto simp: sched_inv_def wait_finished_def root_ok_def split: if_splits)
  moreover have "root_ok n t"
    using assms(1) pc t by (auto simp: sched_inv_def wait_finished_def root_ok_def split: if_splits)
  moreover have "assigned t = assigned s" "srv_left t = srv_left s" "srv_used t = srv_used s"
    using pc t by (auto simp: assigned_def wait_finished_def split: if_splits)
  ultimately show ?thesis using assms(1) by (simp add: sched_inv_def)
qed

lemma inv_drain:
  assumes "sched_inv n xs s" "srv_pc s = Srv_drain" "server_step n c s = Some t"
  shows "sched_inv n xs t"
proof (cases "iprobe_any n s")
  case False
  then have t: "t = s\<lparr>srv_pc := Srv_done\<rparr>" using assms(2,3) by (simp add: server_step_def drain_requests_def)
  have "chan_all (up s x) = []" if "x \<in> {1 ..< n}" for x
  proof -
    have "rank_ok True True (clients s x) (down s x) (up s x)" using ranks_okD [OF assms(1) that] assms(2) by simp
    then obtain r where r: "inbox (up s x) = replicate r Client_request_val" "transit (up s x) = []"
      by (auto simp: rank_defs chan_all_def)
    have "\<not> iprobe (up s x) is_request" using False that by (simp add: iprobe_any_def list_ex_iff)
    then show ?thesis using r by (cases r) (simp_all add: iprobe_def chan_all_def)
  qed
  moreover have "assigned t = assigned s" using assms(2) by (auto simp: assigned_def t)
  ultimately show ?thesis using assms(1,2) by (auto simp: sched_inv_def ranks_ok_def root_ok_def t)
next
  case True
  then have c: "c \<in> {1 ..< n}"
    using assms(2,3) by (auto simp: server_step_def drain_requests_def split: if_splits)
  obtain m u where r: "recv (up s c) is_request = Some (m, u)" and t: "t = s\<lparr>up := (up s)(c := u)\<rparr>"
    using assms(2,3) True c by (auto simp: server_step_def drain_requests_def)
  have "rank_ok True True (clients s c) (down s c) u"
    using rank_ok_recv(1) [OF ranks_okD [OF assms(1) c] r] assms(2) by simp
  then have "ranks_ok n t"
    using assms(1,2) by (intro ranks_ok_update [where s = s and t = t and c = c]) (simp_all add: sched_inv_def t)
  moreover have "root_ok n t" using assms(1,2) by (simp add: sched_inv_def root_ok_def t)
  moreover have "assigned t = assigned s" using assms(2) by (auto simp: assigned_def t)
  ultimately show ?thesis using assms(1) by (simp add: sched_inv_def t)
qed

lemma inv_user:
  assumes "sched_inv n xs s" "srv_pc s = Srv_user" "server_step n c s = Some t"
  shows "sched_inv n xs t"
proof -
  obtain v vs where l: "srv_left s = v # vs" using assms(1,2) by (auto simp: sched_inv_def root_ok_def neq_Nil_conv)
  have t: "t = s\<lparr>srv_pc := Srv_handle, srv_used := srv_used s @ [v], srv_left := vs\<rparr>"
    using assms(2,3) l by (simp add: server_step_def)
  have "assigned t = assigned s" using assms(2) by (auto simp: assigned_def t)
  moreover have "dist_ok n xs vs (srv_used s @ [v]) (assigned s)"
    by (rule dist_ok_used) (use assms(1) l in \<open>simp add: sched_inv_def\<close>)
  ultimately show ?thesis using assms(1,2) by (simp add: sched_inv_def ranks_ok_def root_ok_def t)
qed

lemma inv_server:
  assumes "sched_inv n xs s" "server_step n c s = Some t"
  shows "sched_inv n xs t"
proof (cases "srv_pc s")
  case (Srv_first q)
  then show ?thesis using inv_first assms by blast
next
  case Srv_handle
  then show ?thesis using inv_handle assms by blast
next
  case Srv_user
  then show ?thesis using inv_user assms by blast
next
  case Srv_drain
  then show ?thesis using inv_drain assms by blast
next
  case Srv_done
  then show ?thesis using assms(2) by (simp add: server_step_def)
qed (use inv_cleanup assms in blast)+

lemma inv_step: "sched_inv n xs s \<Longrightarrow> sched_step n s b t \<Longrightarrow> sched_inv n xs t"
  by (erule sched_step.cases)
    (simp_all add: inv_server inv_client inv_deliver_down inv_deliver_up del: atLeastLessThan_iff)

section \<open>The work left\<close>

fun pc_work :: "nat \<Rightarrow> 'v server_pc \<Rightarrow> nat" where
  "pc_work n (Srv_first q) = 5 * n + 7 + 10 * length q"
| "pc_work n Srv_handle = 5 * n + 6"
| "pc_work n Srv_user = 5 * n + 5"
| "pc_work n (Srv_send_done i) = 4 * (n - i) + n + 4"
| "pc_work n (Srv_wait_finished i) = (n - i) + 2"
| "pc_work n Srv_drain = 1"
| "pc_work n Srv_done = 0"

fun client_pc_work :: "client_pc \<Rightarrow> nat" where
  "client_pc_work Cl_user = 5"
| "client_pc_work Cl_while = 4"
| "client_pc_work Cl_gen = 4"
| "client_pc_work Cl_recheck = 3"
| "client_pc_work Cl_recv = 0"
| "client_pc_work Cl_done = 0"

definition down_work :: "'v down_msg chan \<Rightarrow> nat" where
  "down_work d = sum_list (map (\<lambda>m. if is_val m then 8 else 1) (inbox d)) +
     sum_list (map (\<lambda>m. if is_val m then 9 else 2) (transit d))"

definition up_work :: "up_msg chan \<Rightarrow> nat" where
  "up_work u = length (inbox u) + 2 * length (transit u)"

definition rank_work :: "'v client \<Rightarrow> 'v down_msg chan \<Rightarrow> up_msg chan \<Rightarrow> nat" where
  "rank_work k d u = client_pc_work (cl_pc k) + down_work d + up_work u"

definition sched_work :: "nat \<Rightarrow> 'v sched \<Rightarrow> nat" where
  "sched_work n s = pc_work n (srv_pc s) + 10 * length (srv_left s) +
     (\<Sum>c \<in> {1 ..< n}. rank_work (clients s c) (down s c) (up s c))"

lemma down_work_recv:
  assumes "recv d P = Some (m, d')"
  shows "down_work d = down_work d' + (if is_val m then 8 else 1)"
proof -
  obtain xs ys where "inbox d = xs @ m # ys" "inbox d' = xs @ ys" "transit d' = transit d"
    using recv_Some [OF assms] by metis
  then show ?thesis by (simp add: down_work_def)
qed

lemma up_work_recv:
  assumes "recv u P = Some (m, u')"
  shows "up_work u = up_work u' + 1"
proof -
  obtain xs ys where "inbox u = xs @ m # ys" "inbox u' = xs @ ys" "transit u' = transit u"
    using recv_Some [OF assms] by metis
  then show ?thesis by (simp add: up_work_def)
qed

lemma work_isend:
  "down_work (isend d m) = down_work d + (if is_val m then 9 else 2)"
  "up_work (isend u x) = up_work u + 2"
  by (simp_all add: down_work_def up_work_def isend_def)

lemma gen_finished_work:
  assumes "leader_gen_finished k d = (fin, k', d')"
  shows "cl_pc k' = cl_pc k \<and> down_work d' \<le> down_work d \<and> (\<not> fin \<longrightarrow> k' = k \<and> d' = d)"
  using assms
  by (auto simp: leader_gen_finished_def dest: down_work_recv split: if_splits option.splits)

lemma client_step_work:
  assumes "client_step k d u = Some (b, k', d', u')"
  shows "if b then rank_work k' d' u' < rank_work k d u else rank_work k' d' u' = rank_work k d u"
proof (cases "cl_pc k")
  case Cl_gen
  obtain fin k1 d1 where l: "leader_gen_finished k d = (fin, k1, d1)" by (metis prod_cases3)
  then show ?thesis using gen_finished_work [OF l] assms Cl_gen
    by (auto simp: client_step_def rank_work_def split: if_splits)
next
  case Cl_recv
  then obtain m where r: "recv d is_val = Some (m, d')" and "k' = k\<lparr>cl_pc := Cl_user, got := got k @ value_of m\<rparr>"
    "u' = isend u Client_request_val" b
    using assms by (auto simp: client_step_def)
  moreover have "is_val m" using recv_Some [OF r] by blast
  ultimately show ?thesis using Cl_recv down_work_recv [OF r] by (simp add: rank_work_def work_isend)
qed (use assms in \<open>auto simp: client_step_def rank_work_def work_isend split: if_splits\<close>)

abbreviation ranks_work :: "nat \<Rightarrow> 'v sched \<Rightarrow> nat" where
  "ranks_work n s \<equiv> \<Sum>c \<in> {1 ..< n}. rank_work (clients s c) (down s c) (up s c)"

lemma ranks_work_update:
  assumes "c \<in> {1 ..< n}"
    and "\<And>x. x \<noteq> c \<Longrightarrow> clients t x = clients s x \<and> down t x = down s x \<and> up t x = up s x"
  shows "ranks_work n t + rank_work (clients s c) (down s c) (up s c)
    = ranks_work n s + rank_work (clients t c) (down t c) (up t c)"
  by (rule sum_update) (use assms in auto)

lemma server_step_work:
  assumes "sched_inv n xs s" "server_step n c s = Some t"
  shows "sched_work n t < sched_work n s"
proof (cases "srv_pc s")
  case (Srv_first q)
  show ?thesis
  proof (cases q)
    case Nil
    then show ?thesis using assms(2) Srv_first by (auto simp: server_step_def sched_work_def)
  next
    case (Cons iv q')
    obtain i v where iv: "iv = (i, v)" by (cases iv)
    have i: "i \<in> {1 ..< n}" using assms(1) Srv_first Cons iv by (simp add: sched_inv_def root_ok_def)
    have t: "t = s\<lparr>srv_pc := Srv_first q', down := (down s)(i := isend (down s i) (Server_send_val v))\<rparr>"
      using assms(2) Srv_first Cons iv by (simp add: server_step_def)
    show ?thesis
      using ranks_work_update [OF i, of t s] Srv_first Cons
      by (simp add: sched_work_def t rank_work_def work_isend)
  qed
next
  case Srv_handle
  show ?thesis
  proof (cases "srv_left s")
    case Nil
    then show ?thesis using assms(2) Srv_handle
      by (auto simp: server_step_def handle_client_request_def sched_work_def)
  next
    case (Cons v vs)
    show ?thesis
    proof (cases "iprobe_any n s")
      case False
      then show ?thesis using assms(2) Srv_handle Cons
        by (auto simp: server_step_def handle_client_request_def sched_work_def)
    next
      case True
      then have c: "c \<in> {1 ..< n}"
        using assms(2) Cons Srv_handle by (auto simp: server_step_def handle_client_request_def split: if_splits)
      obtain m u where r: "recv (up s c) is_request = Some (m, u)"
        and t: "t = s\<lparr>up := (up s)(c := u), down := (down s)(c := isend (down s c) (Server_send_val v)), srv_left := vs\<rparr>"
        using assms(2) Srv_handle Cons True c by (auto simp: server_step_def handle_client_request_def)
      show ?thesis
        using ranks_work_update [OF c, of t s] Srv_handle Cons up_work_recv [OF r]
        by (simp add: sched_work_def t rank_work_def work_isend)
    qed
  qed
next
  case Srv_user
  then show ?thesis using assms(2) by (auto simp: server_step_def sched_work_def split: list.splits)
next
  case (Srv_send_done i)
  then have t: "t = send_gen_done n i s" using assms(2) by (simp add: server_step_def)
  show ?thesis
  proof (cases "i \<in> {1 ..< n}")
    case True
    then show ?thesis
      using ranks_work_update [OF True, of t s] Srv_send_done Suc_diff_Suc [of i n, symmetric]
      by (simp add: sched_work_def t send_gen_done_def rank_work_def work_isend)
  next
    case False
    then show ?thesis using Srv_send_done assms(1)
      by (auto simp: sched_work_def t send_gen_done_def sched_inv_def root_ok_def)
  qed
next
  case (Srv_wait_finished i)
  then have t: "wait_finished n i s = Some t" using assms(2) by (simp add: server_step_def)
  show ?thesis
  proof (cases "i \<in> {1 ..< n}")
    case True
    then obtain m u where r: "recv (up s i) is_finished = Some (m, u)"
      and t: "t = s\<lparr>srv_pc := Srv_wait_finished (Suc i), up := (up s)(i := u)\<rparr>"
      using t by (auto simp: wait_finished_def)
    show ?thesis
      using ranks_work_update [OF True, of t s] Srv_wait_finished True up_work_recv [OF r]
        Suc_diff_Suc [of i n, symmetric]
      by (simp add: sched_work_def t rank_work_def)
  next
    case False
    then show ?thesis using Srv_wait_finished t
      by (auto simp: sched_work_def wait_finished_def split: if_splits)
  qed
next
  case Srv_drain
  show ?thesis
  proof (cases "iprobe_any n s")
    case False
    then show ?thesis using assms(2) Srv_drain
      by (auto simp: server_step_def drain_requests_def sched_work_def)
  next
    case True
    then have c: "c \<in> {1 ..< n}"
      using assms(2) Srv_drain by (auto simp: server_step_def drain_requests_def split: if_splits)
    obtain m u where r: "recv (up s c) is_request = Some (m, u)" and t: "t = s\<lparr>up := (up s)(c := u)\<rparr>"
      using assms(2) Srv_drain True c by (auto simp: server_step_def drain_requests_def)
    show ?thesis
      using ranks_work_update [OF c, of t s] up_work_recv [OF r]
      by (simp add: sched_work_def t rank_work_def)
  qed
next
  case Srv_done
  then show ?thesis using assms(2) by (simp add: server_step_def)
qed

lemma sched_step_work:
  assumes "sched_inv n xs s" "sched_step n s b t"
  shows "if b then sched_work n t < sched_work n s else sched_work n t = sched_work n s"
  using assms(2)
proof cases
  case (sched_server c)
  then show ?thesis using server_step_work assms(1) by simp
next
  case (sched_client c k d u)
  then show ?thesis
    using ranks_work_update [OF sched_client(2), of t s] client_step_work [OF sched_client(3)]
    by (auto simp: sched_work_def)
next
  case (sched_deliver_down c ms m ts)
  then show ?thesis
    using ranks_work_update [OF sched_deliver_down(3), of t s]
    by (simp add: sched_work_def rank_work_def down_work_def split: if_splits)
next
  case (sched_deliver_up c us m ts)
  then show ?thesis
    using ranks_work_update [OF sched_deliver_up(3), of t s]
    by (simp add: sched_work_def rank_work_def up_work_def)
qed

section \<open>Some rank can always go on\<close>

definition sched_final :: "nat \<Rightarrow> 'v sched \<Rightarrow> bool" where
  "sched_final n s \<longleftrightarrow> srv_pc s = Srv_done \<and>
     (\<forall>c \<in> {1 ..< n}. cl_pc (clients s c) = Cl_done \<and> chan_all (down s c) = [] \<and> chan_all (up s c) = [])"

lemma sched_inv_final:
  assumes "sched_inv n xs s"
  shows "sched_final n s \<longleftrightarrow> srv_pc s = Srv_done"
proof -
  have "cl_pc (clients s c) = Cl_done \<and> chan_all (down s c) = [] \<and> chan_all (up s c) = []"
    if "srv_pc s = Srv_done" "c \<in> {1 ..< n}" for c
    using ranks_okD [OF assms that(2)] assms that
    by (auto simp: rank_defs chan_all_def sched_inv_def root_ok_def)
  then show ?thesis by (auto simp: sched_final_def)
qed

definition can_work :: "nat \<Rightarrow> 'v sched \<Rightarrow> bool" where
  "can_work n s \<longleftrightarrow> (\<exists>t u. run (sched_step n) s 0 t \<and> sched_step n t True u)"

lemma can_work_now: "sched_step n s True t \<Longrightarrow> can_work n s"
  unfolding can_work_def using run_here [of "sched_step n" s] by blast

lemma can_work_wait: "sched_step n s False t \<Longrightarrow> can_work n t \<Longrightarrow> can_work n s"
  unfolding can_work_def using run_trans [of _ t 0 _ s 0] run_wait [OF run_here] by fastforce

lemma can_work_deliver:
  assumes "c \<in> {1 ..< n}" "transit (down s c) \<noteq> [] \<or> transit (up s c) \<noteq> []"
  shows "can_work n s"
proof (cases "transit (down s c)")
  case (Cons m ts)
  then have "down s c = \<lparr>inbox = inbox (down s c), transit = m # ts\<rparr>" by simp
  then show ?thesis using sched_deliver_down [OF assms(1)] can_work_now by metis
next
  case Nil
  then obtain m ts where "transit (up s c) = m # ts" using assms(2) by (auto simp: neq_Nil_conv)
  then have "up s c = \<lparr>inbox = inbox (up s c), transit = m # ts\<rparr>" by simp
  then show ?thesis using sched_deliver_up [OF assms(1)] can_work_now by metis
qed

lemma can_work_client:
  assumes "c \<in> {1 ..< n}" "client_step (clients s c) (down s c) (up s c) = Some (True, r)"
  shows "can_work n s"
proof -
  obtain k d u where "r = (k, d, u)" by (cases r)
  then show ?thesis using can_work_now [OF sched_client [OF assms(1)]] assms(2) by simp
qed

text \<open>A client that is not done when the root waits for it finds a value or \<^verbatim>\<open>val_gen_done\<close>.\<close>

lemma gen_done_visible:
  assumes "down_ok True k d" "transit d = []" "\<not> has_val_in_buffer d"
  shows "\<exists>k' d'. leader_gen_finished k d = (True, k', d')"
proof (cases "m_leader_gen_finished k")
  case True
  then show ?thesis by (simp add: leader_gen_finished_def)
next
  case False
  then obtain vs where "inbox d = map Server_send_val vs @ [Val_gen_done]"
    using assms(1,2) by (auto simp: down_ok_def chan_all_def)
  then have "iprobe d is_gen_done" by (simp add: iprobe_def)
  then obtain m d' where "recv d is_gen_done = Some (m, d')" using recv_None [of d is_gen_done] by auto
  then show ?thesis using False by (simp add: leader_gen_finished_def)
qed

lemma waiting_client_works:
  assumes c: "c \<in> {1 ..< n}" and r: "rank_ok True False (clients s c) (down s c) (up s c)"
    and nd: "cl_pc (clients s c) \<noteq> Cl_done"
  shows "can_work n s"
proof (cases "transit (down s c) = []")
  case False
  then show ?thesis using can_work_deliver [OF c] by blast
next
  case tr: True
  let ?k = "clients s c" and ?d = "down s c" and ?u = "up s c"
  have d: "down_ok True ?k ?d" using r by (simp add: rank_ok_def)
  have gen: "can_work n t" if t: "cl_pc (clients t c) = Cl_gen" "down_ok True (clients t c) (down t c)"
      "transit (down t c) = []" "\<not> has_val_in_buffer (down t c)" for t
  proof -
    obtain k' d' where "leader_gen_finished (clients t c) (down t c) = (True, k', d')"
      using gen_done_visible [OF t(2-4)] by blast
    then show ?thesis using t(1) can_work_client [OF c, of t] by (simp add: client_step_def)
  qed
  show ?thesis
  proof (cases "cl_pc ?k")
    case Cl_while
    show ?thesis
    proof (cases "has_val_in_buffer ?d")
      case True
      then show ?thesis using can_work_client [OF c, of s] Cl_while by (simp add: client_step_def)
    next
      case False
      let ?t = "s\<lparr>clients := (clients s)(c := ?k\<lparr>cl_pc := Cl_gen\<rparr>), down := (down s)(c := ?d), up := (up s)(c := ?u)\<rparr>"
      have "sched_step n s False ?t"
        by (rule sched_client [OF c]) (use Cl_while False in \<open>simp add: client_step_def\<close>)
      moreover have "can_work n ?t" using gen [of ?t] d tr False by (simp add: down_ok_def)
      ultimately show ?thesis by (rule can_work_wait)
    qed
  next
    case Cl_gen
    show ?thesis
    proof (cases "has_val_in_buffer ?d")
      case False
      then show ?thesis using gen [of s] Cl_gen d tr by blast
    next
      case True
      obtain fin k' d' where l: "leader_gen_finished ?k ?d = (fin, k', d')" by (metis prod_cases3)
      show ?thesis
      proof (cases fin)
        case fin: True
        then show ?thesis using l Cl_gen can_work_client [OF c, of s] by (simp add: client_step_def)
      next
        case nf: False
        then have "k' = ?k" "d' = ?d" using gen_finished_work [OF l] by simp_all
        let ?t = "s\<lparr>clients := (clients s)(c := ?k\<lparr>cl_pc := Cl_while\<rparr>), down := (down s)(c := ?d), up := (up s)(c := ?u)\<rparr>"
        have "sched_step n s False ?t"
          by (rule sched_client [OF c]) (use Cl_gen l nf \<open>k' = ?k\<close> \<open>d' = ?d\<close> in \<open>simp add: client_step_def\<close>)
        moreover have "can_work n ?t" using can_work_client [OF c, of ?t] True by (simp add: client_step_def)
        ultimately show ?thesis by (rule can_work_wait)
      qed
    qed
  next
    case Cl_recheck
    then show ?thesis
      using can_work_client [OF c, of s] by (cases "has_val_in_buffer ?d") (simp_all add: client_step_def)
  next
    case Cl_recv
    then have "has_val_in_buffer ?d" using r by (simp add: rank_defs)
    then obtain m d' where "recv ?d is_val = Some (m, d')"
      using recv_None [of ?d is_val] by (auto simp: has_val_in_buffer_def)
    then show ?thesis using can_work_client [OF c, of s] Cl_recv by (simp add: client_step_def)
  next
    case Cl_user
    then show ?thesis using can_work_client [OF c, of s] by (simp add: client_step_def)
  next
    case Cl_done
    then show ?thesis using nd by simp
  qed
qed

lemma root_waits_works:
  assumes "sched_inv n xs s" "srv_pc s = Srv_wait_finished i"
  shows "can_work n s"
proof (cases "i \<in> {1 ..< n}")
  case False
  then have "server_step n 0 s \<noteq> None" using assms by (auto simp: server_step_def wait_finished_def)
  then show ?thesis using can_work_now sched_server by fast
next
  case True
  have r: "rank_ok True False (clients s i) (down s i) (up s i)" using ranks_okD [OF assms(1) True] assms(2) by simp
  show ?thesis
  proof (cases "cl_pc (clients s i) = Cl_done \<and> transit (up s i) = []")
    case False
    then show ?thesis using waiting_client_works [OF True r] can_work_deliver [OF True] by blast
  next
    case fin: True
    then have "iprobe (up s i) is_finished" using r by (auto simp: rank_defs chan_all_def iprobe_def)
    then have "recv (up s i) is_finished \<noteq> None" using recv_None by blast
    then have "server_step n 0 s \<noteq> None" using assms True by (auto simp: server_step_def wait_finished_def)
    then show ?thesis using can_work_now sched_server by fast
  qed
qed

lemma any_source_works:
  assumes "iprobe_any n s" "srv_pc s = Srv_handle \<and> srv_left s \<noteq> [] \<or> srv_pc s = Srv_drain"
  shows "\<exists>c t. server_step n c s = Some t"
proof -
  obtain c where c: "c \<in> {1 ..< n}" "iprobe (up s c) is_request"
    using assms(1) by (auto simp: iprobe_any_def list_ex_iff)
  then obtain r where "recv (up s c) is_request = Some r" using recv_None [of "up s c" is_request] by auto
  then have "server_step n c s \<noteq> None"
    using assms c(1) by (auto simp: server_step_def handle_client_request_def drain_requests_def split: list.splits)
  then show ?thesis by blast
qed

lemma sched_progress:
  assumes "sched_inv n xs s" "\<not> sched_final n s"
  shows "can_work n s"
proof (cases "\<exists>i. srv_pc s = Srv_wait_finished i")
  case True
  then show ?thesis using root_waits_works assms(1) by blast
next
  case nw: False
  have "\<exists>c t. server_step n c s = Some t"
  proof (cases "iprobe_any n s \<and> (srv_pc s = Srv_handle \<and> srv_left s \<noteq> [] \<or> srv_pc s = Srv_drain)")
    case True
    then show ?thesis using any_source_works by blast
  next
    case False
    then have "server_step n 0 s \<noteq> None"
      using nw assms sched_inv_final [OF assms(1)]
      by (auto simp: server_step_def handle_client_request_def drain_requests_def sched_inv_def root_ok_def
          split: server_pc.splits list.splits)
    then show ?thesis by blast
  qed
  then show ?thesis using can_work_now sched_server by fast
qed

section \<open>The start, and the contract\<close>

text \<open>What the all-gather guarantees: one buffer size per rank, 0 for the root.\<close>

definition sizes_ok :: "nat \<Rightarrow> nat list \<Rightarrow> bool" where
  "sizes_ok n sizes \<longleftrightarrow> length sizes = n \<and> 0 < n \<and> sizes ! 0 = 0"

lemma map_snd_zip_drop: "map snd (zip rs vs) @ drop (length rs) vs = vs"
  by (induction rs vs rule: list_induct2') simp_all

lemma mset_pending:
  "fst ` set q \<subseteq> {1 ..< n} \<Longrightarrow> (\<Sum>c \<in> {1 ..< n}. mset (pending (Srv_first q) c)) = mset (map snd q)"
proof (induction q)
  case (Cons x q)
  have "(\<Sum>c \<in> {1 ..< n}. mset (pending (Srv_first (x # q)) c))
      = (\<Sum>c \<in> {1 ..< n}. (if c = fst x then {#snd x#} else {#}) + mset (pending (Srv_first q) c))"
    by (rule sum.cong) auto
  also have "\<dots> = {#snd x#} + mset (map snd q)" using Cons by (simp add: sum.distrib)
  finally show ?case by simp
qed simp

lemma start_inv:
  assumes "sizes_ok n sizes" "sched_start n sizes xs = Some s"
  shows "sched_inv n xs s"
proof -
  let ?rr = "round_robin n sizes"
  let ?q = "zip ?rr xs"
  have s: "s = \<lparr>srv_pc = Srv_first ?q, srv_left = drop (length ?rr) xs, srv_used = [],
         clients = (\<lambda>c. \<lparr>cl_pc = Cl_while, m_leader_gen_finished = False, got = []\<rparr>),
         down = (\<lambda>c. \<lparr>inbox = [], transit = []\<rparr>),
         up = (\<lambda>c. \<lparr>inbox = [], transit = replicate (sizes ! c) Client_request_val\<rparr>)\<rparr>"
    using assms first_time_round_robin [of sizes n xs] by (simp add: sched_start_def sizes_ok_def)
  have "set ?rr \<subseteq> {1 ..< n}" by (auto simp: round_robin_def round_ranks_def)
  then have q: "fst ` set ?q \<subseteq> {1 ..< n}" by (auto dest: set_zip_leftD)
  have "ranks_ok n s" by (auto simp: ranks_ok_def rank_defs chan_all_def s)
  moreover have "root_ok n s" using q by (simp add: root_ok_def s)
  moreover have "dist_ok n xs (srv_left s) (srv_used s) (assigned s)"
    unfolding dist_ok_def
  proof (intro exI conjI ballI)
    show "xs = map snd ?q @ srv_left s" by (simp add: s map_snd_zip_drop)
    have "assigned s c = pending (Srv_first ?q) c" for c
      by (simp add: assigned_def received_def chan_all_def s)
    then show "mset (map snd ?q) = mset (srv_used s) + (\<Sum>c \<in> {1 ..< n}. mset (assigned s c))"
      using mset_pending [OF q] by (simp add: s del: pending.simps)
    show "subseq (srv_used s) (map snd ?q)" by (simp add: s)
    show "subseq (assigned s c) (map snd ?q)" for c
      by (simp add: assigned_def received_def chan_all_def s subseq_map)
  qed
  ultimately show ?thesis by (simp add: sched_inv_def)
qed

interpretation sched: protocol "\<lambda>s. \<exists>sizes. sizes_ok n sizes \<and> sched_start n sizes xs = Some s"
  "sched_step n" "sched_inv n xs" "sched_final n" "sched_work n" for n xs
proof
  show "\<exists>t u. run (sched_step n) s 0 t \<and> sched_step n t True u"
    if "sched_inv n xs s" "\<not> sched_final n s" for s :: "'a sched"
    using sched_progress [OF that] by (simp add: can_work_def)
qed (auto intro: start_inv inv_step dest: sched_step_work)

section \<open>Credits\<close>

definition requests :: "up_msg chan \<Rightarrow> nat" where
  "requests u = length (filter is_request (chan_all u))"

definition in_flight :: "'v sched \<Rightarrow> nat \<Rightarrow> nat" where
  "in_flight s c = length (vals (chan_all (down s c)))"

text \<open>Requests not yet answered, values on their way and first-round sends still to do.\<close>

definition credits :: "'v sched \<Rightarrow> nat \<Rightarrow> nat" where
  "credits s c = requests (up s c) + in_flight s c + length (pending (srv_pc s) c)"

lemma requests_isend: "requests (isend u m) = requests u + (if is_request m then 1 else 0)"
  by (simp add: requests_def)

lemma requests_recv:
  assumes "recv u P = Some (m, u')"
  shows "requests u = requests u' + (if is_request m then 1 else 0) \<and> P m"
proof -
  obtain xs ys where "inbox u = xs @ m # ys" "inbox u' = xs @ ys" "transit u' = transit u" "P m"
    using recv_Some [OF assms] by metis
  then show ?thesis by (simp add: requests_def chan_all_def)
qed

lemma vals_recv:
  assumes "recv d P = Some (m, d')"
  shows "length (vals (chan_all d)) = length (vals (chan_all d')) + length (value_of m) \<and> P m"
proof -
  obtain xs ys where "inbox d = xs @ m # ys" "inbox d' = xs @ ys" "transit d' = transit d" "P m"
    using recv_Some [OF assms] by metis
  then show ?thesis by (simp add: chan_all_def)
qed

lemma value_of_val: "is_val m \<Longrightarrow> length (value_of m) = 1"
  by (simp add: is_val_def value_of_def split: down_msg.splits)

lemma client_step_credits:
  assumes "client_step k d u = Some (b, k', d', u')"
  shows "requests u' + length (vals (chan_all d')) \<le> requests u + length (vals (chan_all d))"
proof (cases "cl_pc k")
  case Cl_gen
  obtain fin k1 d1 where l: "leader_gen_finished k d = (fin, k1, d1)" by (metis prod_cases3)
  then have "length (vals (chan_all d1)) \<le> length (vals (chan_all d))"
    by (auto simp: leader_gen_finished_def dest: vals_recv split: if_splits option.splits)
  then show ?thesis using assms Cl_gen l by (auto simp: client_step_def split: if_splits)
next
  case Cl_recv
  then obtain m where r: "recv d is_val = Some (m, d')" "u' = isend u Client_request_val"
    using assms by (auto simp: client_step_def)
  then show ?thesis using vals_recv [OF r(1)] value_of_val [of m] by (simp add: requests_isend)
qed (use assms in \<open>auto simp: client_step_def requests_isend split: if_splits\<close>)

lemma server_step_credits:
  assumes "server_step n c s = Some t"
  shows "credits t x \<le> credits s x"
proof (cases "srv_pc s")
  case (Srv_first q)
  then show ?thesis using assms
    by (cases q) (auto simp: server_step_def credits_def in_flight_def value_of_def)
next
  case Srv_handle
  then show ?thesis using assms
    by (auto simp: server_step_def handle_client_request_def credits_def in_flight_def value_of_def
        dest!: requests_recv split: list.splits if_splits)
next
  case Srv_user
  then show ?thesis using assms by (auto simp: server_step_def credits_def in_flight_def split: list.splits)
next
  case (Srv_send_done i)
  then show ?thesis using assms
    by (auto simp: server_step_def send_gen_done_def credits_def in_flight_def value_of_def)
next
  case (Srv_wait_finished i)
  then show ?thesis using assms
    by (auto simp: server_step_def wait_finished_def credits_def in_flight_def dest!: requests_recv split: if_splits)
next
  case Srv_drain
  then show ?thesis using assms
    by (auto simp: server_step_def drain_requests_def credits_def in_flight_def dest!: requests_recv split: if_splits)
qed (use assms in \<open>simp add: server_step_def\<close>)

lemma sched_step_credits:
  assumes "sched_step n s b t"
  shows "credits t x \<le> credits s x"
  using assms
proof cases
  case (sched_server c)
  then show ?thesis using server_step_credits by blast
next
  case (sched_client c k d u)
  then show ?thesis using client_step_credits [OF sched_client(3)] by (simp add: credits_def in_flight_def)
qed (auto simp: credits_def in_flight_def requests_def chan_all_def)

lemma run_credits: "run (sched_step n) s w t \<Longrightarrow> credits t x \<le> credits s x"
  by (induction rule: run.induct) (use sched_step_credits le_trans in blast)+

lemma count_round_robin:
  assumes "length sizes = n" "c < n"
  shows "length (filter (\<lambda>i. i = c) (round_robin n sizes)) \<le> sizes ! c"
proof -
  have one: "length (filter (\<lambda>i. i = c) (round_ranks n sizes k)) \<le> (if k < sizes ! c then 1 else 0)" for k
  proof -
    have "filter (\<lambda>i. i = c) (round_ranks n sizes k)
        = filter (\<lambda>i. 0 < i \<and> k < sizes ! i) (filter (\<lambda>i. i = c) [0 ..< n])"
      by (simp add: round_ranks_def conj_commute)
    moreover have "filter (\<lambda>i. i = c) [0 ..< m] = (if c < m then [c] else [])" for m
      by (induction m) auto
    ultimately show ?thesis using assms(2) by simp
  qed
  have "length (filter (\<lambda>i. i = c) (concat (map (round_ranks n sizes) [0 ..< M]))) \<le> min M (sizes ! c)" for M
  proof (induction M)
    case (Suc M)
    then show ?case using one [of M] by (auto split: if_splits)
  qed simp
  from this [of "Max (set sizes)"] show ?thesis by (simp add: round_robin_def)
qed

lemma start_credits:
  assumes "sizes_ok n sizes" "sched_start n sizes xs = Some s" "c < n"
  shows "credits s c \<le> 2 * sizes ! c"
proof -
  have len: "length (filter (\<lambda>x. fst x = c) (zip rs vs)) \<le> length (filter (\<lambda>i. i = c) rs)" for rs and vs :: "'a list"
    by (induction rs vs rule: list_induct2') auto
  have s: "sched_start n sizes xs = Some \<lparr>srv_pc = Srv_first (zip (round_robin n sizes) xs),
         srv_left = drop (length (round_robin n sizes)) xs, srv_used = [],
         clients = (\<lambda>c. \<lparr>cl_pc = Cl_while, m_leader_gen_finished = False, got = []\<rparr>),
         down = (\<lambda>c. \<lparr>inbox = [], transit = []\<rparr>),
         up = (\<lambda>c. \<lparr>inbox = [], transit = replicate (sizes ! c) Client_request_val\<rparr>)\<rparr>"
    using assms(1) first_time_round_robin [of sizes n xs] by (simp add: sched_start_def sizes_ok_def)
  have "length (filter (\<lambda>i. i = c) (round_robin n sizes)) \<le> sizes ! c"
    using count_round_robin assms(1,3) by (simp add: sizes_ok_def)
  then have "length (filter (\<lambda>x. fst x = c) (zip (round_robin n sizes) xs)) \<le> sizes ! c"
    using len le_trans by blast
  then show ?thesis
    using s assms(2) by (auto simp: credits_def requests_def in_flight_def chan_all_def)
qed

section \<open>What the scheduler guarantees\<close>

lemma start_exists: "sizes_ok n sizes \<Longrightarrow> \<exists>s. sched_start n sizes xs = Some s"
  using first_time_round_robin [of sizes n xs] by (simp add: sched_start_def sizes_ok_def)

lemma reachable_sched_inv:
  assumes "sizes_ok n sizes" "sched_start n sizes xs = Some s" "reachable (sched_step n) s t"
  shows "sched_inv n xs t"
  using sched.reachable_inv [of n xs s t] assms by blast

lemma demo_sizes: "sizes_ok 3 [0, 2, 1]"
  by (simp add: sizes_ok_def)

lemma inv_distributes:
  assumes "sched_inv n xs t" "srv_pc t = Srv_done"
  shows "mset xs = mset (srv_used t) + (\<Sum>c \<in> {1 ..< n}. mset (got (clients t c))) \<and>
    subseq (srv_used t) xs \<and> (\<forall>c \<in> {1 ..< n}. subseq (got (clients t c)) xs) \<and> sched_final n t"
proof -
  have fin: "sched_final n t" using sched_inv_final [OF assms(1)] assms(2) by blast
  have asg: "assigned t c = got (clients t c)" if "c \<in> {1 ..< n}" for c
    using fin that assms(2) by (simp add: assigned_def received_def sched_final_def)
  have "srv_left t = []" using assms by (simp add: sched_inv_def root_ok_def)
  then have "dist_ok n xs [] (srv_used t) (\<lambda>c. got (clients t c))"
    using assms(1) asg by (auto simp: sched_inv_def intro: dist_ok_cong)
  then show ?thesis using fin by (auto simp: dist_ok_def)
qed

lemma sched_distributes:
  assumes "sizes_ok n sizes" "sched_start n sizes xs = Some s"
    and "reachable (sched_step n) s t" "srv_pc t = Srv_done"
  shows "mset xs = mset (srv_used t) + (\<Sum>c \<in> {1 ..< n}. mset (got (clients t c))) \<and>
    subseq (srv_used t) xs \<and> (\<forall>c \<in> {1 ..< n}. subseq (got (clients t c)) xs) \<and> sched_final n t"
  by (rule inv_distributes [OF reachable_sched_inv [OF assms(1-3)] assms(4)])

text \<open>
  C1. Whatever the interleaving: when the root's loop has ended, every value of the range has been
  yielded by exactly one rank (once per occurrence), each rank saw its values in the order of the
  range, all clients have ended, and no message is left in any channel.
\<close>

theorem sched_exactly_once:
  assumes "sizes_ok n sizes" "sched_start n sizes xs = Some s"
    and "reachable (sched_step n) s t" "srv_pc t = Srv_done"
  shows "mset xs = mset (srv_used t) + (\<Sum>c \<in> {1 ..< n}. mset (got (clients t c))) \<and>
    subseq (srv_used t) xs \<and> (\<forall>c \<in> {1 ..< n}. subseq (got (clients t c)) xs) \<and> sched_final n t"
  using assms by (rule sched_distributes)

theorem sched_exactly_once_witness:
  "\<exists>s t. sched_start 3 [0, 2, 1] ''abcde'' = Some s \<and> reachable (sched_step 3) s t \<and>
     mset ''abcde'' = mset (srv_used t) + (\<Sum>c \<in> {1 ..< 3}. mset (got (clients t c)))"
proof -
  obtain s where s: "sched_start 3 [0, 2, 1] ''abcde'' = Some s" using start_exists [OF demo_sizes] by blast
  have "\<exists>sizes. sizes_ok 3 sizes \<and> sched_start 3 sizes ''abcde'' = Some s" using s demo_sizes by blast
  then obtain t where t: "reachable (sched_step 3) s t" "sched_final 3 t"
    using sched.can_finish [of 3 "''abcde''" s s] run_here [of "sched_step 3" s] by blast
  then show ?thesis using sched_exactly_once [OF demo_sizes s t(1)] s by (auto simp: sched_final_def)
qed

text \<open>
  C2. The scheduler never deadlocks: from every state that any interleaving reaches, the ranks can
  still bring the loop to its end on all ranks.
\<close>

theorem sched_can_finish:
  assumes "sizes_ok n sizes" "sched_start n sizes xs = Some s" "reachable (sched_step n) s t"
  shows "\<exists>u. reachable (sched_step n) t u \<and> sched_final n u"
  using sched.can_finish [of n xs s t] assms by blast

theorem sched_can_finish_witness:
  "\<exists>s u. sched_start 3 [0, 2, 1] ''abcde'' = Some s \<and> reachable (sched_step 3) s u \<and> sched_final 3 u"
proof -
  obtain s where s: "sched_start 3 [0, 2, 1] ''abcde'' = Some s" using start_exists [OF demo_sizes] by blast
  show ?thesis using sched_can_finish [OF demo_sizes s, of s] run_here [of "sched_step 3" s] s by blast
qed

lemma start_work:
  assumes "sizes_ok n sizes" "sched_start n sizes xs = Some s"
  shows "sched_work n s \<le> 10 * length xs + 9 * n + 7 + 2 * sum_list sizes"
proof -
  let ?rr = "round_robin n sizes"
  have s: "s = \<lparr>srv_pc = Srv_first (zip ?rr xs), srv_left = drop (length ?rr) xs, srv_used = [],
         clients = (\<lambda>c. \<lparr>cl_pc = Cl_while, m_leader_gen_finished = False, got = []\<rparr>),
         down = (\<lambda>c. \<lparr>inbox = [], transit = []\<rparr>),
         up = (\<lambda>c. \<lparr>inbox = [], transit = replicate (sizes ! c) Client_request_val\<rparr>)\<rparr>"
    using assms first_time_round_robin [of sizes n xs] by (simp add: sched_start_def sizes_ok_def)
  have "ranks_work n s = (\<Sum>c \<in> {1 ..< n}. 4 + 2 * sizes ! c)"
    by (simp add: s rank_work_def down_work_def up_work_def)
  also have "\<dots> \<le> (\<Sum>c \<in> {0 ..< n}. 4 + 2 * sizes ! c)" by (rule sum_mono2) auto
  also have "\<dots> = 4 * n + 2 * sum_list sizes"
    using assms(1) by (simp add: sum.distrib sum_distrib_left sizes_ok_def sum_list_sum_nth)
  finally have "ranks_work n s \<le> 4 * n + 2 * sum_list sizes" .
  moreover have "length (zip ?rr xs) + length (drop (length ?rr) xs) = length xs" by simp
  ultimately show ?thesis by (simp add: sched_work_def s)
qed

text \<open>
  C33. The scheduler cannot go on for ever: apart from tests of the clients' waiting loops that find
  nothing, every run has at most \<^verbatim>\<open>10 |range| + 9 n + 7 + 2 (requests)\<close> steps.
\<close>

theorem sched_work_bounded:
  assumes "sizes_ok n sizes" "sched_start n sizes xs = Some s" "run (sched_step n) s w t"
  shows "w \<le> 10 * length xs + 9 * n + 7 + 2 * sum_list sizes"
  using sched.work_bounded [of n xs s w t] start_work [OF assms(1,2)] assms le_trans by blast

theorem sched_work_bounded_witness:
  "\<exists>s t. sched_start 3 [0, 2, 1] ''abcde'' = Some s \<and> run (sched_step 3) s 1 t \<and> (1 :: nat) \<le> 90"
proof -
  obtain s where s: "sched_start 3 [0, 2, 1] ''abcde'' = Some s" using start_exists [OF demo_sizes] by blast
  then obtain q where "srv_pc s = Srv_first q" by (auto simp: sched_start_def)
  then obtain t where "server_step 3 0 s = Some t" by (cases q) (auto simp: server_step_def)
  then have "run (sched_step 3) s 1 t"
    using run_work [OF run_here [of "sched_step 3" s] sched_server [of 3 0 s t]] by simp
  then show ?thesis using sched_work_bounded [OF demo_sizes s, of 1 t] s by auto
qed

text \<open>
  The assertions of \<^verbatim>\<open>client_handler\<close> hold in every reachable state: a value is there when \<^verbatim>\<open>next\<close>
  comes out of its waiting loop to receive one, and none is there (nor will one come) when the
  handler is destroyed.
\<close>

theorem client_asserts:
  assumes "sizes_ok n sizes" "sched_start n sizes xs = Some s"
    and "reachable (sched_step n) s t" "c \<in> {1 ..< n}"
  shows "(cl_pc (clients t c) = Cl_recv \<longrightarrow> has_val_in_buffer (down t c)) \<and>
    (cl_pc (clients t c) = Cl_done \<longrightarrow> \<not> has_val_in_buffer (down t c) \<and> chan_all (down t c) = [])"
  using ranks_okD [OF reachable_sched_inv [OF assms(1-3)] assms(4)]
  by (auto simp: rank_defs has_val_in_buffer_def iprobe_def chan_all_def)

theorem client_asserts_witness:
  "\<exists>s t. sched_start 3 [0, 2, 1] ''abcde'' = Some s \<and> reachable (sched_step 3) s t \<and>
     cl_pc (clients t 2) = Cl_done \<and> \<not> has_val_in_buffer (down t 2)"
proof -
  obtain s where s: "sched_start 3 [0, 2, 1] ''abcde'' = Some s" using start_exists [OF demo_sizes] by blast
  have "\<exists>sizes. sizes_ok 3 sizes \<and> sched_start 3 sizes ''abcde'' = Some s" using s demo_sizes by blast
  then obtain t where t: "reachable (sched_step 3) s t" "sched_final 3 t"
    using sched.can_finish [of 3 "''abcde''" s s] run_here [of "sched_step 3" s] by blast
  moreover have "(2 :: nat) \<in> {1 ..< 3}" by simp
  moreover have "cl_pc (clients t 2) = Cl_done" using t(2) by (simp add: sched_final_def)
  ultimately show ?thesis using client_asserts [OF demo_sizes s t(1), of 2] s by blast
qed

text \<open>
  C34. At most \<^verbatim>\<open>2 * buffer_size\<close> values are ever on their way to a rank.
\<close>

theorem sched_in_flight:
  assumes "sizes_ok n sizes" "sched_start n sizes xs = Some s" "reachable (sched_step n) s t" "c < n"
  shows "in_flight t c \<le> 2 * sizes ! c"
proof -
  have "credits t c \<le> 2 * sizes ! c"
    using run_credits start_credits [OF assms(1,2,4)] assms(3) le_trans by blast
  then show ?thesis by (simp add: credits_def)
qed

theorem sched_in_flight_witness:
  "\<exists>s. sched_start 3 [0, 2, 1] ''abcde'' = Some s \<and> in_flight s 2 \<le> 2 * [0, 2, 1] ! 2"
proof -
  obtain s where s: "sched_start 3 [0, 2, 1] ''abcde'' = Some s" using start_exists [OF demo_sizes] by blast
  then show ?thesis using sched_in_flight [OF demo_sizes s, of s 2] run_here [of "sched_step 3" s] by auto
qed

text \<open>
  The bound is reached: the first round answers the initial requests without receiving them, so
  each is answered a second time by \<^verbatim>\<open>handle_client_request\<close>. Here a rank with a buffer of one value has
  two values on their way to it, although the root's \<^verbatim>\<open>circular_buffer\<close> of sends has room for one.
\<close>

theorem first_round_answers_twice:
  "\<exists>s t. sched_start 2 [0, 1] ''abc'' = Some s \<and> reachable (sched_step 2) s t \<and>
     in_flight t 1 = 2 * [0, 1] ! 1 \<and> got (clients t 1) = []"
proof -
  let ?k = "\<lambda>c :: nat. \<lparr>cl_pc = Cl_while, m_leader_gen_finished = False, got = [] :: string\<rparr>"
  let ?e = "\<lambda>c :: nat. \<lparr>inbox = [], transit = []\<rparr> :: char down_msg chan"
  let ?u = "\<lambda>c :: nat. \<lparr>inbox = [], transit = replicate ([0, 1 :: nat] ! c) Client_request_val\<rparr>"
  let ?mk = "\<lambda>pc left d u. \<lparr>srv_pc = pc, srv_left = left, srv_used = [], clients = ?k, down = d, up = u\<rparr> :: char sched"
  have m: "Max (set [0, 1 :: nat]) = 1" by simp
  have rr: "round_robin 2 [0, 1] = [1]"
    unfolding round_robin_def m by (simp add: round_ranks_def upt_rec numeral_2_eq_2)
  define s0 where "s0 = ?mk (Srv_first [(1, CHR ''a'')]) ''bc'' ?e ?u"
  define d1 where "d1 = ?e(1 := \<lparr>inbox = [], transit = [Server_send_val CHR ''a'']\<rparr>)"
  define s1 where "s1 = ?mk (Srv_first []) ''bc'' d1 ?u"
  define s2 where "s2 = ?mk Srv_handle ''bc'' d1 ?u"
  define u3 where "u3 = ?u(1 := \<lparr>inbox = [Client_request_val], transit = []\<rparr>)"
  define s3 where "s3 = ?mk Srv_handle ''bc'' d1 u3"
  define s4 where "s4 = ?mk Srv_handle ''c''
    (d1(1 := \<lparr>inbox = [], transit = [Server_send_val CHR ''a'', Server_send_val CHR ''b'']\<rparr>))
    (u3(1 := \<lparr>inbox = [], transit = []\<rparr>))"
  have start: "sched_start 2 [0, 1] ''abc'' = Some s0"
    using first_time_round_robin [of "[0, 1]" 2 "''abc''"] by (simp add: sched_start_def rr rr [simplified] s0_def)
  have "server_step 2 1 s0 = Some s1" by (simp add: s0_def s1_def d1_def server_step_def isend_def)
  then have "reachable (sched_step 2) s0 s1" using reachable_step [of _ s0 s0] run_here sched_server by metis
  moreover have "server_step 2 1 s1 = Some s2" by (simp add: s1_def s2_def server_step_def)
  ultimately have "reachable (sched_step 2) s0 s2" using reachable_step sched_server by metis
  moreover have "sched_step 2 s2 True s3"
    using sched_deliver_up [of 1 2 s2 "[]" Client_request_val "[]"] by (simp add: s2_def s3_def u3_def)
  ultimately have "reachable (sched_step 2) s0 s3" by (rule reachable_step)
  moreover have "server_step 2 1 s3 = Some s4"
    by (simp add: s3_def s4_def u3_def d1_def server_step_def handle_client_request_def iprobe_any_def
        iprobe_def recv_def isend_def is_request_def upt_rec numeral_2_eq_2)
  ultimately have "reachable (sched_step 2) s0 s4" using reachable_step sched_server by metis
  moreover have "in_flight s4 1 = 2" "got (clients s4 1) = []"
    by (simp_all add: s4_def in_flight_def chan_all_def value_of_def)
  ultimately show ?thesis using start by (intro exI [of _ s0] exI [of _ s4]) simp
qed

end
