(* ===== verification/Request_Rings.thy ===== *)
theory Request_Rings
  imports Prelude Schedule_Proofs
begin

text \<open>
  The handles of the sends of \<^verbatim>\<open>dynamic_schedule.h\<close>: the root keeps a \<^verbatim>\<open>circular_buffer\<close> of requests for each
  rank and every other rank one of its own, both as large as the rank's buffer size. Assertions guard that
  they are never full and that the oldest request of a client is complete. Whether they hold depends on when
  MPI reports a send as complete, which its standard leaves open.
\<close>

section \<open>The rings\<close>

text \<open>When \<^verbatim>\<open>test\<close> finds a send complete: MPI may have copied the message, or waits for its receipt.\<close>

datatype completion = At_once | When_received

text \<open>
  \<open>rg_values R c\<close> is \<^verbatim>\<open>m_requests[c]\<close> of the root, \<open>rg_requests R c\<close> is \<^verbatim>\<open>m_requests\<close> of rank \<open>c\<close>. A handle is the number
  of its message among those sent to, or by, the rank; \<open>rg_sent\<close>, \<open>rg_asked\<close> and \<open>rg_answered\<close> count the values
  sent to a rank, the requests it has sent and those the root has received.
\<close>

record 'v ringed =
  rg_sched :: "'v sched"
  rg_values :: "nat \<Rightarrow> nat list"
  rg_sent :: "nat \<Rightarrow> nat"
  rg_requests :: "nat \<Rightarrow> nat list"
  rg_asked :: "nat \<Rightarrow> nat"
  rg_answered :: "nat \<Rightarrow> nat"

definition value_done :: "completion \<Rightarrow> 'v ringed \<Rightarrow> nat \<Rightarrow> nat \<Rightarrow> bool" where
  "value_done mode R c j \<longleftrightarrow> mode = At_once \<or> j < length (got (clients (rg_sched R) c))"

definition request_done :: "completion \<Rightarrow> 'v ringed \<Rightarrow> nat \<Rightarrow> nat \<Rightarrow> bool" where
  "request_done mode R c j \<longleftrightarrow> mode = At_once \<or> j < rg_answered R c"

definition push_request :: "nat \<Rightarrow> nat list \<Rightarrow> nat \<Rightarrow> nat list result" where
  "push_request capacity ring j = assertE (length ring < capacity) (Inr (ring @ [j]))"

text \<open>The root sends the next value to rank \<open>c\<close>, which goes into \<open>ring\<close>; \<open>t\<close> is the state behind the send.\<close>

definition send_value :: "nat list \<Rightarrow> nat \<Rightarrow> nat list \<Rightarrow> 'v sched \<Rightarrow> 'v ringed \<Rightarrow> 'v ringed result" where
  "send_value sizes c ring t R =
     bindE (push_request (sizes ! c) ring (rg_sent R c)) (\<lambda>ring'.
       Inr (R\<lparr>rg_sched := t, rg_values := (rg_values R)(c := ring'), rg_sent := (rg_sent R)(c := Suc (rg_sent R c))\<rparr>))"

definition receive_request :: "nat \<Rightarrow> 'v ringed \<Rightarrow> 'v ringed" where
  "receive_request c R = R\<lparr>rg_answered := (rg_answered R)(c := Suc (rg_answered R c))\<rparr>"

text \<open>
  A step of the root. The first round asserts that a request is visible but does not receive it;
  \<^verbatim>\<open>handle_client_request\<close> drops the completed sends at the front of the ring; \<^verbatim>\<open>finish_cleanup\<close> waits for its
  sends before it waits for the clients.
\<close>

definition ring_server :: "nat \<Rightarrow> nat list \<Rightarrow> completion \<Rightarrow> nat \<Rightarrow> 'v ringed \<Rightarrow> 'v ringed result option" where
  "ring_server n sizes mode c R =
     (let s = rg_sched R
      in (case server_step n c s of
            None \<Rightarrow> None
          | Some t \<Rightarrow>
              (case srv_pc s of
                 Srv_first (iv # q) \<Rightarrow>
                   Some (assertE (iprobe (up s (fst iv)) is_request)
                     (send_value sizes (fst iv) (rg_values R (fst iv)) t R))
               | Srv_handle \<Rightarrow>
                   if srv_left s \<noteq> [] \<and> iprobe_any n s then
                     Some (send_value sizes c (dropWhile (value_done mode R c) (rg_values R c)) t (receive_request c R))
                   else Some (Inr (R\<lparr>rg_sched := t\<rparr>))
               | Srv_send_done i \<Rightarrow>
                   if mode = When_received \<and> n \<le> i \<and> list_ex (\<lambda>c. list_ex is_gen_done (chan_all (down s c))) [1 ..< n]
                   then None else Some (Inr (R\<lparr>rg_sched := t\<rparr>))
               | Srv_drain \<Rightarrow>
                   Some (Inr ((if iprobe_any n s then receive_request c R else R)\<lparr>rg_sched := t\<rparr>))
               | _ \<Rightarrow> Some (Inr (R\<lparr>rg_sched := t\<rparr>)))))"

text \<open>A step of rank \<open>c\<close>; behind the receive of a value the oldest request makes room for a new one.\<close>

definition ring_client :: "completion \<Rightarrow> nat \<Rightarrow> 'v ringed \<Rightarrow> (bool \<times> 'v ringed result) option" where
  "ring_client mode c R =
     (let s = rg_sched R
      in (case client_step (clients s c) (down s c) (up s c) of
            None \<Rightarrow> None
          | Some (b, k, d, u) \<Rightarrow>
              let R' = R\<lparr>rg_sched := s\<lparr>clients := (clients s)(c := k), down := (down s)(c := d), up := (up s)(c := u)\<rparr>\<rparr>
              in if cl_pc (clients s c) = Cl_recv then
                   (case rg_requests R c of
                      [] \<Rightarrow> Some (b, Inl AssertFailed)
                    | j # js \<Rightarrow>
                        Some (b, assertE (request_done mode R c j)
                          (Inr (R'\<lparr>rg_requests := (rg_requests R)(c := js @ [rg_asked R c]),
                                 rg_asked := (rg_asked R)(c := Suc (rg_asked R c))\<rparr>))))
                 else Some (b, Inr R')))"

text \<open>
  The destructors: the root's waits for all sends it still holds (\<open>None\<close> as long as one is not complete), a
  client's asserts that no value is left and cancels what is still active.
\<close>

definition server_destructor :: "nat \<Rightarrow> completion \<Rightarrow> 'v ringed \<Rightarrow> 'v ringed option" where
  "server_destructor n mode R =
     (if list_all (\<lambda>c. list_all (value_done mode R c) (rg_values R c)) [1 ..< n] then Some (R\<lparr>rg_values := (\<lambda>c. [])\<rparr>)
      else None)"

definition client_destructor :: "nat \<Rightarrow> 'v ringed \<Rightarrow> 'v ringed result" where
  "client_destructor c R =
     assertE (\<not> has_val_in_buffer (down (rg_sched R) c)) (Inr (R\<lparr>rg_requests := (rg_requests R)(c := [])\<rparr>))"

text \<open>All ranks together; the messages travel as before.\<close>

inductive ring_step :: "nat \<Rightarrow> nat list \<Rightarrow> completion \<Rightarrow> 'v ringed \<Rightarrow> bool \<Rightarrow> 'v ringed result \<Rightarrow> bool"
  for n sizes mode where
  ring_server_step: "ring_server n sizes mode c R = Some r \<Longrightarrow> ring_step n sizes mode R True r"
| ring_client_step: "c \<in> {1 ..< n} \<Longrightarrow> ring_client mode c R = Some (b, r) \<Longrightarrow> ring_step n sizes mode R b r"
| ring_deliver_down: "c \<in> {1 ..< n} \<Longrightarrow> down (rg_sched R) c = \<lparr>inbox = ms, transit = m # ts\<rparr> \<Longrightarrow>
    ring_step n sizes mode R True (Inr (R\<lparr>rg_sched := (rg_sched R)\<lparr>down := (down (rg_sched R))(c := \<lparr>inbox = ms @ [m], transit = ts\<rparr>)\<rparr>\<rparr>))"
| ring_deliver_up: "c \<in> {1 ..< n} \<Longrightarrow> up (rg_sched R) c = \<lparr>inbox = us, transit = m # ts\<rparr> \<Longrightarrow>
    ring_step n sizes mode R True (Inr (R\<lparr>rg_sched := (rg_sched R)\<lparr>up := (up (rg_sched R))(c := \<lparr>inbox = us @ [m], transit = ts\<rparr>)\<rparr>\<rparr>))"

inductive_cases ring_stepE: "ring_step n sizes mode R b r"

abbreviation ring_next :: "nat \<Rightarrow> nat list \<Rightarrow> completion \<Rightarrow> 'v ringed \<Rightarrow> bool \<Rightarrow> 'v ringed \<Rightarrow> bool" where
  "ring_next n sizes mode \<equiv> \<lambda>R b R'. ring_step n sizes mode R b (Inr R')"

text \<open>
  Behind the constructors' barrier every client has filled its ring with requests. The barrier is taken to
  make them visible, which the first round asserts.
\<close>

definition arrived :: "'v sched \<Rightarrow> 'v sched" where
  "arrived s = s\<lparr>up := (\<lambda>c. \<lparr>inbox = chan_all (up s c), transit = []\<rparr>)\<rparr>"

definition ring_start :: "nat \<Rightarrow> nat list \<Rightarrow> 'v list \<Rightarrow> 'v ringed option" where
  "ring_start n sizes vs =
     map_option (\<lambda>s. \<lparr>rg_sched = arrived s, rg_values = (\<lambda>c. []), rg_sent = (\<lambda>c. 0), rg_requests = (\<lambda>c. [0 ..< sizes ! c]),
         rg_asked = (\<lambda>c. sizes ! c), rg_answered = (\<lambda>c. 0)\<rparr>)
       (sched_start n sizes vs)"

section \<open>How many values the first round sends\<close>

lemma count_distinct: "distinct xs \<Longrightarrow> count_list xs c = (if c \<in> set xs then 1 else 0)"
  by (induction xs) auto

lemma count_round_ranks: "c \<in> {1 ..< n} \<Longrightarrow> count_list (round_ranks n sizes k) c = (if k < sizes ! c then 1 else 0)"
  unfolding round_ranks_def by (subst count_distinct) auto

lemma count_rounds: "c \<in> {1 ..< n} \<Longrightarrow> count_list (concat (map (round_ranks n sizes) [0 ..< m])) c = min m (sizes ! c)"
  by (induction m) (auto simp: count_round_ranks)

lemma round_robin_count:
  assumes "length sizes = n" "c \<in> {1 ..< n}"
  shows "count_list (round_robin n sizes) c = sizes ! c"
proof -
  have "sizes ! c \<le> Max (set sizes)" using assms by (intro Max_ge) auto
  then show ?thesis unfolding round_robin_def by (simp only: count_rounds [OF assms(2)] min.absorb2)
qed

lemma count_take: "count_list (take m xs) c \<le> count_list xs c"
proof -
  have "count_list xs c = count_list (take m xs) c + count_list (drop m xs) c"
    by (simp only: count_list_append [symmetric] append_take_drop_id)
  then show ?thesis by simp
qed

section \<open>The invariant\<close>

text \<open>Every rank asks for at least one value at a time.\<close>

definition rings_sized :: "nat \<Rightarrow> nat list \<Rightarrow> bool" where
  "rings_sized n sizes \<longleftrightarrow> sizes_ok n sizes \<and> (\<forall>c \<in> {1 ..< n}. 0 < sizes ! c)"

definition ring_inv :: "nat \<Rightarrow> nat list \<Rightarrow> 'v ringed \<Rightarrow> bool" where
  "ring_inv n sizes R \<longleftrightarrow>
     (\<forall>c \<in> {1 ..< n}. length (rg_requests R c) = sizes ! c \<and> length (rg_values R c) \<le> sizes ! c) \<and>
     (\<forall>q. srv_pc (rg_sched R) = Srv_first q \<longrightarrow> fst ` set q \<subseteq> {1 ..< n} \<and>
        (\<forall>c \<in> {1 ..< n}. length (rg_values R c) + count_list (map fst q) c \<le> sizes ! c \<and>
           iprobe (up (rg_sched R) c) is_request))"

lemma iprobe_isend: "iprobe ch P \<Longrightarrow> iprobe (isend ch m) P"
  by (simp add: iprobe_def)

lemma push_request_Inr: "push_request cap ring j = Inr r \<longleftrightarrow> length ring < cap \<and> r = ring @ [j]"
  by (auto simp: push_request_def assertE_def)

lemma send_value_Inr:
  "send_value sizes c ring t R = Inr R' \<longleftrightarrow> length ring < sizes ! c \<and>
     R' = R\<lparr>rg_sched := t, rg_values := (rg_values R)(c := ring @ [rg_sent R c]), rg_sent := (rg_sent R)(c := Suc (rg_sent R c))\<rparr>"
  by (auto simp: send_value_def push_request_def assertE_def bindE_def)

text \<open>A client's step does not take a visible request away.\<close>

lemma client_keeps_requests:
  assumes "client_step k d u = Some (b, k', d', u')" "iprobe u P"
  shows "iprobe u' P"
  using assms by (cases "cl_pc k") (auto simp: client_step_def iprobe_isend split: if_splits prod.splits)

lemma server_leaves_first:
  assumes "server_step n c s = Some t" "srv_pc t = Srv_first q'"
  shows "\<exists>iv. srv_pc s = Srv_first (iv # q') \<and>
    t = s\<lparr>srv_pc := Srv_first q', down := (down s)(fst iv := isend (down s (fst iv)) (Server_send_val (snd iv)))\<rparr>"
  using assms
  by (auto simp: server_step_def handle_client_request_def send_gen_done_def wait_finished_def drain_requests_def
      split: server_pc.splits list.splits if_splits)

lemma ring_server_inv:
  assumes "ring_inv n sizes R" "ring_server n sizes mode c R = Some (Inr R')"
  shows "ring_inv n sizes R'"
proof -
  let ?s = "rg_sched R"
  obtain t where t: "server_step n c ?s = Some t" using assms(2) by (cases "server_step n c ?s") (auto simp: ring_server_def)
  have sched: "rg_sched R' = t" "rg_requests R' = rg_requests R"
    using assms(2) t
    by (auto simp: ring_server_def Let_def send_value_Inr assertE_Inr receive_request_def
        split: server_pc.splits list.splits if_splits)
  have lens: "length (rg_values R' x) \<le> sizes ! x" if "x \<in> {1 ..< n}" for x
    using assms t that
    by (auto simp: ring_server_def ring_inv_def Let_def send_value_Inr assertE_Inr receive_request_def
        split: server_pc.splits list.splits if_splits)
  have first: "fst ` set q \<subseteq> {1 ..< n} \<and> (\<forall>x \<in> {1 ..< n}. length (rg_values R' x) + count_list (map fst q) x \<le> sizes ! x \<and>
      iprobe (up t x) is_request)" if pc: "srv_pc t = Srv_first q" for q
  proof -
    obtain iv where iv: "srv_pc ?s = Srv_first (iv # q)"
      "t = ?s\<lparr>srv_pc := Srv_first q, down := (down ?s)(fst iv := isend (down ?s (fst iv)) (Server_send_val (snd iv)))\<rparr>"
      using server_leaves_first [OF t pc] by blast
    have "rg_values R' = (rg_values R)(fst iv := rg_values R (fst iv) @ [rg_sent R (fst iv)])"
      using assms(2) t iv(1) by (auto simp: ring_server_def send_value_Inr assertE_Inr)
    moreover have "fst ` set (iv # q) \<subseteq> {1 ..< n}" "\<forall>x \<in> {1 ..< n}.
        length (rg_values R x) + count_list (map fst (iv # q)) x \<le> sizes ! x \<and> iprobe (up ?s x) is_request"
      using assms(1) iv(1) by (simp_all add: ring_inv_def)
    ultimately show ?thesis using iv(2) by (auto split: if_splits)
  qed
  show ?thesis using assms(1) lens first unfolding ring_inv_def sched by blast
qed

lemma ring_client_inv:
  assumes "ring_inv n sizes R" "c \<in> {1 ..< n}" "ring_client mode c R = Some (b, Inr R')"
  shows "ring_inv n sizes R'"
proof -
  let ?s = "rg_sched R"
  obtain k d u where k: "client_step (clients ?s c) (down ?s c) (up ?s c) = Some (b, k, d, u)"
    using assms(3) by (auto simp: ring_client_def Let_def split: option.splits if_splits list.splits)
  have sched: "rg_sched R' = ?s\<lparr>clients := (clients ?s)(c := k), down := (down ?s)(c := d), up := (up ?s)(c := u)\<rparr>"
    "rg_values R' = rg_values R"
    using assms(3) k by (auto simp: ring_client_def Let_def assertE_Inr split: if_splits list.splits)
  have "length (rg_requests R' x) = length (rg_requests R x)" for x
    using assms(3) k by (auto simp: ring_client_def Let_def assertE_Inr split: if_splits list.splits)
  then show ?thesis
    using assms(1) client_keeps_requests [OF k] by (auto simp: ring_inv_def sched)
qed

lemma ring_step_inv:
  assumes "ring_inv n sizes R" "ring_step n sizes mode R b (Inr R')"
  shows "ring_inv n sizes R'"
  using assms(2)
proof (cases rule: ring_step.cases)
  case (ring_deliver_up c us m ts)
  then have "iprobe (up (rg_sched R) c) P \<Longrightarrow> iprobe \<lparr>inbox = us @ [m], transit = ts\<rparr> P" for P
    by (auto simp: iprobe_def)
  then show ?thesis using assms(1) ring_deliver_up(2) by (auto simp: ring_inv_def)
next
  case (ring_deliver_down c ms m ts)
  then show ?thesis using assms(1) by (auto simp: ring_inv_def)
qed (use assms(1) ring_server_inv ring_client_inv in blast)+

lemma ring_start_inv:
  assumes "rings_sized n sizes" "ring_start n sizes vs = Some R"
  shows "ring_inv n sizes R \<and> srv_pc (rg_sched R) = Srv_first (zip (round_robin n sizes) vs) \<and>
    srv_left (rg_sched R) = drop (length (round_robin n sizes)) vs \<and>
    (\<forall>c. clients (rg_sched R) c = \<lparr>cl_pc = Cl_while, m_leader_gen_finished = False, got = []\<rparr> \<and>
      down (rg_sched R) c = \<lparr>inbox = [], transit = []\<rparr> \<and>
      up (rg_sched R) c = \<lparr>inbox = replicate (sizes ! c) Client_request_val, transit = []\<rparr> \<and>
      rg_values R c = [] \<and> rg_requests R c = [0 ..< sizes ! c] \<and> rg_answered R c = 0)"
proof -
  have ok: "length sizes = n" "0 < n" "sizes ! 0 = 0" "\<forall>c \<in> {1 ..< n}. 0 < sizes ! c"
    using assms(1) by (auto simp: rings_sized_def sizes_ok_def)
  let ?q = "zip (round_robin n sizes) vs"
  have R: "R = \<lparr>rg_sched = \<lparr>srv_pc = Srv_first ?q, srv_left = drop (length (round_robin n sizes)) vs, srv_used = [],
       clients = (\<lambda>c. \<lparr>cl_pc = Cl_while, m_leader_gen_finished = False, got = []\<rparr>),
       down = (\<lambda>c. \<lparr>inbox = [], transit = []\<rparr>),
       up = (\<lambda>c. \<lparr>inbox = replicate (sizes ! c) Client_request_val, transit = []\<rparr>)\<rparr>,
     rg_values = (\<lambda>c. []), rg_sent = (\<lambda>c. 0), rg_requests = (\<lambda>c. [0 ..< sizes ! c]), rg_asked = (\<lambda>c. sizes ! c),
     rg_answered = (\<lambda>c. 0)\<rparr>"
    using assms(2) by (simp add: ring_start_def sched_start_def first_time_round_robin [OF ok(1-3)] arrived_def chan_all_def)
  have "count_list (map fst ?q) c \<le> sizes ! c" if "c \<in> {1 ..< n}" for c
    using count_take [of "min (length (round_robin n sizes)) (length vs)" "round_robin n sizes" c] round_robin_count [OF ok(1) that] by (simp add: map_fst_zip_take)
  moreover have "fst ` set ?q \<subseteq> {1 ..< n}"
    by (auto simp: round_robin_def round_ranks_def dest!: set_zip_leftD)
  moreover have "iprobe \<lparr>inbox = replicate (sizes ! c) Client_request_val, transit = []\<rparr> is_request" if "c \<in> {1 ..< n}" for c
  proof -
    have "sizes ! c = Suc (sizes ! c - 1)" using ok(4) that by simp
    then have "replicate (sizes ! c) Client_request_val = Client_request_val # replicate (sizes ! c - 1) Client_request_val"
      by (metis replicate_Suc)
    then show ?thesis by (simp add: iprobe_def)
  qed
  ultimately show ?thesis by (simp add: R ring_inv_def)
qed

interpretation ring_run: transition_invariant "\<lambda>R. rings_sized n sizes \<and> (\<exists>vs. ring_start n sizes vs = Some R)"
  "ring_next n sizes mode" "ring_inv n sizes"
  for n sizes mode
  by unfold_locales (use ring_start_inv ring_step_inv in blast)+

section \<open>Sends that complete at once\<close>

lemma send_value_room:
  "length ring < sizes ! c \<Longrightarrow> \<exists>R'. send_value sizes c ring t R = Inr R' \<and> rg_sched R' = t"
  by (simp add: send_value_Inr)

lemma server_at_once:
  assumes "ring_inv n sizes R" "rings_sized n sizes" "server_step n c (rg_sched R) = Some t"
  shows "\<exists>R'. ring_server n sizes At_once c R = Some (Inr R') \<and> rg_sched R' = t"
proof (cases "srv_pc (rg_sched R)")
  case (Srv_first q)
  show ?thesis
  proof (cases q)
    case Nil
    then show ?thesis using Srv_first assms(3) by (simp add: ring_server_def)
  next
    case (Cons iv q')
    have i: "fst iv \<in> {1 ..< n}" using assms(1) Srv_first Cons by (auto simp: ring_inv_def)
    then have a: "length (rg_values R (fst iv)) + count_list (map fst q) (fst iv) \<le> sizes ! fst iv"
      "iprobe (up (rg_sched R) (fst iv)) is_request"
      using assms(1) Srv_first by (auto simp: ring_inv_def)
    then have "length (rg_values R (fst iv)) < sizes ! fst iv" using Cons by simp
    then show ?thesis
      using Srv_first Cons assms(3) a(2) by (simp add: ring_server_def assertE_def send_value_Inr)
  qed
next
  case Srv_handle
  show ?thesis
  proof (cases "srv_left (rg_sched R) \<noteq> [] \<and> iprobe_any n (rg_sched R)")
    case True
    then have "c \<in> {1 ..< n}"
      using assms(3) Srv_handle by (auto simp: server_step_def handle_client_request_def split: list.splits if_splits)
    then have "0 < sizes ! c" using assms(2) by (simp add: rings_sized_def)
    moreover have d: "dropWhile (value_done At_once R c) (rg_values R c) = []"
      by (simp add: value_done_def)
    ultimately show ?thesis using True Srv_handle assms(3) by (simp add: ring_server_def send_value_Inr d)
  next
    case False
    then show ?thesis using Srv_handle assms(3) by (auto simp: ring_server_def)
  qed
qed (use assms(3) in \<open>simp_all add: ring_server_def\<close>)

lemma client_at_once:
  assumes "ring_inv n sizes R" "rings_sized n sizes" "c \<in> {1 ..< n}"
    and "client_step (clients (rg_sched R) c) (down (rg_sched R) c) (up (rg_sched R) c) = Some (b, k, d, u)"
  shows "\<exists>R'. ring_client At_once c R = Some (b, Inr R') \<and>
    rg_sched R' = (rg_sched R)\<lparr>clients := (clients (rg_sched R))(c := k), down := (down (rg_sched R))(c := d),
      up := (up (rg_sched R))(c := u)\<rparr>"
proof -
  have "length (rg_requests R c) = sizes ! c" "0 < sizes ! c"
    using assms(1-3) by (auto simp: ring_inv_def rings_sized_def)
  then obtain j js where "rg_requests R c = j # js" by (cases "rg_requests R c") auto
  then show ?thesis using assms(4) by (simp add: ring_client_def Let_def assertE_def request_done_def)
qed

text \<open>The rings do not restrict the scheduler: its steps are those of the ringed scheduler.\<close>

lemma ring_steps_down:
  assumes "ring_inv n sizes R" "rings_sized n sizes" "sched_step n (rg_sched R) b t"
  shows "\<exists>R'. ring_step n sizes At_once R b (Inr R') \<and> rg_sched R' = t"
  using assms(3)
proof (cases rule: sched_step.cases)
  case (sched_server c)
  obtain R' where "ring_server n sizes At_once c R = Some (Inr R')" "rg_sched R' = t"
    using server_at_once [OF assms(1,2) sched_server(2)] by blast
  then show ?thesis using ring_server_step sched_server(1) by blast
next
  case (sched_client c k d u)
  obtain R' where "ring_client At_once c R = Some (b, Inr R')" "rg_sched R' = t"
    using client_at_once [OF assms(1,2) sched_client(2,3)] sched_client(1) by blast
  then show ?thesis using ring_client_step [OF sched_client(2)] by blast
next
  case (sched_deliver_down c ms m ts)
  from ring_deliver_down [where R = R and sizes = sizes and mode = At_once, OF sched_deliver_down(3,4)] show ?thesis
    using sched_deliver_down(1,2) by (intro exI conjI) auto
next
  case (sched_deliver_up c us m ts)
  from ring_deliver_up [where R = R and sizes = sizes and mode = At_once, OF sched_deliver_up(3,4)] show ?thesis
    using sched_deliver_up(1,2) by (intro exI conjI) auto
qed

lemma ring_server_projects:
  assumes "ring_server n sizes mode c R = Some (Inr R')"
  shows "server_step n c (rg_sched R) = Some (rg_sched R')"
  using assms
  by (cases "server_step n c (rg_sched R)")
    (auto simp: ring_server_def Let_def send_value_Inr assertE_Inr receive_request_def split: server_pc.splits list.splits if_splits)

lemma ring_client_projects:
  assumes "ring_client mode c R = Some (b, Inr R')"
  shows "\<exists>k d u. client_step (clients (rg_sched R) c) (down (rg_sched R) c) (up (rg_sched R) c) = Some (b, k, d, u) \<and>
    rg_sched R' = (rg_sched R)\<lparr>clients := (clients (rg_sched R))(c := k), down := (down (rg_sched R))(c := d),
      up := (up (rg_sched R))(c := u)\<rparr>"
  using assms
  by (cases "client_step (clients (rg_sched R) c) (down (rg_sched R) c) (up (rg_sched R) c)")
    (auto simp: ring_client_def Let_def assertE_Inr split: if_splits list.splits)

lemma ring_steps_up:
  assumes "ring_step n sizes mode R b (Inr R')"
  shows "sched_step n (rg_sched R) b (rg_sched R')"
  using assms
proof (cases rule: ring_step.cases)
  case (ring_server_step c)
  then have "server_step n c (rg_sched R) = Some (rg_sched R')" by (intro ring_server_projects)
  from sched_server [OF this] show ?thesis using ring_server_step(1) by simp
next
  case (ring_client_step c)
  obtain k d u where "client_step (clients (rg_sched R) c) (down (rg_sched R) c) (up (rg_sched R) c) = Some (b, k, d, u)"
    and R': "rg_sched R' = (rg_sched R)\<lparr>clients := (clients (rg_sched R))(c := k), down := (down (rg_sched R))(c := d),
      up := (up (rg_sched R))(c := u)\<rparr>"
    using ring_client_projects [OF ring_client_step(2)] by blast
  from sched_client [OF ring_client_step(1) this(1)] show ?thesis unfolding R' .
next
  case (ring_deliver_down c ms m ts)
  from sched_deliver_down [OF ring_deliver_down(3,4)] show ?thesis using ring_deliver_down(1,2) by simp
next
  case (ring_deliver_up c us m ts)
  from sched_deliver_up [OF ring_deliver_up(3,4)] show ?thesis using ring_deliver_up(1,2) by simp
qed

lemma at_once_no_failure:
  assumes "ring_inv n sizes R" "rings_sized n sizes" "ring_step n sizes At_once R b r"
  shows "\<exists>R'. r = Inr R'"
  using assms(3)
proof (cases rule: ring_step.cases)
  case (ring_server_step c)
  then obtain t where "server_step n c (rg_sched R) = Some t"
    by (cases "server_step n c (rg_sched R)") (auto simp: ring_server_def)
  from server_at_once [OF assms(1,2) this] show ?thesis using ring_server_step by auto
next
  case (ring_client_step c)
  then obtain b' k d u where "client_step (clients (rg_sched R) c) (down (rg_sched R) c) (up (rg_sched R) c) = Some (b', k, d, u)"
    by (cases "client_step (clients (rg_sched R) c) (down (rg_sched R) c) (up (rg_sched R) c)") (auto simp: ring_client_def Let_def)
  from client_at_once [OF assms(1,2) ring_client_step(1) this] show ?thesis using ring_client_step(2) by auto
qed auto

text \<open>
  C16. When MPI reports sends as complete at once, the rings of requests are large enough: no assertion of the
  scheduler fails, no ring holds more handles than the rank's buffer size, a client's is always full; and
  the scheduler with its rings takes exactly the steps of the scheduler without them.
\<close>

theorem rings_suffice:
  assumes "rings_sized n sizes" "ring_start n sizes vs = Some R0" "reachable (ring_next n sizes At_once) R0 R"
  shows "(\<forall>c \<in> {1 ..< n}. length (rg_values R c) \<le> sizes ! c \<and> length (rg_requests R c) = sizes ! c) \<and>
    (\<forall>b r. ring_step n sizes At_once R b r \<longrightarrow> (\<exists>R'. r = Inr R' \<and> sched_step n (rg_sched R) b (rg_sched R'))) \<and>
    (\<forall>b t. sched_step n (rg_sched R) b t \<longrightarrow> (\<exists>R'. ring_step n sizes At_once R b (Inr R') \<and> rg_sched R' = t))"
proof -
  have inv: "ring_inv n sizes R" using ring_run.reachable_inv [of n sizes R0 At_once R] assms by blast
  show ?thesis
  proof (intro conjI allI impI)
    show "\<forall>c \<in> {1 ..< n}. length (rg_values R c) \<le> sizes ! c \<and> length (rg_requests R c) = sizes ! c"
      using inv by (simp add: ring_inv_def)
    show "\<exists>R'. r = Inr R' \<and> sched_step n (rg_sched R) b (rg_sched R')" if step: "ring_step n sizes At_once R b r" for b r
    proof -
      obtain R' where "r = Inr R'" using at_once_no_failure [OF inv assms(1) step] by blast
      then show ?thesis using ring_steps_up step by blast
    qed
  qed (rule ring_steps_down [OF inv assms(1)])
qed

section \<open>Sends that complete when they are received\<close>

lemma first_round_step:
  assumes "ring_inv n sizes R" "srv_pc (rg_sched R) = Srv_first (iv # q)"
  shows "ring_next n sizes mode R True
    (R\<lparr>rg_sched := (rg_sched R)\<lparr>srv_pc := Srv_first q,
         down := (down (rg_sched R))(fst iv := isend (down (rg_sched R) (fst iv)) (Server_send_val (snd iv)))\<rparr>,
       rg_values := (rg_values R)(fst iv := rg_values R (fst iv) @ [rg_sent R (fst iv)]),
       rg_sent := (rg_sent R)(fst iv := Suc (rg_sent R (fst iv)))\<rparr>)" (is "ring_next n sizes mode R True ?R'")
proof -
  have i: "fst iv \<in> {1 ..< n}" using assms by (auto simp: ring_inv_def)
  then have "length (rg_values R (fst iv)) + count_list (map fst (iv # q)) (fst iv) \<le> sizes ! fst iv"
    "iprobe (up (rg_sched R) (fst iv)) is_request"
    using assms unfolding ring_inv_def by blast+
  then have "ring_server n sizes mode 0 R = Some (Inr ?R')"
    using assms(2) by (simp add: ring_server_def server_step_def assertE_def Let_def send_value_Inr)
  then show ?thesis by (rule ring_server_step)
qed

lemma first_round_run:
  assumes "ring_inv n sizes R" "srv_pc (rg_sched R) = Srv_first q"
  shows "\<exists>R'. reachable (ring_next n sizes mode) R R' \<and> srv_pc (rg_sched R') = Srv_first [] \<and>
    srv_left (rg_sched R') = srv_left (rg_sched R) \<and> clients (rg_sched R') = clients (rg_sched R) \<and>
    up (rg_sched R') = up (rg_sched R) \<and> rg_requests R' = rg_requests R \<and> rg_answered R' = rg_answered R \<and>
    (\<forall>c. length (rg_values R' c) = length (rg_values R c) + count_list (map fst q) c \<and>
      down (rg_sched R') c = (down (rg_sched R) c)\<lparr>transit := transit (down (rg_sched R) c) @
        map (\<lambda>x. Server_send_val (snd x)) (filter (\<lambda>x. fst x = c) q)\<rparr>)"
  using assms
proof (induction q arbitrary: R)
  case Nil
  show ?case by (rule exI [of _ R]) (use Nil run_here [of "ring_next n sizes mode" R] in auto)
next
  case (Cons iv q)
  note step = first_round_step [OF Cons.prems, of mode]
  let ?R1 = "R\<lparr>rg_sched := (rg_sched R)\<lparr>srv_pc := Srv_first q,
         down := (down (rg_sched R))(fst iv := isend (down (rg_sched R) (fst iv)) (Server_send_val (snd iv)))\<rparr>,
       rg_values := (rg_values R)(fst iv := rg_values R (fst iv) @ [rg_sent R (fst iv)]),
       rg_sent := (rg_sent R)(fst iv := Suc (rg_sent R (fst iv)))\<rparr>"
  have inv: "ring_inv n sizes ?R1" by (rule ring_step_inv [OF Cons.prems(1) step])
  have "reachable (ring_next n sizes mode) R R" using run_here by (intro exI)
  then have to1: "reachable (ring_next n sizes mode) R ?R1" using step by (rule reachable_step)
  obtain R' where R': "reachable (ring_next n sizes mode) ?R1 R'" "srv_pc (rg_sched R') = Srv_first []"
    "srv_left (rg_sched R') = srv_left (rg_sched ?R1)" "clients (rg_sched R') = clients (rg_sched ?R1)"
    "up (rg_sched R') = up (rg_sched ?R1)" "rg_requests R' = rg_requests ?R1" "rg_answered R' = rg_answered ?R1"
    "\<forall>c. length (rg_values R' c) = length (rg_values ?R1 c) + count_list (map fst q) c \<and>
      down (rg_sched R') c = (down (rg_sched ?R1) c)\<lparr>transit := transit (down (rg_sched ?R1) c) @
        map (\<lambda>x. Server_send_val (snd x)) (filter (\<lambda>x. fst x = c) q)\<rparr>"
    using Cons.IH [OF inv] by auto
  have "reachable (ring_next n sizes mode) R R'" using to1 R'(1) by (rule reachable_trans)
  then show ?case
    using R'(2-8) by (intro exI [of _ R']) (simp add: isend_def)
qed

text \<open>Behind the first round: all rings are full, no value is delivered and no request received.\<close>

lemma first_round_full:
  assumes "rings_sized n sizes" "ring_start n sizes vs = Some R0" "c \<in> {1 ..< n}"
    and "length (round_robin n sizes) < length vs"
  obtains R v ts where "reachable (ring_next n sizes mode) R0 R" "srv_pc (rg_sched R) = Srv_first []"
    "srv_left (rg_sched R) \<noteq> []" "length (rg_values R c) = sizes ! c"
    "clients (rg_sched R) c = \<lparr>cl_pc = Cl_while, m_leader_gen_finished = False, got = []\<rparr>"
    "down (rg_sched R) c = \<lparr>inbox = [], transit = Server_send_val v # ts\<rparr>"
    "up (rg_sched R) c = \<lparr>inbox = replicate (sizes ! c) Client_request_val, transit = []\<rparr>"
    "rg_requests R c = [0 ..< sizes ! c]" "rg_answered R c = 0"
proof -
  let ?q = "zip (round_robin n sizes) vs"
  have ok: "length sizes = n" "0 < sizes ! c" using assms(1,3) by (simp_all add: rings_sized_def sizes_ok_def)
  have "map fst ?q = round_robin n sizes" using assms(4) by (simp add: map_fst_zip_take)
  then have count: "count_list (map fst ?q) c = sizes ! c" using round_robin_count [OF ok(1) assms(3)] by simp
  then have "c \<in> set (map fst ?q)" using ok(2) by (metis count_list_0_iff neq0_conv)
  then have "filter (\<lambda>x. fst x = c) ?q \<noteq> []" by (auto simp: filter_empty_conv)
  then obtain x xs where x: "filter (\<lambda>x. fst x = c) ?q = x # xs" by (cases "filter (\<lambda>x. fst x = c) ?q") auto
  note start = ring_start_inv [OF assms(1,2)]
  obtain R where R: "reachable (ring_next n sizes mode) R0 R" "srv_pc (rg_sched R) = Srv_first []"
    "srv_left (rg_sched R) = srv_left (rg_sched R0)" "clients (rg_sched R) = clients (rg_sched R0)"
    "up (rg_sched R) = up (rg_sched R0)" "rg_requests R = rg_requests R0" "rg_answered R = rg_answered R0"
    "\<forall>c. length (rg_values R c) = length (rg_values R0 c) + count_list (map fst ?q) c \<and>
      down (rg_sched R) c = (down (rg_sched R0) c)\<lparr>transit := transit (down (rg_sched R0) c) @
        map (\<lambda>x. Server_send_val (snd x)) (filter (\<lambda>x. fst x = c) ?q)\<rparr>"
    using first_round_run [of n sizes R0 ?q mode] start by blast
  show thesis
    by (rule that [OF R(1,2)]) (use R(3-8) start count x assms(4) in simp_all)
qed

text \<open>
  C17. When MPI reports a send as complete only once it is received, as it may, the assertions fail: behind
  the first round, which answers requests without receiving them, the root finds the ring of a rank full
  when it answers that rank's first request again; and a client that receives its first value finds its
  oldest request incomplete. (Without assertions the root's push drops the handle of a send that is not
  complete.)
\<close>

theorem rings_overflow:
  assumes "rings_sized n sizes" "ring_start n sizes vs = Some R0" "c \<in> {1 ..< n}"
    and "length (round_robin n sizes) < length vs"
  shows "(\<exists>R. reachable (ring_next n sizes When_received) R0 R \<and>
      ring_server n sizes When_received c R = Some (Inl AssertFailed)) \<and>
    (\<exists>R. reachable (ring_next n sizes When_received) R0 R \<and>
      ring_client When_received c R = Some (True, Inl AssertFailed))"
proof
  let ?next = "ring_next n sizes When_received"
  obtain R v ts where R: "reachable ?next R0 R" "srv_pc (rg_sched R) = Srv_first []"
    "srv_left (rg_sched R) \<noteq> []" "length (rg_values R c) = sizes ! c"
    "clients (rg_sched R) c = \<lparr>cl_pc = Cl_while, m_leader_gen_finished = False, got = []\<rparr>"
    "down (rg_sched R) c = \<lparr>inbox = [], transit = Server_send_val v # ts\<rparr>"
    "up (rg_sched R) c = \<lparr>inbox = replicate (sizes ! c) Client_request_val, transit = []\<rparr>"
    "rg_requests R c = [0 ..< sizes ! c]" "rg_answered R c = 0"
    by (rule first_round_full [OF assms])
  have pos: "0 < sizes ! c" using assms(1,3) by (simp add: rings_sized_def)
  have rep: "replicate (sizes ! c) Client_request_val = Client_request_val # replicate (sizes ! c - 1) Client_request_val"
    using pos by (metis Suc_pred' replicate_Suc)
  let ?H = "R\<lparr>rg_sched := (rg_sched R)\<lparr>srv_pc := Srv_handle\<rparr>\<rparr>"
  have "ring_server n sizes When_received 0 R = Some (Inr ?H)"
    using R(2) by (simp add: ring_server_def server_step_def)
  then have "?next R True ?H" by (rule ring_server_step)
  with R(1) have H: "reachable ?next R0 ?H" by (rule reachable_step)
  have visible: "iprobe_any n (rg_sched ?H)"
    unfolding iprobe_any_def list_ex_iff using assms(3) R(7) rep by (intro bexI [of _ c]) (simp_all add: iprobe_def)
  have kept: "dropWhile (value_done When_received ?H c) (rg_values ?H c) = rg_values ?H c"
    using R(5) by (cases "rg_values R c") (simp_all add: value_done_def)
  have "\<exists>t. server_step n c (rg_sched ?H) = Some t"
    using R(3,7) rep visible assms(3)
    by (simp add: server_step_def handle_client_request_def recv_def split: list.splits)
  then have "ring_server n sizes When_received c ?H = Some (Inl AssertFailed)"
    using R(3,4) visible kept by (auto simp: ring_server_def send_value_def push_request_def assertE_def bindE_def)
  with H show "\<exists>R. reachable ?next R0 R \<and> ring_server n sizes When_received c R = Some (Inl AssertFailed)" by blast
  let ?D = "R\<lparr>rg_sched := (rg_sched R)\<lparr>down := (down (rg_sched R))(c := \<lparr>inbox = [Server_send_val v], transit = ts\<rparr>)\<rparr>\<rparr>"
  let ?C = "?D\<lparr>rg_sched := (rg_sched ?D)\<lparr>clients := (clients (rg_sched ?D))(c := (clients (rg_sched R) c)\<lparr>cl_pc := Cl_recv\<rparr>)\<rparr>\<rparr>"
  have "?next R True ?D" using ring_deliver_down [OF assms(3) R(6)] by simp
  with R(1) have D: "reachable ?next R0 ?D" by (rule reachable_step)
  have "ring_client When_received c ?D = Some (True, Inr ?C)"
    using R(5) by (simp add: ring_client_def client_step_def has_val_in_buffer_def iprobe_def)
  then have "?next ?D True ?C" using ring_client_step [OF assms(3)] by blast
  with D have C: "reachable ?next R0 ?C" by (rule reachable_step)
  have "rg_requests R c = 0 # [1 ..< sizes ! c]" using R(8) pos by (simp add: upt_conv_Cons)
  then have "ring_client When_received c ?C = Some (True, Inl AssertFailed)"
    using R(5,9) by (simp add: ring_client_def client_step_def recv_def assertE_def request_done_def)
  with C show "\<exists>R. reachable ?next R0 R \<and> ring_client When_received c R = Some (True, Inl AssertFailed)" by blast
qed

section \<open>Witnesses\<close>

lemma demo_rings: "rings_sized 2 [0, 1]" "\<exists>R. ring_start 2 [0, 1] ''abc'' = Some R" "length (round_robin 2 [0, 1]) = 1"
proof -
  show "rings_sized 2 [0, 1]" by (auto simp: rings_sized_def sizes_ok_def)
  have "Max (set [0, 1 :: nat]) = 1" by simp
  then show "length (round_robin 2 [0, 1]) = 1" by (simp add: round_robin_def round_ranks_def upt_rec numeral_2_eq_2)
  show "\<exists>R. ring_start 2 [0, 1] ''abc'' = Some R"
    by (simp add: ring_start_def sched_start_def first_time_round_robin)
qed

theorem rings_suffice_witness:
  "\<exists>R. ring_start 2 [0, 1] ''abc'' = Some R \<and> length (rg_requests R 1) = 1 \<and>
    (\<forall>b r. ring_step 2 [0, 1] At_once R b r \<longrightarrow> (\<exists>R'. r = Inr R'))"
proof -
  obtain R where R: "ring_start 2 [0, 1] ''abc'' = Some R" using demo_rings(2) by blast
  have "reachable (ring_next 2 [0, 1] At_once) R R" using run_here by (intro exI)
  from rings_suffice [OF demo_rings(1) R this] show ?thesis using R by (force simp: numeral_2_eq_2)
qed

theorem rings_overflow_witness:
  "\<exists>R0 R. ring_start 2 [0, 1] ''abc'' = Some R0 \<and> reachable (ring_next 2 [0, 1] When_received) R0 R \<and>
    ring_server 2 [0, 1] When_received 1 R = Some (Inl AssertFailed)"
proof -
  obtain R where R: "ring_start 2 [0, 1] ''abc'' = Some R" using demo_rings(2) by blast
  have "1 \<in> {1 ..< 2 :: nat}" "length (round_robin 2 [0, 1]) < length ''abc''" using demo_rings(3) by simp_all
  from rings_overflow [OF demo_rings(1) R this] show ?thesis using R by blast
qed

end
