(* ===== verification/Task_Iterator.thy ===== *)
theory Task_Iterator
  imports Gss_Collapse
begin

text \<open>
  The scheduler object of the C binding (\<^verbatim>\<open>c_dynamic_schedule_binding.cc\<close>) and of the Fortran binding
  (\<^verbatim>\<open>fortran_dynamic_schedule_binding.cc\<close>): a task generator as an input iterator, behind the
  \<^verbatim>\<open>single_rank_handler\<close> of \<^verbatim>\<open>dynamic_schedule.h\<close>, which runs a loop on a communicator of one rank. (With
  more ranks the handlers are those of \<open>Dynamic_Schedule\<close>.)

  The locale \<open>task_source\<close> is the interface of everything tasks are taken from one by one: a
  generator, and a scheduler object under the critical section of a parallel loop.
\<close>

section \<open>Sources of tasks\<close>

text \<open>What one thread gets that takes tasks until there are none; \<open>None\<close> when that never happens.\<close>

partial_function (option) collect :: "('s \<Rightarrow> ('v option \<times> 's) result) \<Rightarrow> 's \<Rightarrow> 'v list result option" where
  "collect take_next s =
     (case take_next s of
        Inl e \<Rightarrow> Some (Inl e)
      | Inr r \<Rightarrow>
          (case fst r of
             None \<Rightarrow> Some (Inr [])
           | Some v \<Rightarrow> Option.bind (collect take_next (snd r)) (\<lambda>vs. Some (bindE vs (\<lambda>vs. Inr (v # vs))))))"

locale task_source =
  fixes take_next :: "'s \<Rightarrow> ('v option \<times> 's) result"
    and source_ok :: "'s \<Rightarrow> bool"
    and tasks_left :: "'s \<Rightarrow> 'v list"
  assumes take_end: "source_ok s \<Longrightarrow> tasks_left s = [] \<Longrightarrow>
      \<exists>s'. take_next s = Inr (None, s') \<and> source_ok s' \<and> tasks_left s' = []"
    and take_task: "source_ok s \<Longrightarrow> tasks_left s = v # vs \<Longrightarrow>
      \<exists>s'. take_next s = Inr (Some v, s') \<and> source_ok s' \<and> tasks_left s' = vs"
begin

lemma take_cases:
  assumes "source_ok s"
  obtains s' where "take_next s = Inr (None, s')" "source_ok s'" "tasks_left s = []" "tasks_left s' = []"
    | v s' where "take_next s = Inr (Some v, s')" "source_ok s'" "tasks_left s = v # tasks_left s'"
  using take_end [OF assms] take_task [OF assms] by (cases "tasks_left s") auto

lemma collect_all: "source_ok s \<Longrightarrow> collect take_next s = Some (Inr (tasks_left s))"
proof (induction "tasks_left s" arbitrary: s)
  case Nil
  then show ?case using take_end [of s] by (auto simp: collect.simps [of take_next s])
next
  case (Cons v vs)
  obtain s' where "take_next s = Inr (Some v, s')" "source_ok s'" "tasks_left s' = vs"
    using take_task [of s v vs] Cons by auto
  then show ?case using Cons by (simp add: collect.simps [of take_next s])
qed

end

section \<open>The iterator of the C binding\<close>

text \<open>A generator returns \<open>None\<close> when it is done (its \<^verbatim>\<open>true\<close>), and leaves the buffer alone.\<close>

type_synonym ('s, 'v) generator = "'s \<Rightarrow> ('v option \<times> 's) result"

record ('s, 'v) c_iterator =
  ci_buffer :: 'v
  ci_state :: 's
  ci_done :: bool

definition c_iterator_call :: "('s, 'v) generator \<Rightarrow> ('s, 'v) c_iterator \<Rightarrow> ('s, 'v) c_iterator result" where
  "c_iterator_call gen it =
     (case gen (ci_state it) of
        Inl e \<Rightarrow> Inl e
      | Inr (None, st) \<Rightarrow> Inr (it\<lparr>ci_state := st, ci_done := True\<rparr>)
      | Inr (Some v, st) \<Rightarrow> Inr \<lparr>ci_buffer = v, ci_state = st, ci_done = False\<rparr>)"

text \<open>\<open>buf0\<close> is the value-initialised buffer.\<close>

definition c_iterator_begin :: "('s, 'v) generator \<Rightarrow> 'v \<Rightarrow> 's \<Rightarrow> ('s, 'v) c_iterator result" where
  "c_iterator_begin gen buf0 st = c_iterator_call gen \<lparr>ci_buffer = buf0, ci_state = st, ci_done = False\<rparr>"

section \<open>\<open>single_rank_handler\<close> and the scheduler object\<close>

definition single_done :: "('s, 'v) c_iterator \<Rightarrow> bool" where
  "single_done it = ci_done it"

definition single_get_value :: "('s, 'v) c_iterator \<Rightarrow> 'v" where
  "single_get_value it = ci_buffer it"

definition single_next :: "('s, 'v) generator \<Rightarrow> ('s, 'v) c_iterator \<Rightarrow> ('s, 'v) c_iterator result" where
  "single_next gen it = c_iterator_call gen it"

record ('s, 'v) s_p_dynamic_schedule =
  sd_buffer_size :: nat
  sd_iter :: "('s, 'v) c_iterator"

text \<open>A buffer size of 0 stands for \<^verbatim>\<open>std::thread::hardware_concurrency()\<close>.\<close>

definition s_p_new_dynamic_schedule ::
  "nat \<Rightarrow> ('s, 'v) generator \<Rightarrow> 'v \<Rightarrow> 's \<Rightarrow> nat \<Rightarrow> ('s, 'v) s_p_dynamic_schedule result" where
  "s_p_new_dynamic_schedule hardware_concurrency gen buf0 st buffer_size =
     bindE (c_iterator_begin gen buf0 st) (\<lambda>it.
       Inr \<lparr>sd_buffer_size = (if buffer_size = 0 then hardware_concurrency else buffer_size), sd_iter = it\<rparr>)"

definition s_p_get_buffer :: "('s, 'v) s_p_dynamic_schedule \<Rightarrow> 'v" where
  "s_p_get_buffer d = single_get_value (sd_iter d)"

definition s_p_done :: "('s, 'v) s_p_dynamic_schedule \<Rightarrow> bool" where
  "s_p_done d = single_done (sd_iter d)"

definition s_p_next :: "('s, 'v) generator \<Rightarrow> ('s, 'v) s_p_dynamic_schedule \<Rightarrow> ('s, 'v) s_p_dynamic_schedule result" where
  "s_p_next gen d = bindE (single_next gen (sd_iter d)) (\<lambda>it. Inr (d\<lparr>sd_iter := it\<rparr>))"

text \<open>The critical section \<^verbatim>\<open>_s_p_scheduler_gen\<close> of the parallel loops.\<close>

definition critical_take ::
  "('s, 'v) generator \<Rightarrow> ('s, 'v) s_p_dynamic_schedule \<Rightarrow> ('v option \<times> ('s, 'v) s_p_dynamic_schedule) result" where
  "critical_take gen d =
     (if s_p_done d then Inr (None, d)
      else let v = s_p_get_buffer d in bindE (s_p_next gen d) (\<lambda>d'. Inr (Some v, d')))"

section \<open>A scheduler object is a source of the generator's tasks\<close>

definition schedule_left :: "('s \<Rightarrow> 'v list) \<Rightarrow> ('s, 'v) s_p_dynamic_schedule \<Rightarrow> 'v list" where
  "schedule_left left d = (if s_p_done d then [] else s_p_get_buffer d # left (ci_state (sd_iter d)))"

definition schedule_ok :: "('s \<Rightarrow> bool) \<Rightarrow> ('s, 'v) s_p_dynamic_schedule \<Rightarrow> bool" where
  "schedule_ok ok d = ok (ci_state (sd_iter d))"

locale iterated_generator = task_source gen ok left
  for gen :: "('s, 'v) generator" and ok left
begin

lemma call_ok:
  assumes "ok (ci_state it)"
  obtains it' where "c_iterator_call gen it = Inr it'" "ok (ci_state it')"
    "(if ci_done it' then [] else ci_buffer it' # left (ci_state it')) = left (ci_state it)"
  using assms by (cases rule: take_cases) (auto simp: c_iterator_call_def)

lemma new_schedule:
  assumes "ok st"
  obtains d where "s_p_new_dynamic_schedule hc gen buf0 st n = Inr d" "schedule_ok ok d" "schedule_left left d = left st"
proof -
  let ?it = "\<lparr>ci_buffer = buf0, ci_state = st, ci_done = False\<rparr>"
  obtain it where "c_iterator_call gen ?it = Inr it" "ok (ci_state it)"
    "(if ci_done it then [] else ci_buffer it # left (ci_state it)) = left st"
    using call_ok [of ?it] assms by auto
  then show thesis
    by (intro that [of "\<lparr>sd_buffer_size = (if n = 0 then hc else n), sd_iter = it\<rparr>"])
      (simp_all add: s_p_new_dynamic_schedule_def c_iterator_begin_def schedule_ok_def schedule_left_def
        s_p_done_def s_p_get_buffer_def single_done_def single_get_value_def split: if_splits)
qed

end

sublocale iterated_generator \<subseteq> scheduled: task_source "critical_take gen" "schedule_ok ok" "schedule_left left"
proof
  fix d :: "('s, 'v) s_p_dynamic_schedule"
  assume "schedule_ok ok d" "schedule_left left d = []"
  then show "\<exists>d'. critical_take gen d = Inr (None, d') \<and> schedule_ok ok d' \<and> schedule_left left d' = []"
    by (simp add: critical_take_def schedule_left_def split: if_splits)
next
  fix d :: "('s, 'v) s_p_dynamic_schedule" and v vs
  assume d: "schedule_ok ok d" "schedule_left left d = v # vs"
  then have v: "\<not> s_p_done d" "v = s_p_get_buffer d" "left (ci_state (sd_iter d)) = vs"
    by (auto simp: schedule_left_def split: if_splits)
  obtain it where "c_iterator_call gen (sd_iter d) = Inr it" "ok (ci_state it)"
    "(if ci_done it then [] else ci_buffer it # left (ci_state it)) = vs"
    using call_ok [of "sd_iter d"] d(1) v(3) by (auto simp: schedule_ok_def)
  then show "\<exists>d'. critical_take gen d = Inr (Some v, d') \<and> schedule_ok ok d' \<and> schedule_left left d' = vs"
    using v by (simp add: critical_take_def s_p_next_def single_next_def schedule_ok_def schedule_left_def
        s_p_done_def s_p_get_buffer_def single_done_def single_get_value_def split: if_splits)
qed

section \<open>The guided generators are sources\<close>

definition gss_ok :: "s_p_gss_state \<Rightarrow> bool" where
  "gss_ok st \<longleftrightarrow> gss_process_count st \<noteq> 0 \<and> gss_current st \<le> gss_end st"

definition gss_tasks :: "s_p_gss_state \<Rightarrow> s_p_simple_task list" where
  "gss_tasks st = (case gss_run st of Inl e \<Rightarrow> [] | Inr ts \<Rightarrow> ts)"

lemma gss_generator_ok:
  assumes "gss_ok st" "s_p_gss_generator st = Inr (r, st')"
  shows "gss_ok st'"
proof -
  let ?r = "gss_end st - gss_current st"
  let ?n = "gss_next (gss_process_count st) (gss_grain_size st) ?r"
  have "unat ?r = unat (gss_end st) - unat (gss_current st)"
    using assms(1) by (intro unat_sub_nw) (simp add: gss_ok_def word_le_nat_alt)
  then have n: "unat (gss_current st) + unat ?n \<le> unat (gss_end st)"
    using gss_next_le [of "gss_process_count st" "gss_grain_size st" ?r] assms(1)
    unfolding gss_ok_def word_le_nat_alt by linarith
  moreover have "unat (gss_current st + ?n) = unat (gss_current st) + unat ?n"
    using n unat_less_2p64 [of "gss_end st"] by (intro unat_add_nw) linarith
  ultimately have "gss_current st + ?n \<le> gss_end st" by (simp add: word_le_nat_alt)
  then show ?thesis
    using assms by (auto simp: s_p_gss_generator_def Let_def gss_ok_def split: if_splits)
qed

lemma gss_run_ok: "gss_ok st \<Longrightarrow> \<exists>ts. gss_run st = Inr ts"
  using gss_run_tiles [of st "unat (gss_current st)" "unat (gss_end st) - unat (gss_current st)"]
  by (simp add: gss_ok_def word_le_nat_alt)

lemma gss_generator_total:
  assumes "gss_ok st"
  obtains r st' where "s_p_gss_generator st = Inr (r, st')"
  using assms by (cases "gss_end st - gss_current st = 0") (auto simp: s_p_gss_generator_def gss_ok_def Let_def)

interpretation gss_source: iterated_generator s_p_gss_generator gss_ok gss_tasks
proof
  fix st
  assume ok: "gss_ok st" and e: "gss_tasks st = []"
  obtain r st' where g: "s_p_gss_generator st = Inr (r, st')"
    using gss_generator_total [OF ok] .
  have "r = None"
    using gss_run_ok [OF gss_generator_ok [OF ok g]] e g
    by (cases r) (auto simp: gss_tasks_def gss_run.simps [of st])
  then have "st' = st" using g by (auto simp: s_p_gss_generator_def Let_def split: if_splits)
  then show "\<exists>st'. s_p_gss_generator st = Inr (None, st') \<and> gss_ok st' \<and> gss_tasks st' = []"
    using g \<open>r = None\<close> ok e by simp
next
  fix st v vs
  assume ok: "gss_ok st" and e: "gss_tasks st = v # vs"
  obtain r st' where g: "s_p_gss_generator st = Inr (r, st')"
    using gss_generator_total [OF ok] .
  have ok': "gss_ok st'" by (rule gss_generator_ok [OF ok g])
  obtain ts where ts: "gss_run st' = Inr ts" using gss_run_ok [OF ok'] by blast
  have "r = Some v \<and> ts = vs"
    using e g ts by (cases r) (auto simp: gss_tasks_def gss_run.simps [of st])
  then show "\<exists>st'. s_p_gss_generator st = Inr (Some v, st') \<and> gss_ok st' \<and> gss_tasks st' = vs"
    using g ok' ts by (simp add: gss_tasks_def)
qed

text \<open>The generator of a collapsed double loop, on the way from point \<open>k\<close> to the last one.\<close>

definition c2_ok :: "'g s_p_collapse_2_gss_state \<Rightarrow> bool" where
  "c2_ok st \<longleftrightarrow> (\<exists>pt N k. c2_walks st pt N \<and> at_point st pt k (N - k) \<and> k \<le> N)"

definition c2_tasks :: "'g s_p_collapse_2_gss_state \<Rightarrow> s_p_collapse_2_task list" where
  "c2_tasks st = (case collapse_2_run st of Some (Inr ts) \<Rightarrow> ts | _ \<Rightarrow> [])"

lemma c2_generator_cases:
  assumes "c2_ok st"
  obtains "s_p_collapse_2_gss_generator st = Inr (None, st)" "c2_tasks st = []"
    | t st' where "s_p_collapse_2_gss_generator st = Inr (Some t, st')" "c2_ok st'" "c2_tasks st = t # c2_tasks st'"
proof -
  obtain pt N k where w: "c2_walks st pt N" "at_point st pt k (N - k)" "k \<le> N" using assms by (auto simp: c2_ok_def)
  show thesis
  proof (cases "k = N")
    case True
    then have "s_p_collapse_2_gss_generator st = Inr (None, st)"
      using w by (simp add: s_p_collapse_2_gss_generator_def at_point_def walks_def)
    then show thesis using that(1) by (simp add: c2_tasks_def collapse_2_run.simps [of st])
  next
    case False
    then have k: "k < N" "0 < N - k" using w(3) by auto
    obtain c st' where s: "s_p_collapse_2_gss_generator st = Inr (Some \<lparr>ij_begin = pt k, ij_end = pt (k + c)\<rparr>, st')"
      "at_point st' pt (k + c) (N - k - c)" "c \<le> N - k"
      "c2_gen_func st' = c2_gen_func st" "c2_gen_func_state st' = c2_gen_func_state st" "c2_end st' = c2_end st"
      using collapse_2_step [OF w(1,2) k] by metis
    have w': "c2_walks st' pt N" "at_point st' pt (k + c) (N - (k + c))" "k + c \<le> N" using s w k by simp_all
    obtain ts where "collapse_2_run st' = Some (Inr ts)" using collapse_2_run_walk [OF w'] by blast
    then have "c2_tasks st = \<lparr>ij_begin = pt k, ij_end = pt (k + c)\<rparr> # c2_tasks st'"
      using collapse_2_run_some [OF s(1)] by (simp add: c2_tasks_def)
    moreover have "c2_ok st'" unfolding c2_ok_def using w' by blast
    ultimately show thesis using that(2) s(1) by blast
  qed
qed

interpretation c2_source: iterated_generator s_p_collapse_2_gss_generator c2_ok c2_tasks
proof
  fix st :: "'a s_p_collapse_2_gss_state"
  assume a: "c2_ok st" "c2_tasks st = []"
  show "\<exists>st'. s_p_collapse_2_gss_generator st = Inr (None, st') \<and> c2_ok st' \<and> c2_tasks st' = []"
    using a by (cases rule: c2_generator_cases [OF a(1)]) auto
next
  fix st :: "'a s_p_collapse_2_gss_state" and v vs
  assume "c2_ok st" "c2_tasks st = v # vs"
  then show "\<exists>st'. s_p_collapse_2_gss_generator st = Inr (Some v, st') \<and> c2_ok st' \<and> c2_tasks st' = vs"
    by (cases rule: c2_generator_cases) auto
qed

end
