(* ===== verification/Par_For.thy ===== *)
theory Par_For
  imports Task_Iterator Protocol "HOL-Library.Multiset"
begin

text \<open>
  The parallel loops of the C binding (the \<^verbatim>\<open>S_P_GSS_UINT64_T_PAR_FOR\<close> macros of
  \<^verbatim>\<open>c_dynamic_schedule_binding.h\<close>): a team of OpenMP threads takes tasks from one scheduler object in a
  critical section, runs them outside of it, and the last thread that leaves deletes the object. The
  threads' steps interleave freely. The block that \<^verbatim>\<open>single\<close> runs is behind the initial state.
\<close>

section \<open>The team\<close>

datatype 'v thread = Looping | Running 'v | Leaving | Left_loop

text \<open>
  \<open>tm_count\<close> is the variable behind \<^verbatim>\<open>_num_threads_count_ptr\<close>, a local variable of the thread \<open>tm_owner\<close>
  that ran the \<^verbatim>\<open>single\<close> block; \<open>tm_deleted\<close> counts the calls of \<^verbatim>\<open>s_p_delete_dynamic_schedule\<close> and
  \<open>tm_runs\<close> records which thread has run which task.
\<close>

record ('s, 'v) team =
  tm_scheduler :: 's
  tm_threads :: "'v thread list"
  tm_count :: int
  tm_owner :: nat
  tm_deleted :: nat
  tm_runs :: "(nat \<times> 'v) list"

text \<open>A team of \<open>Suc k\<close> threads after the \<^verbatim>\<open>single\<close> block, which thread 0 to \<open>k\<close> may have run.\<close>

definition team_start :: "nat \<Rightarrow> nat \<Rightarrow> 's \<Rightarrow> ('s, 'v) team" where
  "team_start k owner d =
     \<lparr>tm_scheduler = d, tm_threads = replicate (Suc k) Looping, tm_count = int (Suc k), tm_owner = owner,
      tm_deleted = 0, tm_runs = []\<rparr>"

text \<open>The critical section behind the loop.\<close>

definition leave_loop :: "nat \<Rightarrow> ('s, 'v) team \<Rightarrow> ('s, 'v) team" where
  "leave_loop i s =
     (let c = tm_count s - 1
      in s\<lparr>tm_threads := (tm_threads s)[i := Left_loop], tm_count := c,
           tm_deleted := (if c = 0 then tm_deleted s + 1 else tm_deleted s)\<rparr>)"

inductive team_step ::
  "('s \<Rightarrow> ('v option \<times> 's) result) \<Rightarrow> ('s, 'v) team \<Rightarrow> bool \<Rightarrow> ('s, 'v) team \<Rightarrow> bool"
  for critical :: "'s \<Rightarrow> ('v option \<times> 's) result" where
  Take:
    "i < length (tm_threads s) \<Longrightarrow> tm_threads s ! i = Looping \<Longrightarrow> critical (tm_scheduler s) = Inr (Some v, d) \<Longrightarrow>
     team_step critical s True (s\<lparr>tm_scheduler := d, tm_threads := (tm_threads s)[i := Running v]\<rparr>)"
| Stop:
    "i < length (tm_threads s) \<Longrightarrow> tm_threads s ! i = Looping \<Longrightarrow> critical (tm_scheduler s) = Inr (None, d) \<Longrightarrow>
     team_step critical s True (s\<lparr>tm_scheduler := d, tm_threads := (tm_threads s)[i := Leaving]\<rparr>)"
| Work:
    "i < length (tm_threads s) \<Longrightarrow> tm_threads s ! i = Running v \<Longrightarrow>
     team_step critical s True (s\<lparr>tm_threads := (tm_threads s)[i := Looping], tm_runs := tm_runs s @ [(i, v)]\<rparr>)"
| Leave:
    "i < length (tm_threads s) \<Longrightarrow> tm_threads s ! i = Leaving \<Longrightarrow> team_step critical s True (leave_loop i s)"

inductive_cases team_stepE: "team_step critical s b t"

definition all_left :: "('s, 'v) team \<Rightarrow> bool" where
  "all_left s \<longleftrightarrow> (\<forall>t \<in> set (tm_threads s). t = Left_loop)"

section \<open>Sums over threads\<close>

fun running :: "'v thread \<Rightarrow> 'v multiset" where
  "running (Running v) = {#v#}"
| "running t = {#}"

fun present :: "'v thread \<Rightarrow> nat" where
  "present Left_loop = 0"
| "present t = 1"

fun weight :: "'v thread \<Rightarrow> nat" where
  "weight Looping = 2"
| "weight (Running v) = 3"
| "weight Leaving = 1"
| "weight Left_loop = 0"

fun outside :: "'v thread \<Rightarrow> bool" where
  "outside Leaving = True"
| "outside Left_loop = True"
| "outside t = False"

lemma sum_thread_update:
  fixes f :: "'a \<Rightarrow> 'b :: comm_monoid_add"
  assumes "i < length xs"
  shows "f (xs ! i) + sum_list (map f (xs[i := x])) = f x + sum_list (map f xs)"
  using assms
proof (induction xs arbitrary: i)
  case (Cons y ys)
  then show ?case by (cases i) (simp_all add: algebra_simps)
qed simp

lemma present_0: "sum_list (map present ts) = 0 \<longleftrightarrow> (\<forall>t \<in> set ts. t = Left_loop)"
proof (induction ts)
  case (Cons t ts)
  then show ?case by (cases t) auto
qed simp

lemma running_left: "\<forall>t \<in> set ts. t = Left_loop \<Longrightarrow> sum_list (map running ts) = {#}"
  by (induction ts) auto

lemma running_replicate: "sum_list (map running (replicate k Looping)) = {#}"
  by (induction k) simp_all

lemma present_replicate: "sum_list (map present (replicate k Looping)) = k"
  by (induction k) simp_all

lemma outside_update:
  "\<exists>t \<in> set (ts[i := x]). outside t \<Longrightarrow> \<not> outside x \<Longrightarrow> \<exists>t \<in> set ts. outside t"
  using set_update_subset_insert [of ts i x] by auto

section \<open>Any team on any source of tasks\<close>

locale team = task_source critical ok left
  for critical :: "'s \<Rightarrow> ('v option \<times> 's) result" and ok left +
  fixes tasks :: "'v list" and k owner :: nat
begin

definition starts :: "('s, 'v) team \<Rightarrow> bool" where
  "starts s \<longleftrightarrow> (\<exists>d. s = team_start k owner d \<and> ok d \<and> left d = tasks)"

definition inv :: "('s, 'v) team \<Rightarrow> bool" where
  "inv s \<longleftrightarrow> length (tm_threads s) = Suc k \<and> ok (tm_scheduler s) \<and>
     mset (map snd (tm_runs s)) + sum_list (map running (tm_threads s)) + mset (left (tm_scheduler s)) = mset tasks \<and>
     ((\<exists>t \<in> set (tm_threads s). outside t) \<longrightarrow> left (tm_scheduler s) = []) \<and>
     tm_count s = int (sum_list (map present (tm_threads s))) \<and>
     tm_deleted s = (if sum_list (map present (tm_threads s)) = 0 then 1 else 0)"

definition steps_left :: "('s, 'v) team \<Rightarrow> nat" where
  "steps_left s = 2 * length (left (tm_scheduler s)) + sum_list (map weight (tm_threads s))"

lemma starts_inv: "starts s \<Longrightarrow> inv s"
  by (auto simp: starts_def inv_def team_start_def running_replicate present_replicate
      simp del: map_replicate replicate.simps(2))

lemma inv_source: "inv s \<Longrightarrow> ok (tm_scheduler s)"
  by (simp add: inv_def)

lemma step_progress:
  assumes "inv s" "team_step critical s b t"
  shows "inv t \<and> b \<and> steps_left t < steps_left s"
  using assms(2)
proof (cases rule: team_step.cases)
  case (Take i v d)
  have l: "left (tm_scheduler s) = v # left d" "ok d"
    using take_cases [OF inv_source [OF assms(1)]] Take(5) by (metis Inr_inject Pair_inject option.distinct(1) option.inject)+
  show ?thesis
    using assms(1) l Take outside_update [of "tm_threads s" i "Running v"]
      sum_thread_update [of i "tm_threads s" running "Running v"] sum_thread_update [of i "tm_threads s" present "Running v"]
      sum_thread_update [of i "tm_threads s" weight "Running v"]
    by (auto simp: inv_def steps_left_def)
next
  case (Stop i d)
  have l: "left (tm_scheduler s) = []" "left d = []" "ok d"
    using take_cases [OF inv_source [OF assms(1)]] Stop(5) by (metis Inr_inject Pair_inject option.distinct(1))+
  show ?thesis
    using assms(1) l Stop
      sum_thread_update [of i "tm_threads s" running Leaving] sum_thread_update [of i "tm_threads s" present Leaving]
      sum_thread_update [of i "tm_threads s" weight Leaving]
    by (auto simp: inv_def steps_left_def)
next
  case (Work i v)
  have r: "sum_list (map running (tm_threads s)) = add_mset v (sum_list (map running ((tm_threads s)[i := Looping])))"
    using sum_thread_update [of i "tm_threads s" running Looping] Work by simp
  show ?thesis
    using assms(1) Work r outside_update [of "tm_threads s" i Looping]
      sum_thread_update [of i "tm_threads s" present Looping]
      sum_thread_update [of i "tm_threads s" weight Looping]
    by (auto simp: inv_def steps_left_def ac_simps)
next
  case (Leave i)
  have "outside (tm_threads s ! i)" "tm_threads s ! i \<in> set (tm_threads s)"
    using Leave nth_mem by (simp, blast)
  then have l: "left (tm_scheduler s) = []" using assms(1) by (auto simp: inv_def)
  show ?thesis
    using assms(1) Leave l
      sum_thread_update [of i "tm_threads s" running Left_loop] sum_thread_update [of i "tm_threads s" present Left_loop]
      sum_thread_update [of i "tm_threads s" weight Left_loop]
    by (auto simp: inv_def steps_left_def leave_loop_def Let_def simp del: sum_list_eq_0_iff)
qed

lemma can_step:
  assumes "inv s" "\<not> all_left s"
  shows "\<exists>t. team_step critical s True t"
proof -
  obtain i where i: "i < length (tm_threads s)" "tm_threads s ! i \<noteq> Left_loop"
    using assms(2) by (auto simp: all_left_def in_set_conv_nth)
  show ?thesis
  proof (cases "tm_threads s ! i")
    case Looping
    obtain r d where "critical (tm_scheduler s) = Inr (r, d)"
      by (rule take_cases [OF inv_source [OF assms(1)]])
    then show ?thesis using Take [OF i(1) Looping] Stop [OF i(1) Looping] by (cases r) blast+
  next
    case (Running v)
    show ?thesis using Work [OF i(1) Running] by blast
  next
    case Leaving
    show ?thesis using Leave [OF i(1) Leaving] by blast
  qed (use i in simp)
qed

end

sublocale team \<subseteq> proto: protocol starts "team_step critical" inv all_left steps_left
proof
  fix s t :: "('s, 'v) team"
  show "inv s \<Longrightarrow> team_step critical s False t \<Longrightarrow> steps_left t = steps_left s"
    using step_progress by blast
  show "inv s \<Longrightarrow> \<not> all_left s \<Longrightarrow> \<exists>t u. run (team_step critical) s 0 t \<and> team_step critical t True u"
    using can_step run_here by meson
qed (use starts_inv step_progress in blast)+

context team
begin

lemma runs_below:
  assumes "starts s" "reachable (team_step critical) s t"
  shows "mset (map snd (tm_runs t)) \<subseteq># mset tasks"
  using proto.reachable_inv [OF assms] unfolding inv_def by (metis mset_subset_eq_add_left union_assoc)

lemma deleted_last:
  assumes "starts s" "reachable (team_step critical) s t"
  shows "tm_deleted t = (if all_left t then 1 else 0)"
  using proto.reachable_inv [OF assms] by (simp add: inv_def present_0 all_left_def del: sum_list_eq_0_iff)

lemma all_run:
  assumes "starts s" "reachable (team_step critical) s t" "all_left t"
  shows "mset (map snd (tm_runs t)) = mset tasks"
proof -
  have i: "inv t" by (rule proto.reachable_inv [OF assms(1,2)])
  then have "tm_threads t \<noteq> []" by (auto simp: inv_def)
  then have "\<exists>x \<in> set (tm_threads t). outside x" using assms(3) by (cases "tm_threads t") (auto simp: all_left_def)
  then show ?thesis using i assms(3) running_left [of "tm_threads t"] by (auto simp: inv_def all_left_def)
qed

text \<open>One thread can run all tasks while the others wait, leave first, and be outlived.\<close>

lemma drain:
  assumes "ok (tm_scheduler s)" "i < length (tm_threads s)" "tm_threads s ! i = Looping"
  shows "\<exists>t. reachable (team_step critical) s t \<and> ok (tm_scheduler t) \<and> left (tm_scheduler t) = [] \<and>
    tm_threads t = tm_threads s"
  using assms
proof (induction "left (tm_scheduler s)" arbitrary: s)
  case Nil
  then show ?case using run_here by metis
next
  case (Cons v vs)
  obtain d where d: "critical (tm_scheduler s) = Inr (Some v, d)" "ok d" "left d = vs"
    using take_task [of "tm_scheduler s" v vs] Cons by metis
  let ?u = "s\<lparr>tm_scheduler := d, tm_threads := (tm_threads s)[i := Running v]\<rparr>"
  let ?t = "?u\<lparr>tm_threads := (tm_threads ?u)[i := Looping], tm_runs := tm_runs ?u @ [(i, v)]\<rparr>"
  have same: "tm_threads ?t = tm_threads s" using Cons.prems by (simp add: list_update_same_conv)
  have u: "team_step critical s True ?u" by (rule Take) (use Cons.prems d(1) in simp_all)
  have u2: "team_step critical ?u True ?t" by (rule Work) (use Cons.prems in simp_all)
  have "reachable (team_step critical) s s" using run_here by (intro exI)
  then have "reachable (team_step critical) s ?u" using u by (rule reachable_step)
  then have st: "reachable (team_step critical) s ?t" using u2 by (rule reachable_step)
  obtain x where x: "reachable (team_step critical) ?t x" "ok (tm_scheduler x)" "left (tm_scheduler x) = []"
    "tm_threads x = tm_threads ?t"
    using Cons.hyps(1) [of ?t] d Cons.prems same by auto
  have "reachable (team_step critical) s x" using st x(1) by (rule reachable_trans)
  then show ?case using x(2-4) same by (intro exI [of _ x]) simp
qed

lemma owner_leaves_first:
  assumes "starts s" "i \<le> k" "j \<le> k" "i \<noteq> j"
  shows "\<exists>t. reachable (team_step critical) s t \<and> tm_threads t ! i = Left_loop \<and> tm_threads t ! j = Leaving"
proof -
  have s: "ok (tm_scheduler s)" "tm_threads s = replicate (Suc k) Looping"
    using assms(1) by (auto simp: starts_def team_start_def)
  have ij: "i < length (tm_threads s)" "j < length (tm_threads s)" "tm_threads s ! i = Looping" "tm_threads s ! j = Looping"
    using s assms(2,3) by (simp_all del: replicate.simps)
  obtain t where t: "reachable (team_step critical) s t" "ok (tm_scheduler t)" "left (tm_scheduler t) = []"
    "tm_threads t = tm_threads s"
    using drain [OF s(1) ij(1,3)] by blast
  obtain d where d: "critical (tm_scheduler t) = Inr (None, d)" "ok d" "left d = []" using take_end t(2,3) by blast
  obtain d' where d': "critical d = Inr (None, d')" using take_end d(2,3) by blast
  let ?u = "t\<lparr>tm_scheduler := d, tm_threads := (tm_threads t)[i := Leaving]\<rparr>"
  let ?v = "?u\<lparr>tm_scheduler := d', tm_threads := (tm_threads ?u)[j := Leaving]\<rparr>"
  have "team_step critical t True ?u" by (rule Stop) (use ij t d in simp_all)
  with t(1) have "reachable (team_step critical) s ?u" by (rule reachable_step)
  moreover have "team_step critical ?u True ?v" by (rule Stop) (use ij t d' assms(4) in simp_all)
  ultimately have "reachable (team_step critical) s ?v" by (rule reachable_step)
  moreover have "team_step critical ?v True (leave_loop i ?v)" by (rule Leave) (use ij t assms(4) in simp_all)
  ultimately have "reachable (team_step critical) s (leave_loop i ?v)" by (rule reachable_step)
  moreover have "tm_threads (leave_loop i ?v) ! i = Left_loop" "tm_threads (leave_loop i ?v) ! j = Leaving"
    using ij t(4) assms(4) by (simp_all add: leave_loop_def Let_def)
  ultimately show ?thesis by blast
qed

end

section \<open>What a list of tasks runs\<close>

lemma mset_concat_map: "mset (concat (map f ts)) = (\<Sum>t \<in># mset ts. mset (f t))"
  by (induction ts) simp_all

lemma concat_map_subset: "mset ss \<subseteq># mset ts \<Longrightarrow> mset (concat (map f ss)) \<subseteq># mset (concat (map f ts))"
  unfolding mset_concat_map by (auto simp: mset_subset_eq_exists_conv)

lemma concat_map_eq: "mset ss = mset ts \<Longrightarrow> mset (concat (map f ss)) = mset (concat (map f ts))"
  by (simp only: mset_concat_map)

section \<open>The loop \<open>S_P_GSS_UINT64_T_PAR_FOR\<close>\<close>

interpretation gss_team: team "critical_take s_p_gss_generator" "schedule_ok gss_ok" "schedule_left gss_tasks" tasks k owner
  for tasks k owner
  by unfold_locales

lemma gss_team_starts:
  assumes "gss_ok st"
  obtains d where "s_p_new_dynamic_schedule hc s_p_gss_generator buf0 st n = Inr d"
    "gss_team.starts (gss_tasks st) k owner (team_start k owner d)"
proof -
  obtain d where d: "s_p_new_dynamic_schedule hc s_p_gss_generator buf0 st n = Inr d"
    "schedule_ok gss_ok d" "schedule_left gss_tasks d = gss_tasks st"
    by (rule gss_source.new_schedule [OF assms])
  show thesis by (rule that [OF d(1)]) (use d(2,3) in \<open>auto simp: gss_team.starts_def\<close>)
qed

lemma gss_tasks_exact:
  assumes "gss_ok st"
  shows "par_for_indices (gss_tasks st) = [unat (gss_current st) ..< unat (gss_end st)]"
    and "\<forall>t \<in> set (gss_tasks st). task_begin t < task_end t"
  using gss_run_exact [of st] assms by (auto simp: gss_ok_def gss_tasks_def)

lemma tasks_at_most_indices:
  "\<forall>t \<in> set ts. task_begin t < task_end t \<Longrightarrow> length ts \<le> length (par_for_indices ts)"
proof (induction ts)
  case (Cons t ts)
  then have "0 < length (task_indices t)" by (simp add: task_indices_def word_less_nat_alt)
  then show ?case using Cons by (simp add: par_for_indices_def del: length_greater_0_conv)
qed (simp add: par_for_indices_def)

lemma gss_team_indices:
  assumes "gss_ok st" "gss_team.starts (gss_tasks st) k owner s"
    and "reachable (team_step (critical_take s_p_gss_generator)) s t"
  shows "mset (par_for_indices (map snd (tm_runs t))) \<subseteq># mset [unat (gss_current st) ..< unat (gss_end st)]"
    and "all_left t \<Longrightarrow> mset (par_for_indices (map snd (tm_runs t))) = mset [unat (gss_current st) ..< unat (gss_end st)]"
  unfolding gss_tasks_exact(1) [OF assms(1), symmetric] par_for_indices_def
  using gss_team.runs_below [OF assms(2,3)] gss_team.all_run [OF assms(2,3)]
  by (blast intro: concat_map_subset concat_map_eq)+

text \<open>
  The \<^verbatim>\<open>single\<close> block of the macro; \<open>threads\<close> is \<^verbatim>\<open>omp_get_num_threads()\<close>, and the multiplication is one of
  \<^verbatim>\<open>size_t\<close>.
\<close>

definition gss_single ::
  "nat \<Rightarrow> ('c \<Rightarrow> u64 \<Rightarrow> u64) \<Rightarrow> s_p_simple_task \<Rightarrow> u64 \<Rightarrow> u64 \<Rightarrow> u64 \<Rightarrow> 'c \<Rightarrow> nat \<Rightarrow>
   (s_p_gss_state, s_p_simple_task) s_p_dynamic_schedule result" where
  "gss_single hc all_reduce buf0 begin_idx end_idx grain_size comm threads =
     (let st = s_p_new_gss_state all_reduce begin_idx end_idx grain_size (of_nat threads * 40) comm
      in s_p_new_dynamic_schedule hc s_p_gss_generator buf0 st threads)"

lemma gss_single_starts:
  assumes "all_reduce comm (of_nat threads * 40) \<noteq> 0" "begin_idx \<le> end_idx"
  obtains d st where "gss_single hc all_reduce buf0 begin_idx end_idx grain_size comm threads = Inr d"
    "gss_team.starts (gss_tasks st) k owner (team_start k owner d)" "gss_current st = begin_idx" "gss_end st = end_idx"
    "gss_process_count st \<noteq> 0"
proof -
  let ?st = "s_p_new_gss_state all_reduce begin_idx end_idx grain_size (of_nat threads * 40) comm"
  have st: "gss_current ?st = begin_idx" "gss_end ?st = end_idx" "gss_process_count ?st \<noteq> 0"
    using assms(1) by (simp_all add: s_p_new_gss_state_def)
  then have "gss_ok ?st" using assms(2) by (simp add: gss_ok_def)
  then obtain d where d: "s_p_new_dynamic_schedule hc s_p_gss_generator buf0 ?st threads = Inr d"
    "gss_team.starts (gss_tasks ?st) k owner (team_start k owner d)"
    by (rule gss_team_starts)
  show thesis by (rule that [of d ?st]) (use d st in \<open>simp_all add: gss_single_def\<close>)
qed

text \<open>
  A parallel loop on one rank: however the threads of the team interleave, no index is run twice
  and none outside the range; the scheduler is deleted exactly when the last thread has left the loop,
  once; and when all have left, the body has run for every index of the range exactly once.
\<close>

theorem par_for_exact:
  assumes "gss_process_count st \<noteq> 0" "gss_current st \<le> gss_end st"
  shows "\<exists>d. s_p_new_dynamic_schedule hc s_p_gss_generator buf0 st n = Inr d \<and>
    (\<forall>t. reachable (team_step (critical_take s_p_gss_generator)) (team_start k owner d) t \<longrightarrow>
      tm_deleted t = (if all_left t then 1 else 0) \<and>
      (let indices = mset (par_for_indices (map snd (tm_runs t)));
           range = mset [unat (gss_current st) ..< unat (gss_end st)]
       in indices \<subseteq># range \<and> (all_left t \<longrightarrow> indices = range)))"
proof -
  have ok: "gss_ok st" using assms by (simp add: gss_ok_def)
  obtain d where d: "s_p_new_dynamic_schedule hc s_p_gss_generator buf0 st n = Inr d"
    "gss_team.starts (gss_tasks st) k owner (team_start k owner d)"
    using gss_team_starts [OF ok] .
  show ?thesis
    unfolding Let_def
    by (intro exI [of _ d] conjI allI impI d(1) gss_team.deleted_last [OF d(2)] gss_team_indices [OF ok d(2)])
qed

theorem par_for_exact_witness:
  "\<exists>d. s_p_new_dynamic_schedule 8 s_p_gss_generator \<lparr>task_begin = 0, task_end = 0\<rparr> gss_example 0 = Inr d \<and>
    (\<forall>t. reachable (team_step (critical_take s_p_gss_generator)) (team_start 3 0 d) t \<and> all_left t \<longrightarrow>
      mset (par_for_indices (map snd (tm_runs t))) = mset [3 ..< 50])"
proof -
  have "gss_process_count gss_example \<noteq> 0" "gss_current gss_example \<le> gss_end gss_example"
    by (simp_all add: gss_example_def)
  from par_for_exact [OF this, of 8 "\<lparr>task_begin = 0, task_end = 0\<rparr>" 0 3 0] show ?thesis
    unfolding Let_def by (elim ex_forward) (simp add: gss_example_def del: mset_upt)
qed



text \<open>
  A parallel loop on one rank ends: no run of the team has more than \<open>2 * |range| + 2 * threads\<close>
  steps, and from every reachable state the threads can all leave.
\<close>

theorem par_for_ends:
  assumes "gss_process_count st \<noteq> 0" "gss_current st \<le> gss_end st"
    and "s_p_new_dynamic_schedule hc s_p_gss_generator buf0 st n = Inr d"
    and "run (team_step (critical_take s_p_gss_generator)) (team_start k owner d) w t"
  shows "w \<le> 2 * (unat (gss_end st) - unat (gss_current st)) + 2 * Suc k \<and>
    (\<exists>u. reachable (team_step (critical_take s_p_gss_generator)) t u \<and> all_left u)"
proof
  have ok: "gss_ok st" using assms by (simp add: gss_ok_def)
  have s: "gss_team.starts (gss_tasks st) k owner (team_start k owner d)"
    using gss_team_starts [OF ok, of hc buf0 n k owner] assms(3) by simp
  have "length (gss_tasks st) \<le> unat (gss_end st) - unat (gss_current st)"
    using tasks_at_most_indices [OF gss_tasks_exact(2) [OF ok]] by (simp add: gss_tasks_exact(1) [OF ok])
  moreover have "gss_team.steps_left (team_start k owner d) = 2 * length (gss_tasks st) + 2 * Suc k"
    using s by (auto simp: gss_team.starts_def gss_team.steps_left_def team_start_def sum_list_replicate)
  ultimately show "w \<le> 2 * (unat (gss_end st) - unat (gss_current st)) + 2 * Suc k"
    using gss_team.proto.work_bounded [OF s assms(4)] by linarith
  show "\<exists>u. reachable (team_step (critical_take s_p_gss_generator)) t u \<and> all_left u"
    by (rule gss_team.proto.can_finish [OF s]) (use assms(4) in blast)
qed

theorem par_for_ends_witness:
  "\<exists>d. s_p_new_dynamic_schedule 8 s_p_gss_generator \<lparr>task_begin = 0, task_end = 0\<rparr> gss_example 0 = Inr d \<and>
    (\<exists>u. reachable (team_step (critical_take s_p_gss_generator)) (team_start 3 0 d) u \<and> all_left u)"
proof -
  have g: "gss_process_count gss_example \<noteq> 0" "gss_current gss_example \<le> gss_end gss_example"
    by (simp_all add: gss_example_def)
  then have "gss_ok gss_example" by (simp add: gss_ok_def)
  then obtain d where "s_p_new_dynamic_schedule 8 s_p_gss_generator \<lparr>task_begin = 0, task_end = 0\<rparr> gss_example 0 = Inr d"
    by (rule gss_team_starts)
  from par_for_ends [OF g this run_here] this show ?thesis by blast
qed

text \<open>
  C27. The counter that decides who deletes the scheduler lives on the stack of the thread that ran the
  \<^verbatim>\<open>single\<close> block, and nothing makes that thread wait: with two threads or more it can have left the
  block, which ends the counter's life, while another one has still to decrement it.
\<close>

theorem counter_outlived:
  assumes "gss_process_count st \<noteq> 0" "gss_current st \<le> gss_end st"
    and "s_p_new_dynamic_schedule hc s_p_gss_generator buf0 st n = Inr d"
    and "owner \<le> k" "0 < k"
  shows "\<exists>t i. reachable (team_step (critical_take s_p_gss_generator)) (team_start k owner d) t \<and>
    tm_threads t ! owner = Left_loop \<and> i \<le> k \<and> tm_threads t ! i = Leaving"
proof -
  obtain i where i: "i \<le> k" "owner \<noteq> i" using assms(5) by (cases owner) auto
  have "gss_ok st" using assms by (simp add: gss_ok_def)
  then have "gss_team.starts (gss_tasks st) k owner (team_start k owner d)"
    using gss_team_starts [of st hc buf0 n k owner] assms(3) by simp
  from gss_team.owner_leaves_first [OF this assms(4) i] show ?thesis using i(1) by blast
qed

theorem counter_outlived_witness:
  "\<exists>d t. s_p_new_dynamic_schedule 8 s_p_gss_generator \<lparr>task_begin = 0, task_end = 0\<rparr> gss_example 0 = Inr d \<and>
    reachable (team_step (critical_take s_p_gss_generator)) (team_start 1 0 d) t \<and>
    tm_threads t ! 0 = Left_loop \<and> (\<exists>i \<le> 1. tm_threads t ! i = Leaving)"
proof -
  have g: "gss_process_count gss_example \<noteq> 0" "gss_current gss_example \<le> gss_end gss_example"
    by (simp_all add: gss_example_def)
  then have "gss_ok gss_example" by (simp add: gss_ok_def)
  then obtain d where "s_p_new_dynamic_schedule 8 s_p_gss_generator \<lparr>task_begin = 0, task_end = 0\<rparr> gss_example 0 = Inr d"
    by (rule gss_team_starts)
  from counter_outlived [OF g this, of 0 1] this show ?thesis by auto
qed

section \<open>The loop \<open>S_P_GSS_UINT64_T_PAR_FOR_COLLAPSE_2\<close>\<close>

text \<open>It is the same macro on the other generator.\<close>

interpretation c2_team: team "critical_take s_p_collapse_2_gss_generator" "schedule_ok c2_ok" "schedule_left c2_tasks" tasks k owner
  for tasks k owner
  by unfold_locales

lemma c2_team_starts:
  assumes "c2_ok st"
  obtains d where "s_p_new_dynamic_schedule hc s_p_collapse_2_gss_generator buf0 st n = Inr d"
    "c2_team.starts (c2_tasks st) k owner (team_start k owner d)"
proof -
  obtain d where d: "s_p_new_dynamic_schedule hc s_p_collapse_2_gss_generator buf0 st n = Inr d"
    "schedule_ok c2_ok d" "schedule_left c2_tasks d = c2_tasks st"
    by (rule c2_source.new_schedule [OF assms])
  show thesis by (rule that [OF d(1)]) (use d(2,3) in \<open>auto simp: c2_team.starts_def\<close>)
qed

lemma collapse_2_par_for_iff:
  "collapse_2_par_for gf gs fe ts = Some ps \<longleftrightarrow>
     (\<forall>t \<in> set ts. collapse_2_points gf gs fe (ij_begin t) (ij_end t) \<noteq> None) \<and>
     ps = concat (map (\<lambda>t. the (collapse_2_points gf gs fe (ij_begin t) (ij_end t))) ts)"
  by (induction ts arbitrary: ps) (auto simp: bind_eq_Some_conv)

lemma collapse_2_par_for_below:
  assumes "collapse_2_par_for gf gs fe ts = Some qs" "mset ss \<subseteq># mset ts"
  shows "\<exists>ps. collapse_2_par_for gf gs fe ss = Some ps \<and> mset ps \<subseteq># mset qs \<and> (mset ss = mset ts \<longrightarrow> mset ps = mset qs)"
proof -
  have "set ss \<subseteq> set ts" using set_mset_mono [OF assms(2)] by simp
  then show ?thesis
    using assms(1) concat_map_subset [OF assms(2)] concat_map_eq
    unfolding collapse_2_par_for_iff by blast
qed

lemma collapse_2_team_exact:
  assumes "c2_walks st pt N" "c2_current st = pt 0" "c2_remaining_index st = of_nat N"
    and "c2_process_count st \<noteq> 0"
  shows "\<exists>d. s_p_new_dynamic_schedule hc s_p_collapse_2_gss_generator buf0 st n = Inr d \<and>
    (\<forall>t. reachable (team_step (critical_take s_p_collapse_2_gss_generator)) (team_start k owner d) t \<longrightarrow>
      tm_deleted t = (if all_left t then 1 else 0) \<and>
      (\<exists>ps. collapse_2_par_for (c2_gen_func st) (c2_gen_func_state st) (c2_end st) (map snd (tm_runs t)) = Some ps \<and>
        mset ps \<subseteq># mset (map pt [0 ..< N]) \<and> (all_left t \<longrightarrow> mset ps = mset (map pt [0 ..< N]))))"
proof -
  have at: "at_point st pt 0 (N - 0)" using assms by (simp add: at_point_def walks_def)
  then have ok: "c2_ok st" unfolding c2_ok_def using assms(1) by blast
  have run: "collapse_2_par_for (c2_gen_func st) (c2_gen_func_state st) (c2_end st) (c2_tasks st) = Some (map pt [0 ..< N])"
    using collapse_2_run_walk [OF assms(1) at] by (auto simp: c2_tasks_def)
  obtain d where d: "s_p_new_dynamic_schedule hc s_p_collapse_2_gss_generator buf0 st n = Inr d"
    "c2_team.starts (c2_tasks st) k owner (team_start k owner d)"
    using c2_team_starts [OF ok] .
  show ?thesis
  proof (intro exI [of _ d] conjI allI impI d(1) c2_team.deleted_last [OF d(2)])
    fix t
    assume r: "reachable (team_step (critical_take s_p_collapse_2_gss_generator)) (team_start k owner d) t"
    show "\<exists>ps. collapse_2_par_for (c2_gen_func st) (c2_gen_func_state st) (c2_end st) (map snd (tm_runs t)) = Some ps \<and>
        mset ps \<subseteq># mset (map pt [0 ..< N]) \<and> (all_left t \<longrightarrow> mset ps = mset (map pt [0 ..< N]))"
      using collapse_2_par_for_below [OF run c2_team.runs_below [OF d(2) r]] c2_team.all_run [OF d(2) r] by metis
  qed
qed

text \<open>
  The \<^verbatim>\<open>single\<close> block of the macro; \<open>threads\<close> is \<^verbatim>\<open>omp_get_num_threads()\<close>, and the multiplication is one of
  \<^verbatim>\<open>size_t\<close>.
\<close>

definition collapse_2_single ::
  "nat \<Rightarrow> ('c \<Rightarrow> u64 \<Rightarrow> u64) \<Rightarrow> s_p_collapse_2_task \<Rightarrow> u64 \<Rightarrow> 'c \<Rightarrow> u64 \<Rightarrow> s_p_ij_point \<Rightarrow> s_p_ij_point \<Rightarrow>
   'g collapse_2_gss_gen_func \<Rightarrow> 'g \<Rightarrow> nat \<Rightarrow>
   ('g s_p_collapse_2_gss_state, s_p_collapse_2_task) s_p_dynamic_schedule result" where
  "collapse_2_single hc all_reduce buf0 grain_size comm all_index_count begin_pt end_pt gen_func gen_func_state threads =
     (let st = s_p_new_collapse_2_gss_state all_reduce (pt_i begin_pt) (pt_i end_pt) (pt_j begin_pt) (pt_j end_pt)
            grain_size all_index_count gen_func gen_func_state (of_nat threads * 40) comm
      in s_p_new_dynamic_schedule hc s_p_collapse_2_gss_generator buf0 st threads)"

text \<open>
  A collapsed double loop on one rank, with a generator function that walks the double loop: however
  the threads of the team interleave, the inner loops end, no point is run twice and none outside the
  double loop, the last thread deletes the scheduler, the team can always come to its end, and when all have
  left, the body has run at every point exactly once.
\<close>

theorem par_for_collapse_2_exact:
  assumes "walks gen_func gen_func_state end_pt pt N" "all_reduce comm (of_nat threads * 40) \<noteq> 0"
  shows "\<exists>d. collapse_2_single hc all_reduce buf0 grain_size comm (of_nat N) (pt 0) end_pt gen_func gen_func_state threads
      = Inr d \<and>
    (\<forall>t. reachable (team_step (critical_take s_p_collapse_2_gss_generator)) (team_start k owner d) t \<longrightarrow>
      tm_deleted t = (if all_left t then 1 else 0) \<and>
      (\<exists>u. reachable (team_step (critical_take s_p_collapse_2_gss_generator)) t u \<and> all_left u) \<and>
      (\<exists>ps. collapse_2_par_for gen_func gen_func_state end_pt (map snd (tm_runs t)) = Some ps \<and>
        mset ps \<subseteq># mset (map pt [0 ..< N]) \<and> (all_left t \<longrightarrow> mset ps = mset (map pt [0 ..< N]))))"
proof -
  let ?st = "s_p_new_collapse_2_gss_state all_reduce (pt_i (pt 0)) (pt_i end_pt) (pt_j (pt 0)) (pt_j end_pt)
    grain_size (of_nat N) gen_func gen_func_state (of_nat threads * 40) comm"
  have st: "c2_current ?st = pt 0" "c2_remaining_index ?st = of_nat N" "c2_process_count ?st \<noteq> 0"
    "c2_gen_func ?st = gen_func" "c2_gen_func_state ?st = gen_func_state" "c2_end ?st = end_pt"
    using assms(2) by (simp_all add: s_p_new_collapse_2_gss_state_def)
  have w: "c2_walks ?st pt N" using assms(1) st by simp
  have at: "at_point ?st pt 0 (N - 0)" using w st by (simp add: at_point_def walks_def)
  then have ok: "c2_ok ?st" unfolding c2_ok_def using w by blast
  obtain d where d: "s_p_new_dynamic_schedule hc s_p_collapse_2_gss_generator buf0 ?st threads = Inr d"
    "c2_team.starts (c2_tasks ?st) k owner (team_start k owner d)"
    using c2_team_starts [OF ok] .
  have single: "collapse_2_single hc all_reduce buf0 grain_size comm (of_nat N) (pt 0) end_pt gen_func gen_func_state threads = Inr d"
    using d(1) by (simp add: collapse_2_single_def Let_def)
  show ?thesis
    using collapse_2_team_exact [OF w st(1-3), of hc buf0 threads k owner] c2_team.proto.can_finish [OF d(2)] d(1) single
    unfolding st(4-6) by auto
qed

theorem par_for_collapse_2_exact_witness:
  "\<exists>d u. collapse_2_single 8 (\<lambda>c n. 2 * n) \<lparr>ij_begin = \<lparr>pt_i = 0, pt_j = 0\<rparr>, ij_end = \<lparr>pt_i = 0, pt_j = 0\<rparr>\<rparr> 1 () 6
      (rect_point 0) \<lparr>pt_i = 3, pt_j = 0\<rparr> rect_gen () 4 = Inr d \<and>
    reachable (team_step (critical_take s_p_collapse_2_gss_generator)) (team_start 3 0 d) u \<and> all_left u \<and>
    (\<exists>ps. collapse_2_par_for rect_gen () \<lparr>pt_i = 3, pt_j = 0\<rparr> (map snd (tm_runs u)) = Some ps \<and>
      mset ps = mset (map rect_point [0 ..< 6]))"
proof -
  let ?step = "team_step (critical_take (s_p_collapse_2_gss_generator ::
    unit s_p_collapse_2_gss_state \<Rightarrow> (s_p_collapse_2_task option \<times> unit s_p_collapse_2_gss_state) result))"
  have count: "2 * (of_nat 4 * 40 :: u64) \<noteq> 0" by simp
  obtain d where d: "collapse_2_single 8 (\<lambda>c n. 2 * n) \<lparr>ij_begin = \<lparr>pt_i = 0, pt_j = 0\<rparr>, ij_end = \<lparr>pt_i = 0, pt_j = 0\<rparr>\<rparr> 1 () 6
      (rect_point 0) \<lparr>pt_i = 3, pt_j = 0\<rparr> rect_gen () 4 = Inr d"
    "\<And>t. reachable ?step (team_start 3 0 d) t \<Longrightarrow> (\<exists>u. reachable ?step t u \<and> all_left u) \<and>
      (\<exists>ps. collapse_2_par_for rect_gen () \<lparr>pt_i = 3, pt_j = 0\<rparr> (map snd (tm_runs t)) = Some ps \<and>
        (all_left t \<longrightarrow> mset ps = mset (map rect_point [0 ..< 6])))"
    using par_for_collapse_2_exact [where all_reduce = "\<lambda>c n. 2 * n" and comm = "()" and threads = 4 and k = 3 and
        owner = 0 and hc = 8 and grain_size = 1, OF rect_walks count, where ?buf0.0 = "\<lparr>ij_begin = \<lparr>pt_i = 0, pt_j = 0\<rparr>, ij_end = \<lparr>pt_i = 0, pt_j = 0\<rparr>\<rparr>"]
    unfolding of_nat_numeral by blast
  have "reachable ?step (team_start 3 0 d) (team_start 3 0 d)" using run_here by (intro exI)
  then obtain u where u: "reachable ?step (team_start 3 0 d) u" "all_left u" using d(2) by blast
  then show ?thesis using d(1) d(2) [OF u(1)] by blast
qed

end
