(* ===== verification/Distributed_Loop.thy ===== *)
theory Distributed_Loop
  imports Schedule_Proofs Par_For
begin

text \<open>
  A loop distributed over several ranks: the constructors of \<^verbatim>\<open>dynamic_schedule\<close> and of its iterator, and
  the dynamic scheduler applied to the tasks of the guided generators.
\<close>

section \<open>Starting the loop\<close>

text \<open>The buffer size a rank asks for; 0 stands for \<^verbatim>\<open>std::thread::hardware_concurrency()\<close>.\<close>

definition effective_buffer_size :: "nat \<Rightarrow> nat \<Rightarrow> nat" where
  "effective_buffer_size hardware_concurrency buffer_size =
     (if buffer_size = 0 then hardware_concurrency else buffer_size)"

datatype handler_kind = Single_rank_handler | Server_handler | Client_handler

text \<open>Which handler the iterator of a rank gets, and the buffer size it contributes to the all-gather.\<close>

definition iterator_handler :: "nat \<Rightarrow> nat \<Rightarrow> nat \<Rightarrow> handler_kind \<times> nat" where
  "iterator_handler comm_size rank buffer_size =
     (if comm_size = 1 then (Single_rank_handler, buffer_size)
      else
        let buffer_size' = (if rank = 0 then 0 else buffer_size)
        in if rank = 0 then (Server_handler, buffer_size') else (Client_handler, buffer_size'))"

text \<open>
  All ranks enter the loop: rank \<open>r\<close> constructed its \<^verbatim>\<open>dynamic_schedule\<close> with \<open>hc ! r\<close> hardware threads
  and the argument \<open>bs ! r\<close>. \<open>xs\<close> is the range on the root.
\<close>

definition all_buffer_sizes :: "nat list \<Rightarrow> nat list \<Rightarrow> nat list" where
  "all_buffer_sizes hc bs =
     map (\<lambda>r. snd (iterator_handler (length bs) r (effective_buffer_size (hc ! r) (bs ! r)))) [0 ..< length bs]"

definition distributed_start :: "nat list \<Rightarrow> nat list \<Rightarrow> 'v list \<Rightarrow> 'v sched option" where
  "distributed_start hc bs xs = sched_start (length bs) (all_buffer_sizes hc bs) xs"

lemma all_buffer_sizes_ok: "1 < length bs \<Longrightarrow> sizes_ok (length bs) (all_buffer_sizes hc bs)"
proof -
  assume "1 < length bs"
  then have "0 < length [0 ..< length bs]" "length bs \<noteq> 1" by auto
  then show ?thesis
    unfolding sizes_ok_def all_buffer_sizes_def by (simp only: nth_map) (auto simp: iterator_handler_def)
qed

section \<open>The parts of a range\<close>

lemma subseq_concat_map: "subseq xs ys \<Longrightarrow> subseq (concat (map f xs)) (concat (map f ys))"
proof (induction rule: list_emb.induct)
  case (list_emb_Cons xs ys y)
  then show ?case by (simp add: list_emb_append2)
next
  case (list_emb_Cons2 x y xs ys)
  then show ?case by (simp add: list_emb_append_mono)
qed simp

text \<open>Values that are distributed carry their indices with them.\<close>

lemma distributed_indices:
  assumes "sizes_ok n sizes" "sched_start n sizes xs = Some s"
    and "reachable (sched_step n) s t" "srv_pc t = Srv_done"
  shows "mset (concat (map f (srv_used t))) + (\<Sum>c \<in> {1 ..< n}. mset (concat (map f (got (clients t c)))))
      = mset (concat (map f xs)) \<and>
    subseq (concat (map f (srv_used t))) (concat (map f xs)) \<and>
    (\<forall>c \<in> {1 ..< n}. subseq (concat (map f (got (clients t c)))) (concat (map f xs)))"
proof -
  have d: "mset xs = mset (srv_used t) + (\<Sum>c \<in> {1 ..< n}. mset (got (clients t c)))"
    "subseq (srv_used t) xs" "\<forall>c \<in> {1 ..< n}. subseq (got (clients t c)) xs"
    using sched_distributes [OF assms] by blast+
  have "(\<Sum>x \<in># (\<Sum>c \<in> C. M c). F x) = (\<Sum>c \<in> C. (\<Sum>x \<in># M c. F x))"
    if "finite C" for C :: "nat set" and M :: "nat \<Rightarrow> 'a multiset" and F :: "'a \<Rightarrow> 'b multiset"
    using that by (induction C) simp_all
  then have "mset (concat (map f (srv_used t))) + (\<Sum>c \<in> {1 ..< n}. mset (concat (map f (got (clients t c)))))
      = mset (concat (map f xs))"
    unfolding mset_concat_map d(1) by simp
  then show ?thesis using d(2,3) subseq_concat_map [where f = f] by blast
qed

lemma subseq_sorted_wrt: "subseq xs ys \<Longrightarrow> sorted_wrt P ys \<Longrightarrow> sorted_wrt P xs"
proof (induction rule: list_emb.induct)
  case (list_emb_Cons2 x y xs ys)
  then show ?case by (auto elim!: list_emb_set)
qed simp_all

lemma subseq_upt_sorted: "subseq xs [a ..< b] \<Longrightarrow> sorted_wrt (<) xs"
  using subseq_sorted_wrt sorted_wrt_upt by blast

text \<open>
  A loop over a guided schedule on several ranks: whatever the buffer sizes and the interleaving of
  the ranks, the loop can always be brought to its end; and when it has ended, every index of the range
  has been handed to exactly one rank, once, and every rank got its indices in increasing order.
\<close>

theorem distributed_loop_exact:
  assumes "1 < length bs" "gss_process_count st \<noteq> 0" "gss_current st \<le> gss_end st"
  shows "\<exists>tasks s. gss_run st = Inr tasks \<and> distributed_start hc bs tasks = Some s \<and>
    (\<forall>t. reachable (sched_step (length bs)) s t \<longrightarrow>
      (\<exists>u. reachable (sched_step (length bs)) t u \<and> sched_final (length bs) u) \<and>
      (srv_pc t = Srv_done \<longrightarrow>
        mset (par_for_indices (srv_used t)) + (\<Sum>c \<in> {1 ..< length bs}. mset (par_for_indices (got (clients t c))))
          = mset [unat (gss_current st) ..< unat (gss_end st)] \<and>
        sorted_wrt (<) (par_for_indices (srv_used t)) \<and>
        (\<forall>c \<in> {1 ..< length bs}. sorted_wrt (<) (par_for_indices (got (clients t c))))))"
proof -
  obtain tasks where tasks: "gss_run st = Inr tasks"
    "par_for_indices tasks = [unat (gss_current st) ..< unat (gss_end st)]"
    using gss_run_exact [OF assms(2,3)] by blast
  note ok = all_buffer_sizes_ok [OF assms(1), of hc]
  obtain s where s: "sched_start (length bs) (all_buffer_sizes hc bs) tasks = Some s"
    using start_exists [OF ok] by blast
  have fin: "\<exists>u. reachable (sched_step (length bs)) t u \<and> sched_final (length bs) u"
    if "reachable (sched_step (length bs)) s t" for t
    using sched.can_finish [of "length bs" tasks s t] ok s that by blast
  have "mset (par_for_indices (srv_used t)) + (\<Sum>c \<in> {1 ..< length bs}. mset (par_for_indices (got (clients t c))))
          = mset [unat (gss_current st) ..< unat (gss_end st)] \<and>
        sorted_wrt (<) (par_for_indices (srv_used t)) \<and>
        (\<forall>c \<in> {1 ..< length bs}. sorted_wrt (<) (par_for_indices (got (clients t c))))"
    if "reachable (sched_step (length bs)) s t" "srv_pc t = Srv_done" for t
    using distributed_indices [OF ok s that, of task_indices] subseq_upt_sorted
    unfolding par_for_indices_def [symmetric] tasks(2) by metis
  then show ?thesis using tasks(1) s fin unfolding distributed_start_def by blast
qed

theorem distributed_loop_exact_witness:
  "\<exists>tasks s t. gss_run gss_example = Inr tasks \<and> distributed_start [8, 8, 4] [0, 2, 0] tasks = Some s \<and>
    reachable (sched_step 3) s t \<and>
    mset (par_for_indices (srv_used t)) + (\<Sum>c \<in> {1 ..< 3}. mset (par_for_indices (got (clients t c))))
      = mset [unat (gss_current gss_example) ..< unat (gss_end gss_example)]"
proof -
  have "1 < length [0, 2, 0 :: nat]" "gss_process_count gss_example \<noteq> 0" "gss_current gss_example \<le> gss_end gss_example"
    by (simp_all add: gss_example_def)
  from distributed_loop_exact [OF this, of "[8, 8, 4]"]
  obtain tasks s where s: "gss_run gss_example = Inr tasks" "distributed_start [8, 8, 4] [0, 2, 0] tasks = Some s"
    "\<And>t. reachable (sched_step 3) s t \<Longrightarrow> (\<exists>u. reachable (sched_step 3) t u \<and> sched_final 3 u) \<and>
      (srv_pc t = Srv_done \<longrightarrow>
        mset (par_for_indices (srv_used t)) + (\<Sum>c \<in> {1 ..< 3}. mset (par_for_indices (got (clients t c))))
          = mset [unat (gss_current gss_example) ..< unat (gss_end gss_example)])"
    by (auto simp: numeral_3_eq_3)
  then obtain u where "reachable (sched_step 3) s u" "sched_final 3 u" using run_here by metis
  then show ?thesis using s by (auto simp: sched_final_def)
qed

end
