(* ===== verification/Rank_Teams.thy ===== *)
theory Rank_Teams
  imports Distributed_Loop
begin

text \<open>
  A team of threads on each of several ranks: the threads of a rank share its scheduler object, whose handlers talk to
  each other over MPI. A thread reads the current task and calls \<^verbatim>\<open>next\<close> in one critical section; the steps of all
  threads of all ranks, of the handlers inside \<^verbatim>\<open>next\<close> and of the network interleave. The loops of the C and of the
  Fortran binding share this and differ in how a team ends.
\<close>

section \<open>The threads of all ranks\<close>

text \<open>
  \<open>H_next v\<close> is in the critical section: it has copied the task \<open>v\<close> and is inside \<^verbatim>\<open>next\<close>. \<open>H_running v\<close> runs the
  body, \<open>H_leaving\<close> has seen that the scheduler is done, \<open>H_left\<close> is behind the loop.
\<close>

datatype 'v hthread = H_looping | H_next 'v | H_running 'v | H_leaving | H_left

record 'v loops =
  hy_sched :: "'v sched"
  hy_threads :: "nat \<Rightarrow> 'v hthread list"
  hy_runs :: "nat \<Rightarrow> 'v list"

text \<open>
  What rank \<open>r\<close>'s handler shows between calls of \<^verbatim>\<open>next\<close>: a task, or that it is done. Inside \<^verbatim>\<open>next\<close>, and in the
  constructor, it is neither.
\<close>

definition at_task :: "'v sched \<Rightarrow> nat \<Rightarrow> 'v option" where
  "at_task s r =
     (if r = 0 then (if srv_pc s = Srv_user \<and> srv_left s \<noteq> [] then Some (hd (srv_left s)) else None)
      else if cl_pc (clients s r) = Cl_user then Some (last (got (clients s r))) else None)"

definition handler_done :: "'v sched \<Rightarrow> nat \<Rightarrow> bool" where
  "handler_done s r \<longleftrightarrow> (if r = 0 then srv_pc s = Srv_done else cl_pc (clients s r) = Cl_done)"

text \<open>The call of \<^verbatim>\<open>next\<close> by the user of rank \<open>r\<close>.\<close>

definition call_next :: "'v sched \<Rightarrow> nat \<Rightarrow> 'v sched" where
  "call_next s r =
     (if r = 0 then s\<lparr>srv_pc := Srv_handle, srv_used := srv_used s @ [hd (srv_left s)], srv_left := tl (srv_left s)\<rparr>
      else s\<lparr>clients := (clients s)(r := (clients s r)\<lparr>cl_pc := Cl_while\<rparr>)\<rparr>)"

definition is_next :: "'v hthread \<Rightarrow> bool" where
  "is_next t = (case t of H_next v \<Rightarrow> True | _ \<Rightarrow> False)"

lemma is_next_simps [simp]:
  "is_next (H_next v)" "\<not> is_next H_looping" "\<not> is_next (H_running v)" "\<not> is_next H_leaving" "\<not> is_next H_left"
  by (simp_all add: is_next_def)

definition critical_free :: "('v, 'z) loops_scheme \<Rightarrow> nat \<Rightarrow> bool" where
  "critical_free h r \<longleftrightarrow> list_all (\<lambda>t. \<not> is_next t) (hy_threads h r)"

definition set_thread :: "nat \<Rightarrow> nat \<Rightarrow> 'v hthread \<Rightarrow> ('v, 'z) loops_scheme \<Rightarrow> ('v, 'z) loops_scheme" where
  "set_thread r i t h = h\<lparr>hy_threads := (hy_threads h)(r := (hy_threads h r)[i := t])\<rparr>"

text \<open>
  \<open>L_comm\<close> is a step of the handlers or of the network that no user takes part in: a task that is shown stays.
\<close>

inductive loop_step :: "nat \<Rightarrow> ('v, 'z) loops_scheme \<Rightarrow> bool \<Rightarrow> ('v, 'z) loops_scheme \<Rightarrow> bool" for n where
  L_comm:
    "sched_step n (hy_sched h) b s \<Longrightarrow> \<forall>r < n. at_task (hy_sched h) r \<noteq> None \<longrightarrow> at_task s r \<noteq> None \<Longrightarrow>
     loop_step n h b (h\<lparr>hy_sched := s\<rparr>)"
| L_take:
    "r < n \<Longrightarrow> i < length (hy_threads h r) \<Longrightarrow> hy_threads h r ! i = H_looping \<Longrightarrow> critical_free h r \<Longrightarrow>
     at_task (hy_sched h) r = Some v \<Longrightarrow>
     loop_step n h True (set_thread r i (H_next v) h\<lparr>hy_sched := call_next (hy_sched h) r\<rparr>)"
| L_returns:
    "r < n \<Longrightarrow> i < length (hy_threads h r) \<Longrightarrow> hy_threads h r ! i = H_next v \<Longrightarrow>
     at_task (hy_sched h) r \<noteq> None \<or> handler_done (hy_sched h) r \<Longrightarrow>
     loop_step n h True (set_thread r i (H_running v) h)"
| L_stop:
    "r < n \<Longrightarrow> i < length (hy_threads h r) \<Longrightarrow> hy_threads h r ! i = H_looping \<Longrightarrow> critical_free h r \<Longrightarrow>
     handler_done (hy_sched h) r \<Longrightarrow> loop_step n h True (set_thread r i H_leaving h)"
| L_work:
    "r < n \<Longrightarrow> i < length (hy_threads h r) \<Longrightarrow> hy_threads h r ! i = H_running v \<Longrightarrow>
     loop_step n h True ((set_thread r i H_looping h)\<lparr>hy_runs := (hy_runs h)(r := hy_runs h r @ [v])\<rparr>)"

text \<open>Behind the constructors' barrier, with \<open>k r\<close> threads on rank \<open>r\<close>.\<close>

definition loops_start :: "(nat \<Rightarrow> nat) \<Rightarrow> 'v sched \<Rightarrow> 'v loops" where
  "loops_start k s = \<lparr>hy_sched = s, hy_threads = (\<lambda>r. replicate (k r) H_looping), hy_runs = (\<lambda>r. [])\<rparr>"

definition team_left :: "('v, 'z) loops_scheme \<Rightarrow> nat \<Rightarrow> bool" where
  "team_left h r \<longleftrightarrow> (\<forall>t \<in> set (hy_threads h r). t = H_left)"

definition all_teams_left :: "nat \<Rightarrow> ('v, 'z) loops_scheme \<Rightarrow> bool" where
  "all_teams_left n h \<longleftrightarrow> (\<forall>r < n. team_left h r)"

section \<open>What the scheduler shows its users\<close>

text \<open>The values the users of rank \<open>r\<close> have taken.\<close>

definition taken :: "'v sched \<Rightarrow> nat \<Rightarrow> 'v multiset" where
  "taken s r =
     (if r = 0 then mset (srv_used s)
      else if cl_pc (clients s r) = Cl_user then mset (butlast (got (clients s r))) else mset (got (clients s r)))"

definition got_ok :: "'v sched \<Rightarrow> bool" where
  "got_ok s \<longleftrightarrow> (\<forall>c. cl_pc (clients s c) = Cl_user \<longrightarrow> got (clients s c) \<noteq> [])"

lemma gen_finished_got:
  "leader_gen_finished k d = (fin, k', d') \<Longrightarrow> got k' = got k \<and> cl_pc k' = cl_pc k"
  by (auto simp: leader_gen_finished_def split: if_splits option.splits)

lemma client_step_got:
  assumes "client_step k d u = Some (b, k', d', u')"
  shows "(cl_pc k = Cl_recv \<and> cl_pc k' = Cl_user \<and> (\<exists>v. got k' = got k @ [v])) \<or>
    (cl_pc k = Cl_user \<and> cl_pc k' = Cl_while \<and> got k' = got k \<and> b) \<or>
    (cl_pc k \<noteq> Cl_user \<and> cl_pc k' \<noteq> Cl_user \<and> cl_pc k \<noteq> Cl_done \<and> got k' = got k)"
proof (cases "cl_pc k")
  case Cl_gen
  obtain fin k1 d1 where l: "leader_gen_finished k d = (fin, k1, d1)" by (metis prod_cases3)
  then show ?thesis using assms Cl_gen gen_finished_got [OF l] by (auto simp: client_step_def split: if_splits)
next
  case Cl_recv
  then obtain m where "recv d is_val = Some (m, d')" "k' = k\<lparr>cl_pc := Cl_user, got := got k @ value_of m\<rparr>"
    using assms by (auto simp: client_step_def)
  moreover from this(1) have "is_val m" by (rule recv_Some)
  then have "\<exists>v. value_of m = [v]" by (cases m) (simp_all add: is_val_def value_of_def)
  ultimately show ?thesis using Cl_recv by auto
qed (use assms in \<open>auto simp: client_step_def split: if_splits\<close>)

lemma server_step_users:
  assumes "server_step n c s = Some t"
  shows "clients t = clients s \<and> srv_pc s \<noteq> Srv_done \<and>
    (srv_pc s = Srv_user \<longrightarrow> srv_left s \<noteq> [] \<and> t = call_next s 0) \<and> (srv_pc s \<noteq> Srv_user \<longrightarrow> srv_used t = srv_used s)"
  using assms
  by (auto simp: server_step_def handle_client_request_def send_gen_done_def wait_finished_def drain_requests_def
      call_next_def split: server_pc.splits list.splits if_splits)

text \<open>A step without a user's call keeps what the users have taken, and a handler that is done stays so.\<close>

lemma comm_keeps:
  assumes "sched_step n s b t" "\<forall>r < n. at_task s r \<noteq> None \<longrightarrow> at_task t r \<noteq> None" "0 < n" "got_ok s" "r < n"
  shows "taken t r = taken s r \<and> (handler_done s r \<longrightarrow> handler_done t r) \<and> got_ok t"
  using assms(1)
proof (cases rule: sched_step.cases)
  case (sched_server c)
  note u = server_step_users [OF sched_server(2)]
  have "srv_pc s \<noteq> Srv_user"
  proof
    assume pc: "srv_pc s = Srv_user"
    then have "at_task s 0 \<noteq> None" "at_task t 0 = None" using u by (simp_all add: at_task_def call_next_def)
    then show False using assms(2,3) by blast
  qed
  then show ?thesis using u assms(4) by (auto simp: taken_def handler_done_def got_ok_def)
next
  case (sched_client c k d u)
  note g = client_step_got [OF sched_client(3)]
  have "\<not> (cl_pc (clients s c) = Cl_user \<and> cl_pc k = Cl_while)"
    using assms(2) sched_client(1,2) by (auto simp: at_task_def split: if_splits)
  then show ?thesis using g sched_client(1,2) assms(4) by (auto simp: taken_def handler_done_def got_ok_def)
qed (use assms(4) in \<open>auto simp: taken_def handler_done_def got_ok_def\<close>)

lemma call_next_step:
  assumes "sched_inv n xs s" "at_task s r = Some v" "r < n"
  shows "sched_step n s True (call_next s r)"
proof (cases "r = 0")
  case True
  then have "server_step n 0 s = Some (call_next s 0)"
    using assms(2) by (auto simp: at_task_def server_step_def call_next_def neq_Nil_conv split: if_splits)
  then show ?thesis using True sched_server by blast
next
  case False
  then have "client_step (clients s r) (down s r) (up s r) = Some (True, (clients s r)\<lparr>cl_pc := Cl_while\<rparr>, down s r, up s r)"
    using assms(2) by (simp add: at_task_def client_step_def split: if_splits)
  from sched_client [OF _ this, of n] show ?thesis using False assms(3) by (simp add: call_next_def)
qed

lemma call_next_keeps:
  assumes "at_task s r = Some v" "got_ok s"
  shows "taken (call_next s r) r = add_mset v (taken s r)" "r' \<noteq> r \<Longrightarrow> taken (call_next s r) r' = taken s r'"
    "handler_done s r' \<Longrightarrow> handler_done (call_next s r) r'" "got_ok (call_next s r)"
proof -
  show "taken (call_next s r) r = add_mset v (taken s r)"
  proof (cases "r = 0")
    case False
    then have k: "cl_pc (clients s r) = Cl_user" "v = last (got (clients s r))" "got (clients s r) \<noteq> []"
      using assms by (auto simp: at_task_def got_ok_def split: if_splits)
    then have "mset (got (clients s r)) = add_mset v (mset (butlast (got (clients s r))))"
      by (metis add_mset_add_single append_butlast_last_id mset.simps(1,2) mset_append union_mset_add_mset_right add_0_right)
    then show ?thesis using False k(1) by (simp add: taken_def call_next_def)
  qed (use assms(1) in \<open>auto simp: taken_def call_next_def at_task_def split: if_splits\<close>)
  show "r' \<noteq> r \<Longrightarrow> taken (call_next s r) r' = taken s r'" by (auto simp: taken_def call_next_def)
  show "handler_done s r' \<Longrightarrow> handler_done (call_next s r) r'"
    using assms(1) by (auto simp: handler_done_def call_next_def at_task_def split: if_splits)
  show "got_ok (call_next s r)" using assms(2) by (auto simp: got_ok_def call_next_def)
qed

section \<open>The invariant\<close>

fun h_task :: "'v hthread \<Rightarrow> 'v multiset" where
  "h_task (H_next v) = {#v#}"
| "h_task (H_running v) = {#v#}"
| "h_task t = {#}"

fun h_present :: "'v hthread \<Rightarrow> nat" where
  "h_present H_left = 0"
| "h_present t = 1"

fun h_weight :: "'v hthread \<Rightarrow> nat" where
  "h_weight H_looping = 2"
| "h_weight (H_next v) = 4"
| "h_weight (H_running v) = 3"
| "h_weight H_leaving = 1"
| "h_weight H_left = 0"

fun h_outside :: "'v hthread \<Rightarrow> bool" where
  "h_outside H_leaving = True"
| "h_outside H_left = True"
| "h_outside t = False"

text \<open>A team of \<open>k\<close> threads: no task is lost or doubled, and nobody has stopped before the handler was done.\<close>

definition team_ok :: "nat \<Rightarrow> ('v, 'z) loops_scheme \<Rightarrow> nat \<Rightarrow> bool" where
  "team_ok k h r \<longleftrightarrow> 0 < k \<and> length (hy_threads h r) = k \<and>
     mset (hy_runs h r) + sum_list (map h_task (hy_threads h r)) = taken (hy_sched h) r \<and>
     ((\<exists>t \<in> set (hy_threads h r). h_outside t) \<longrightarrow> handler_done (hy_sched h) r)"

definition loops_inv :: "nat \<Rightarrow> 'v list \<Rightarrow> (nat \<Rightarrow> nat) \<Rightarrow> ('v, 'z) loops_scheme \<Rightarrow> bool" where
  "loops_inv n xs k h \<longleftrightarrow> 0 < n \<and> sched_inv n xs (hy_sched h) \<and> got_ok (hy_sched h) \<and> (\<forall>r < n. team_ok (k r) h r)"

definition present :: "('v, 'z) loops_scheme \<Rightarrow> nat \<Rightarrow> nat" where
  "present h r = sum_list (map h_present (hy_threads h r))"

definition team_weight :: "('v, 'z) loops_scheme \<Rightarrow> nat \<Rightarrow> nat" where
  "team_weight h r = sum_list (map h_weight (hy_threads h r))"

definition loops_work :: "nat \<Rightarrow> ('v, 'z) loops_scheme \<Rightarrow> nat" where
  "loops_work n h = 3 * sched_work n (hy_sched h) + (\<Sum>r \<in> {0 ..< n}. team_weight h r)"

lemma h_present_0: "sum_list (map h_present ts) = 0 \<longleftrightarrow> (\<forall>t \<in> set ts. t = H_left)"
proof (induction ts)
  case (Cons t ts)
  then show ?case by (cases t) auto
qed simp

lemma h_outside_update:
  "\<exists>t \<in> set (ts[i := x]). h_outside t \<Longrightarrow> \<not> h_outside x \<Longrightarrow> \<exists>t \<in> set ts. h_outside t"
  using set_update_subset_insert [of ts i x] by auto

lemma set_thread_simps [simp]:
  "hy_sched (set_thread r i t h) = hy_sched h" "hy_runs (set_thread r i t h) = hy_runs h"
  "hy_threads (set_thread r i t h) = (hy_threads h)(r := (hy_threads h r)[i := t])"
  by (simp_all add: set_thread_def)

text \<open>A step of a thread of rank \<open>r\<close> leaves the teams of the other ranks alone.\<close>

lemma team_ok_cong:
  assumes "team_ok k h r" "hy_threads h' r = hy_threads h r" "hy_runs h' r = hy_runs h r"
    "taken (hy_sched h') r = taken (hy_sched h) r" "handler_done (hy_sched h) r \<longrightarrow> handler_done (hy_sched h') r"
  shows "team_ok k h' r"
  using assms by (auto simp: team_ok_def)

text \<open>How a thread's step changes the sums over its team.\<close>

lemma team_updates:
  assumes "i < length ts" "ts ! i = old"
  shows "h_task old + sum_list (map h_task (ts[i := t])) = h_task t + sum_list (map h_task ts)"
    and "h_present old + sum_list (map h_present (ts[i := t])) = h_present t + sum_list (map h_present ts)"
    and "h_weight old + sum_list (map h_weight (ts[i := t])) = h_weight t + sum_list (map h_weight ts)"
  using sum_thread_update [OF assms(1), of h_task t] sum_thread_update [OF assms(1), of h_present t]
    sum_thread_update [OF assms(1), of h_weight t] assms(2) by simp_all

lemma weight_update:
  assumes "r < n" "i < length (hy_threads h r)" "hy_threads h r ! i = old"
    and "hy_threads h' = (hy_threads h)(r := (hy_threads h r)[i := t])"
  shows "(\<Sum>x \<in> {0 ..< n}. team_weight h' x) + h_weight old = (\<Sum>x \<in> {0 ..< n}. team_weight h x) + h_weight t"
proof -
  have "(\<Sum>x \<in> {0 ..< n}. team_weight h' x) + team_weight h r = (\<Sum>x \<in> {0 ..< n}. team_weight h x) + team_weight h' r"
    using assms(1,4) by (intro sum_update) (auto simp: team_weight_def)
  then show ?thesis using team_updates(3) [OF assms(2,3), of t] assms(4) by (simp add: team_weight_def)
qed

lemma outside_done:
  assumes "team_ok k h r" "i < length (hy_threads h r)" "h_outside (hy_threads h r ! i)"
  shows "handler_done (hy_sched h) r"
  using assms nth_mem [OF assms(2)] unfolding team_ok_def by blast

text \<open>Each kind of thread step keeps the invariant of its team.\<close>

lemma team_take:
  assumes "team_ok k h r" "i < length (hy_threads h r)" "hy_threads h r ! i = H_looping"
    and "at_task (hy_sched h) r = Some v" "got_ok (hy_sched h)"
  shows "team_ok k (set_thread r i (H_next v) h\<lparr>hy_sched := call_next (hy_sched h) r\<rparr>) r"
  using assms(1) call_next_keeps(1,3) [OF assms(4,5)] team_updates [OF assms(2,3), of "H_next v"]
    h_outside_update [of "hy_threads h r" i "H_next v"]
  by (auto simp: team_ok_def)

lemma team_returns:
  assumes "team_ok k h r" "i < length (hy_threads h r)" "hy_threads h r ! i = H_next v"
  shows "team_ok k (set_thread r i (H_running v) h) r"
  using assms(1) team_updates [OF assms(2,3), of "H_running v"] h_outside_update [of "hy_threads h r" i "H_running v"]
  by (auto simp: team_ok_def)

lemma team_stop:
  assumes "team_ok k h r" "i < length (hy_threads h r)" "hy_threads h r ! i = H_looping" "handler_done (hy_sched h) r"
  shows "team_ok k (set_thread r i H_leaving h) r"
  using assms(1,4) team_updates [OF assms(2,3), of H_leaving] by (auto simp: team_ok_def)

lemma team_work:
  assumes "team_ok k h r" "i < length (hy_threads h r)" "hy_threads h r ! i = H_running v"
  shows "team_ok k ((set_thread r i H_looping h)\<lparr>hy_runs := (hy_runs h)(r := hy_runs h r @ [v])\<rparr>) r"
proof -
  have task: "sum_list (map h_task (hy_threads h r)) = add_mset v (sum_list (map h_task ((hy_threads h r)[i := H_looping])))"
    using team_updates(1) [OF assms(2,3), of H_looping] by simp
  show ?thesis
    using assms(1) task team_updates(2) [OF assms(2,3), of H_looping] h_outside_update [of "hy_threads h r" i H_looping]
    by (auto simp: team_ok_def ac_simps)
qed

section \<open>Every step keeps the invariant and does work\<close>

text \<open>A thread's step that changes nothing of the scheduler but its own team.\<close>

lemma thread_step_inv:
  assumes "loops_inv n xs k h" "r < n" "team_ok (k r) h' r" "hy_sched h' = hy_sched h"
    and "\<And>x. x \<noteq> r \<Longrightarrow> hy_threads h' x = hy_threads h x \<and> hy_runs h' x = hy_runs h x"
  shows "loops_inv n xs k h'"
  unfolding loops_inv_def
proof (intro conjI allI impI)
  fix x
  assume x: "x < n"
  show "team_ok (k x) h' x"
  proof (cases "x = r")
    case False
    have "team_ok (k x) h x" using assms(1) x by (simp add: loops_inv_def)
    then show ?thesis by (rule team_ok_cong) (use assms(4) assms(5) [OF False] in auto)
  qed (use assms(3) in simp)
qed (use assms(1,4) in \<open>simp_all add: loops_inv_def\<close>)

lemma inv_take:
  assumes "loops_inv n xs k h" "r < n" "i < length (hy_threads h r)" "hy_threads h r ! i = H_looping"
    and "at_task (hy_sched h) r = Some v"
  shows "loops_inv n xs k (set_thread r i (H_next v) h\<lparr>hy_sched := call_next (hy_sched h) r\<rparr>)" (is "loops_inv n xs k ?h'")
  unfolding loops_inv_def
proof (intro conjI allI impI)
  have inv: "sched_inv n xs (hy_sched h)" "got_ok (hy_sched h)" using assms(1) by (simp_all add: loops_inv_def)
  note keeps = call_next_keeps [OF assms(5) inv(2)]
  show "0 < n" using assms(1) by (simp add: loops_inv_def)
  show "sched_inv n xs (hy_sched ?h')" using inv_step [OF inv(1) call_next_step [OF inv(1) assms(5,2)]] by simp
  show "got_ok (hy_sched ?h')" using keeps(4) by simp
  fix x
  assume x: "x < n"
  have ok: "team_ok (k x) h x" using assms(1) x by (simp add: loops_inv_def)
  show "team_ok (k x) ?h' x"
  proof (cases "x = r")
    case True
    then show ?thesis using team_take [OF _ assms(3-5) inv(2)] ok by simp
  next
    case False
    from ok show ?thesis by (rule team_ok_cong) (use keeps(2,3) False in auto)
  qed
qed

lemma inv_comm:
  assumes "loops_inv n xs k h" "sched_step n (hy_sched h) b s"
    and "\<forall>r < n. at_task (hy_sched h) r \<noteq> None \<longrightarrow> at_task s r \<noteq> None"
  shows "loops_inv n xs k (h\<lparr>hy_sched := s\<rparr>)"
proof -
  have inv: "0 < n" "sched_inv n xs (hy_sched h)" "got_ok (hy_sched h)" using assms(1) by (simp_all add: loops_inv_def)
  note keeps = comm_keeps [OF assms(2,3) inv(1,3)]
  have "team_ok (k x) (h\<lparr>hy_sched := s\<rparr>) x" if "x < n" for x
  proof -
    have "team_ok (k x) h x" using assms(1) that by (simp add: loops_inv_def)
    then show ?thesis by (rule team_ok_cong) (use keeps [OF that] in auto)
  qed
  then show ?thesis using inv(1) keeps [OF inv(1)] inv_step [OF inv(2) assms(2)] by (simp add: loops_inv_def)
qed

lemma inv_team: "loops_inv n xs k h \<Longrightarrow> r < n \<Longrightarrow> team_ok (k r) h r"
  by (simp add: loops_inv_def)

lemma loop_step_inv:
  assumes "loops_inv n xs k h" "loop_step n h b h'"
  shows "loops_inv n xs k h'"
  using assms(2)
proof (cases rule: loop_step.cases)
  case (L_comm s)
  then show ?thesis using inv_comm [OF assms(1)] by blast
next
  case (L_take r i v)
  then show ?thesis using inv_take [OF assms(1)] by blast
next
  case (L_returns r i v)
  show ?thesis
    unfolding L_returns(2)
    by (rule thread_step_inv [OF assms(1) L_returns(3) team_returns [OF inv_team [OF assms(1) L_returns(3)] L_returns(4,5)]]) simp_all
next
  case (L_stop r i)
  show ?thesis
    unfolding L_stop(2)
    by (rule thread_step_inv [OF assms(1) L_stop(3) team_stop [OF inv_team [OF assms(1) L_stop(3)] L_stop(4,5,7)]]) simp_all
next
  case (L_work r i v)
  show ?thesis
    unfolding L_work(2)
    by (rule thread_step_inv [OF assms(1) L_work(3) team_work [OF inv_team [OF assms(1) L_work(3)] L_work(4,5)]]) simp_all
qed

lemma loop_step_work:
  assumes "loops_inv n xs k h" "loop_step n h b h'"
  shows "if b then loops_work n h' < loops_work n h else loops_work n h' = loops_work n h"
  using assms(2)
proof (cases rule: loop_step.cases)
  case (L_comm s)
  have "sched_inv n xs (hy_sched h)" using assms(1) by (simp add: loops_inv_def)
  then show ?thesis using sched.work_less [of n xs "hy_sched h" s] sched.wait_same [of n xs "hy_sched h" s] L_comm
    by (cases b) (simp_all add: loops_work_def team_weight_def)
next
  case (L_take r i v)
  have inv: "sched_inv n xs (hy_sched h)" using assms(1) by (simp add: loops_inv_def)
  have "sched_work n (call_next (hy_sched h) r) < sched_work n (hy_sched h)"
    by (rule sched.work_less [OF inv call_next_step [OF inv L_take(7,3)]])
  then show ?thesis
    using weight_update [OF L_take(3-5), of h' "H_next v"] L_take(1,2) by (simp add: loops_work_def)
next
  case (L_returns r i v)
  then show ?thesis using weight_update [OF L_returns(3-5), of h' "H_running v"] by (simp add: loops_work_def)
next
  case (L_stop r i)
  then show ?thesis using weight_update [OF L_stop(3-5), of h' H_leaving] by (simp add: loops_work_def)
next
  case (L_work r i v)
  then show ?thesis using weight_update [OF L_work(3-5), of h' H_looping] by (simp add: loops_work_def)
qed

text \<open>Inside the loop nobody goes behind it.\<close>

lemma loop_step_present:
  assumes "loop_step n h b h'"
  shows "present h' x = present h x \<and> length (hy_threads h' x) = length (hy_threads h x)"
proof -
  have upd: "present (set_thread r i t g) x = present g x \<and> length (hy_threads (set_thread r i t g) x) = length (hy_threads g x)"
    if "i < length (hy_threads g r)" "h_present (hy_threads g r ! i) = h_present t" for r i t and g :: "('a, 'b) loops_scheme"
    using team_updates(2) [OF that(1) refl, of t] that(2) by (simp add: present_def)
  show ?thesis
    using assms
  proof (cases rule: loop_step.cases)
    case (L_take r i v)
    have "present h' x = present (set_thread r i (H_next v) h) x \<and>
        length (hy_threads h' x) = length (hy_threads (set_thread r i (H_next v) h) x)"
      using L_take(1,2) by (simp add: present_def)
    then show ?thesis using upd [OF L_take(4), of "H_next v"] L_take(5) by simp
  next
    case (L_work r i v)
    have "present h' x = present (set_thread r i H_looping h) x \<and>
        length (hy_threads h' x) = length (hy_threads (set_thread r i H_looping h) x)"
      using L_work(2) by (simp add: present_def)
    then show ?thesis using upd [OF L_work(4), of H_looping] L_work(5) by simp
  next
    case (L_returns r i v)
    then show ?thesis using upd [OF L_returns(4), of "H_running v"] by simp
  next
    case (L_stop r i)
    then show ?thesis using upd [OF L_stop(4), of H_leaving] by simp
  qed (simp add: present_def)
qed

section \<open>Some thread or handler can always go on\<close>

text \<open>If no handler shows a task, waiting shows none, so the steps of the scheduler involve no user.\<close>

lemma wait_shows_none:
  assumes "sched_step n s False t" "at_task s r = None"
  shows "at_task t r = None"
  using assms(1)
proof (cases rule: sched_step.cases)
  case (sched_client c k d u)
  have "cl_pc k \<noteq> Cl_user"
    using sched_client(3) by (auto simp: client_step_def split: client_pc.splits if_splits prod.splits)
  then show ?thesis using assms(2) sched_client(1,2) by (cases "r = c"; cases "r = 0") (auto simp: at_task_def split: if_splits)
qed auto

lemma waits_lift:
  assumes "run (sched_step n) s w t" "w = 0" "\<forall>r < n. at_task s r = None"
  shows "run (loop_step n) (h\<lparr>hy_sched := s\<rparr>) 0 (h\<lparr>hy_sched := t\<rparr>) \<and> (\<forall>r < n. at_task t r = None)"
  using assms
proof (induction rule: run.induct)
  case (run_here s)
  then show ?case using run.run_here by metis
next
  case (run_wait s w t u)
  note t = run_wait.IH [OF run_wait.prems, THEN conjunct1, unfolded run_wait.prems(1)]
    run_wait.IH [OF run_wait.prems, THEN conjunct2]
  have "loop_step n (h\<lparr>hy_sched := t\<rparr>) False (h\<lparr>hy_sched := t\<rparr>\<lparr>hy_sched := u\<rparr>)"
    by (rule L_comm) (use run_wait t(2) in simp_all)
  then have "run (loop_step n) (h\<lparr>hy_sched := s\<rparr>) 0 (h\<lparr>hy_sched := u\<rparr>)" using run.run_wait [OF t(1)] by simp
  then show ?case using wait_shows_none [OF run_wait.hyps(2)] t(2) by blast
qed simp

lemma next_not_free: "\<not> critical_free h r \<Longrightarrow> \<exists>i v. i < length (hy_threads h r) \<and> hy_threads h r ! i = H_next v"
  unfolding critical_free_def list_all_length by (metis hthread.exhaust is_next_simps(2-5))

definition all_outside :: "('v, 'z) loops_scheme \<Rightarrow> nat \<Rightarrow> bool" where
  "all_outside h r \<longleftrightarrow> (\<forall>t \<in> set (hy_threads h r). h_outside t)"

lemma team_can_step:
  assumes "team_ok k h r" "r < n" "at_task (hy_sched h) r \<noteq> None \<or> handler_done (hy_sched h) r" "\<not> all_outside h r"
  shows "\<exists>h'. loop_step n h True h'"
proof -
  obtain i where i: "i < length (hy_threads h r)" "\<not> h_outside (hy_threads h r ! i)"
    using assms(4) by (auto simp: all_outside_def in_set_conv_nth)
  show ?thesis
  proof (cases "critical_free h r")
    case False
    then obtain j v where "j < length (hy_threads h r)" "hy_threads h r ! j = H_next v" using next_not_free by blast
    from L_returns [OF assms(2) this assms(3)] show ?thesis by blast
  next
    case free: True
    show ?thesis
    proof (cases "hy_threads h r ! i")
      case H_looping
      then show ?thesis
        using L_take [OF assms(2) i(1) H_looping free] L_stop [OF assms(2) i(1) H_looping free] assms(3) by blast
    next
      case (H_next v)
      from L_returns [OF assms(2) i(1) this assms(3)] show ?thesis by blast
    next
      case (H_running v)
      from L_work [OF assms(2) i(1) this] show ?thesis by blast
    qed (use i in simp_all)
  qed
qed

lemma shown_not_outside:
  assumes "team_ok k h r" "at_task (hy_sched h) r \<noteq> None"
  shows "\<not> all_outside h r"
proof
  assume out: "all_outside h r"
  have "0 < length (hy_threads h r)" using assms(1) unfolding team_ok_def by linarith
  then have "handler_done (hy_sched h) r" using out outside_done [OF assms(1), of 0] by (simp add: all_outside_def)
  then show False using assms(2) by (auto simp: at_task_def handler_done_def split: if_splits)
qed

lemma loop_progress:
  assumes "loops_inv n xs k h" "r < n" "\<not> all_outside h r"
  shows "\<exists>t u. run (loop_step n) h 0 t \<and> loop_step n t True u"
proof (cases "\<exists>r < n. (at_task (hy_sched h) r \<noteq> None \<or> handler_done (hy_sched h) r) \<and> \<not> all_outside h r")
  case True
  then show ?thesis using team_can_step inv_team [OF assms(1)] run_here by meson
next
  case False
  then have none: "\<forall>r < n. at_task (hy_sched h) r = None" using shown_not_outside inv_team [OF assms(1)] by blast
  have r: "\<not> handler_done (hy_sched h) r" using False assms(2,3) by blast
  have inv: "sched_inv n xs (hy_sched h)" using assms(1) by (simp add: loops_inv_def)
  have "\<not> sched_final n (hy_sched h)" using r assms(2) by (auto simp: sched_final_def handler_done_def split: if_splits)
  then obtain t u where tu: "run (sched_step n) (hy_sched h) 0 t" "sched_step n t True u"
    using sched.progress [OF inv] by blast
  have t: "run (loop_step n) h 0 (h\<lparr>hy_sched := t\<rparr>)" "\<forall>r < n. at_task t r = None"
    using waits_lift [OF tu(1) refl none, of h] by simp_all
  have "loop_step n (h\<lparr>hy_sched := t\<rparr>) True (h\<lparr>hy_sched := t\<rparr>\<lparr>hy_sched := u\<rparr>)"
    by (rule L_comm) (use tu(2) t(2) in simp_all)
  then show ?thesis using t(1) by blast
qed

lemma start_sums:
  "sum_list (map h_task (replicate m H_looping)) = {#}" "sum_list (map h_present (replicate m H_looping)) = m"
  by (induction m) simp_all

lemma loops_start_inv:
  fixes h :: "('v, 'z) loops_scheme"
  assumes "sizes_ok n sizes" "sched_start n sizes xs = Some s" "loops.truncate h = loops_start k s" "\<forall>r < n. 0 < k r"
  shows "loops_inv n xs k h" "present h r = k r"
proof -
  have h: "hy_sched h = s" "hy_threads h = (\<lambda>r. replicate (k r) H_looping)" "hy_runs h = (\<lambda>r. [])"
    using assms(3) by (simp_all add: loops.truncate_def loops_start_def)
  have s: "srv_used s = []" "clients s = (\<lambda>c. \<lparr>cl_pc = Cl_while, m_leader_gen_finished = False, got = []\<rparr>)"
    using assms(2) by (auto simp: sched_start_def)
  show "present h r = k r" by (simp only: present_def h start_sums)
  have "team_ok (k r) h r" if "r < n" for r
    using s assms(4) that by (simp add: team_ok_def h taken_def start_sums del: replicate.simps map_replicate)
  moreover have "got_ok s" using s by (simp add: got_ok_def)
  ultimately show "loops_inv n xs k h" using start_inv [OF assms(1,2)] assms(1) by (simp add: loops_inv_def h sizes_ok_def)
qed

section \<open>When all threads have left\<close>

lemma left_nothing:
  assumes "\<forall>t \<in> set ts. t = H_left"
  shows "sum_list (map h_task ts) = {#}" "sum_list (map h_present ts) = 0"
  using assms by (induction ts) auto

lemma team_left_taken:
  assumes "team_ok k h r" "team_left h r"
  shows "mset (hy_runs h r) = taken (hy_sched h) r" "handler_done (hy_sched h) r"
proof -
  have left: "\<forall>t \<in> set (hy_threads h r). t = H_left" using assms(2) by (simp add: team_left_def)
  show "mset (hy_runs h r) = taken (hy_sched h) r"
    using assms(1) left_nothing(1) [OF left] by (auto simp: team_ok_def)
  have "hy_threads h r ! 0 = H_left" "0 < length (hy_threads h r)" using assms(1) left by (auto simp: team_ok_def)
  then show "handler_done (hy_sched h) r" using outside_done [OF assms(1), of 0] by simp
qed

lemma all_left_runs:
  assumes "loops_inv n xs k h" "all_teams_left n h"
  shows "(\<Sum>r \<in> {0 ..< n}. mset (hy_runs h r)) = mset xs" "sched_final n (hy_sched h)"
proof -
  let ?s = "hy_sched h"
  have inv: "0 < n" "sched_inv n xs ?s" using assms(1) by (simp_all add: loops_inv_def)
  have team: "mset (hy_runs h r) = taken ?s r \<and> handler_done ?s r" if "r < n" for r
    using team_left_taken [OF inv_team [OF assms(1) that]] assms(2) that by (simp add: all_teams_left_def)
  have pc: "srv_pc ?s = Srv_done" using team [OF inv(1)] by (simp add: handler_done_def)
  then show fin: "sched_final n ?s" using sched_inv_final [OF inv(2)] by blast
  have "(\<Sum>r \<in> {0 ..< n}. mset (hy_runs h r)) = mset (hy_runs h 0) + (\<Sum>r \<in> {1 ..< n}. mset (hy_runs h r))"
    using inv(1) by (simp add: sum.atLeast_Suc_lessThan)
  also have "\<dots> = mset (srv_used ?s) + (\<Sum>r \<in> {1 ..< n}. mset (got (clients ?s r)))"
    using team inv(1) fin by (simp add: taken_def sched_final_def)
  finally show "(\<Sum>r \<in> {0 ..< n}. mset (hy_runs h r)) = mset xs" using inv_distributes [OF inv(2) pc] by simp
qed

lemma sum_concat_map:
  assumes "finite A" "(\<Sum>r \<in> A. mset (f r)) = mset xs"
  shows "(\<Sum>r \<in> A. mset (concat (map g (f r)))) = mset (concat (map g xs))"
proof -
  have "(\<Sum>r \<in> A. (\<Sum>x \<in># mset (f r). mset (g x))) = (\<Sum>x \<in># (\<Sum>r \<in> A. mset (f r)). mset (g x))"
    using assms(1) by (induction A) simp_all
  then show ?thesis unfolding mset_concat_map assms(2) .
qed

end
