(* ===== verification/Hybrid_Loop.thy ===== *)
theory Hybrid_Loop
  imports Rank_Teams
begin

text \<open>
  The loop macros of the C binding on several ranks, with a team of threads on each: they end with a counter of the
  threads that have not left, and the thread that brings it to 0 deletes the scheduler of its rank.
\<close>

section \<open>The macro's own end\<close>

record 'v hybrid = "'v loops" +
  hy_count :: "nat \<Rightarrow> int"
  hy_deleted :: "nat \<Rightarrow> nat"

definition hybrid_start :: "(nat \<Rightarrow> nat) \<Rightarrow> 'v sched \<Rightarrow> 'v hybrid" where
  "hybrid_start k s = loops.extend (loops_start k s) \<lparr>hy_count = (\<lambda>r. int (k r)), hy_deleted = (\<lambda>r. 0)\<rparr>"

definition hybrid_leave :: "nat \<Rightarrow> nat \<Rightarrow> 'v hybrid \<Rightarrow> 'v hybrid" where
  "hybrid_leave r i h =
     (let c = hy_count h r - 1
      in (set_thread r i H_left h)\<lparr>hy_count := (hy_count h)(r := c),
           hy_deleted := (hy_deleted h)(r := (if c = 0 then hy_deleted h r + 1 else hy_deleted h r))\<rparr>)"

inductive hybrid_step :: "nat \<Rightarrow> 'v hybrid \<Rightarrow> bool \<Rightarrow> 'v hybrid \<Rightarrow> bool" for n where
  H_loop: "loop_step n h b h' \<Longrightarrow> hybrid_step n h b h'"
| H_leave:
    "r < n \<Longrightarrow> i < length (hy_threads h r) \<Longrightarrow> hy_threads h r ! i = H_leaving \<Longrightarrow>
     hybrid_step n h True (hybrid_leave r i h)"

inductive_cases hybrid_stepE: "hybrid_step n h b h'"

section \<open>The invariant\<close>

definition count_ok :: "'v hybrid \<Rightarrow> nat \<Rightarrow> bool" where
  "count_ok h r \<longleftrightarrow> hy_count h r = int (present h r) \<and> hy_deleted h r = (if present h r = 0 then 1 else 0)"

definition hybrid_inv :: "nat \<Rightarrow> 'v list \<Rightarrow> (nat \<Rightarrow> nat) \<Rightarrow> 'v hybrid \<Rightarrow> bool" where
  "hybrid_inv n xs k h \<longleftrightarrow> loops_inv n xs k h \<and> (\<forall>r < n. count_ok h r)"

lemma loop_step_counters:
  assumes "loop_step n h b (h' :: 'v hybrid)"
  shows "hy_count h' = hy_count h \<and> hy_deleted h' = hy_deleted h"
  using assms by (cases rule: loop_step.cases) (simp_all add: set_thread_def)

lemma hybrid_leave_simps [simp]:
  "hy_sched (hybrid_leave r i h) = hy_sched h" "hy_runs (hybrid_leave r i h) = hy_runs h"
  "hy_threads (hybrid_leave r i h) = (hy_threads h)(r := (hy_threads h r)[i := H_left])"
  by (simp_all add: hybrid_leave_def Let_def)

lemma leave_present:
  assumes "i < length (hy_threads h r)" "hy_threads h r ! i = H_leaving"
  shows "present h x = present (hybrid_leave r i h) x + (if x = r then 1 else 0)"
  using team_updates(2) [OF assms, of H_left] by (simp add: present_def)

lemma leave_inv:
  assumes "hybrid_inv n xs k h" "r < n" "i < length (hy_threads h r)" "hy_threads h r ! i = H_leaving"
  shows "hybrid_inv n xs k (hybrid_leave r i h)"
proof -
  have inv: "loops_inv n xs k h" and count: "\<forall>x < n. count_ok h x" using assms(1) by (simp_all add: hybrid_inv_def)
  have "team_ok (k r) (hybrid_leave r i h) r"
    using inv_team [OF inv assms(2)] outside_done [OF inv_team [OF inv assms(2)] assms(3)]
      team_updates(1) [OF assms(3,4), of H_left] assms(4) by (simp add: team_ok_def)
  then have "loops_inv n xs k (hybrid_leave r i h)" by (rule thread_step_inv [OF inv assms(2)]) simp_all
  moreover have "count_ok (hybrid_leave r i h) x" if "x < n" for x
    using count [rule_format, OF that] leave_present [OF assms(3,4), of x]
    by (auto simp: count_ok_def hybrid_leave_def Let_def)
  ultimately show ?thesis by (simp add: hybrid_inv_def)
qed

lemma hybrid_step_inv:
  assumes "hybrid_inv n xs k h" "hybrid_step n h b h'"
  shows "hybrid_inv n xs k h'"
  using assms(2)
proof (cases rule: hybrid_step.cases)
  case H_loop
  then show ?thesis
    using assms(1) loop_step_inv [of n xs k h b h'] loop_step_present [OF H_loop] loop_step_counters [OF H_loop]
    by (simp add: hybrid_inv_def count_ok_def)
next
  case (H_leave r i)
  then show ?thesis using leave_inv [OF assms(1)] by simp
qed

lemma hybrid_step_work:
  assumes "hybrid_inv n xs k h" "hybrid_step n h b h'"
  shows "if b then loops_work n h' < loops_work n h else loops_work n h' = loops_work n h"
  using assms(2)
proof (cases rule: hybrid_step.cases)
  case H_loop
  then show ?thesis using loop_step_work [of n xs k h b h'] assms(1) by (simp add: hybrid_inv_def)
next
  case (H_leave r i)
  then show ?thesis using weight_update [OF H_leave(3-5), of h' H_left] by (simp add: loops_work_def)
qed

lemma loop_run_hybrid: "run (loop_step n) h w h' \<Longrightarrow> run (hybrid_step n) h w h'"
  by (rule run_lift [OF _ H_loop])

lemma hybrid_progress:
  assumes "hybrid_inv n xs k h" "\<not> all_teams_left n h"
  shows "\<exists>t u. run (hybrid_step n) h 0 t \<and> hybrid_step n t True u"
proof (cases "\<forall>r < n. all_outside h r")
  case True
  obtain r i where i: "r < n" "i < length (hy_threads h r)" "hy_threads h r ! i \<noteq> H_left"
    using assms(2) by (auto simp: all_teams_left_def team_left_def in_set_conv_nth)
  then have "h_outside (hy_threads h r ! i)" using True by (simp add: all_outside_def)
  then have "hy_threads h r ! i = H_leaving" using i(3) by (cases "hy_threads h r ! i") simp_all
  from H_leave [OF i(1,2) this] show ?thesis using run_here [of "hybrid_step n" h] by blast
next
  case False
  then show ?thesis using loop_progress [of n xs k h] assms(1) loop_run_hybrid H_loop unfolding hybrid_inv_def by blast
qed

lemma hybrid_start_inv:
  assumes "sizes_ok n sizes" "sched_start n sizes xs = Some s" "\<forall>r < n. 0 < k r"
  shows "hybrid_inv n xs k (hybrid_start k s)"
proof -
  have "loops.truncate (hybrid_start k s) = loops_start k s"
    by (simp add: hybrid_start_def loops_start_def loops.truncate_def loops.extend_def)
  from loops_start_inv [OF assms(1,2) this assms(3)]
  show ?thesis using assms(3) by (auto simp: hybrid_inv_def count_ok_def hybrid_start_def loops.extend_def)
qed

interpretation hybrid: protocol
  "\<lambda>h. \<exists>sizes s. sizes_ok n sizes \<and> sched_start n sizes xs = Some s \<and> (\<forall>r < n. 0 < k r) \<and> h = hybrid_start k s"
  "hybrid_step n" "hybrid_inv n xs k" "all_teams_left n" "loops_work n"
  for n xs k
proof
  show "loops_work n t < loops_work n h" if "hybrid_inv n xs k h" "hybrid_step n h True t" for h t :: "'a hybrid"
    using hybrid_step_work [OF that] by simp
  show "loops_work n t = loops_work n h" if "hybrid_inv n xs k h" "hybrid_step n h False t" for h t :: "'a hybrid"
    using hybrid_step_work [OF that] by simp
qed (use hybrid_start_inv hybrid_step_inv hybrid_progress in blast)+

text \<open>What holds for any list of tasks that the generator on the root gives.\<close>

lemma hybrid_tasks:
  assumes "1 < length threads" "\<forall>t \<in> set threads. 0 < t"
  obtains s where "distributed_start hc threads tasks = Some s"
    "\<And>h. reachable (hybrid_step (length threads)) (hybrid_start (nth threads) s) h \<Longrightarrow>
      (\<exists>u. reachable (hybrid_step (length threads)) h u \<and> all_teams_left (length threads) u) \<and>
      (\<forall>r < length threads. hy_deleted h r = (if team_left h r then 1 else 0)) \<and>
      (all_teams_left (length threads) h \<longrightarrow>
        (\<Sum>r \<in> {0 ..< length threads}. mset (hy_runs h r)) = mset tasks \<and> sched_final (length threads) (hy_sched h))"
proof -
  let ?n = "length threads"
  note ok = all_buffer_sizes_ok [OF assms(1), of hc]
  obtain s where s: "sched_start ?n (all_buffer_sizes hc threads) tasks = Some s" using start_exists [OF ok] by blast
  have "\<forall>r < ?n. 0 < threads ! r" using assms(2) by simp
  then have init: "\<exists>sizes u. sizes_ok ?n sizes \<and> sched_start ?n sizes tasks = Some u \<and> (\<forall>r < ?n. 0 < threads ! r) \<and>
      hybrid_start (nth threads) s = hybrid_start (nth threads) u"
    using ok s by blast
  show thesis
  proof (rule that [of s])
    show "distributed_start hc threads tasks = Some s" using s by (simp add: distributed_start_def)
    fix h
    assume h: "reachable (hybrid_step ?n) (hybrid_start (nth threads) s) h"
    have inv: "hybrid_inv ?n tasks (nth threads) h" by (rule hybrid.reachable_inv [OF init h])
    then have loops: "loops_inv ?n tasks (nth threads) h" by (simp add: hybrid_inv_def)
    have "hy_deleted h r = (if team_left h r then 1 else 0)" if "r < ?n" for r
    proof -
      have "count_ok h r" using inv that by (simp add: hybrid_inv_def)
      then show ?thesis using h_present_0 [of "hy_threads h r"] by (simp add: count_ok_def present_def team_left_def)
    qed
    then show "(\<exists>u. reachable (hybrid_step ?n) h u \<and> all_teams_left ?n u) \<and>
      (\<forall>r < ?n. hy_deleted h r = (if team_left h r then 1 else 0)) \<and>
      (all_teams_left ?n h \<longrightarrow>
        (\<Sum>r \<in> {0 ..< ?n}. mset (hy_runs h r)) = mset tasks \<and> sched_final ?n (hy_sched h))"
      using hybrid.can_finish [OF init h] all_left_runs [OF loops] by blast
  qed
qed

lemma hybrid_left_runs:
  assumes "1 < length threads" "\<forall>t \<in> set threads. 0 < t" "distributed_start hc threads tasks = Some s"
    and "reachable (hybrid_step (length threads)) (hybrid_start (nth threads) s) h" "all_teams_left (length threads) h"
  shows "(\<Sum>r \<in> {0 ..< length threads}. mset (hy_runs h r)) = mset tasks"
  by (rule hybrid_tasks [OF assms(1,2), of hc tasks]) (use assms(3-5) in auto)

section \<open>The loop \<open>S_P_GSS_UINT64_T_PAR_FOR\<close> on all ranks\<close>

text \<open>
  The tasks of the generator that the root's \<^verbatim>\<open>single\<close> block sets up; \<open>threads\<close> is \<^verbatim>\<open>omp_get_num_threads()\<close> there.
\<close>

definition gss_root_tasks ::
  "('c \<Rightarrow> u64 \<Rightarrow> u64) \<Rightarrow> u64 \<Rightarrow> u64 \<Rightarrow> u64 \<Rightarrow> 'c \<Rightarrow> nat \<Rightarrow> s_p_simple_task list result" where
  "gss_root_tasks all_reduce begin_idx end_idx grain_size comm threads =
     gss_run (s_p_new_gss_state all_reduce begin_idx end_idx grain_size (of_nat threads * 40) comm)"

lemma gss_root_exact:
  assumes "all_reduce comm (of_nat threads * 40) \<noteq> 0" "begin_idx \<le> end_idx"
  obtains tasks where "gss_root_tasks all_reduce begin_idx end_idx grain_size comm threads = Inr tasks"
    "par_for_indices tasks = [unat begin_idx ..< unat end_idx]"
proof -
  let ?st = "s_p_new_gss_state all_reduce begin_idx end_idx grain_size (of_nat threads * 40) comm"
  have "gss_process_count ?st \<noteq> 0" "gss_current ?st \<le> gss_end ?st"
    using assms by (simp_all add: s_p_new_gss_state_def)
  from gss_run_exact [OF this] show thesis using that unfolding gss_root_tasks_def by (auto simp: s_p_new_gss_state_def)
qed



section \<open>The loop \<open>S_P_GSS_UINT64_T_PAR_FOR_COLLAPSE_2\<close> on all ranks\<close>

definition collapse_2_root_tasks ::
  "('c \<Rightarrow> u64 \<Rightarrow> u64) \<Rightarrow> u64 \<Rightarrow> 'c \<Rightarrow> u64 \<Rightarrow> s_p_ij_point \<Rightarrow> s_p_ij_point \<Rightarrow> 'g collapse_2_gss_gen_func \<Rightarrow> 'g \<Rightarrow> nat \<Rightarrow>
   s_p_collapse_2_task list result option" where
  "collapse_2_root_tasks all_reduce grain_size comm all_index_count begin_pt end_pt gen_func gen_func_state threads =
     collapse_2_run (s_p_new_collapse_2_gss_state all_reduce (pt_i begin_pt) (pt_i end_pt) (pt_j begin_pt) (pt_j end_pt)
       grain_size all_index_count gen_func gen_func_state (of_nat threads * 40) comm)"

lemma collapse_2_root_exact:
  assumes "all_reduce comm (of_nat threads * 40) \<noteq> 0" "walks gen_func gen_func_state end_pt pt N"
  obtains tasks where "collapse_2_root_tasks all_reduce grain_size comm (of_nat N) (pt 0) end_pt gen_func gen_func_state threads
      = Some (Inr tasks)" "collapse_2_par_for gen_func gen_func_state end_pt tasks = Some (map pt [0 ..< N])"
proof -
  let ?st = "s_p_new_collapse_2_gss_state all_reduce (pt_i (pt 0)) (pt_i end_pt) (pt_j (pt 0)) (pt_j end_pt)
    grain_size (of_nat N) gen_func gen_func_state (of_nat threads * 40) comm"
  have st: "c2_current ?st = pt 0" "c2_remaining_index ?st = of_nat N" "c2_process_count ?st \<noteq> 0"
    "c2_gen_func ?st = gen_func" "c2_gen_func_state ?st = gen_func_state" "c2_end ?st = end_pt"
    using assms(1) by (simp_all add: s_p_new_collapse_2_gss_state_def)
  have w: "c2_walks ?st pt N" using assms(2) st by simp
  then have "at_point ?st pt 0 (N - 0)" using st by (simp add: at_point_def walks_def)
  from collapse_2_run_walk [OF w this] show thesis
    using that unfolding st(4-6) collapse_2_root_tasks_def by auto
qed

lemma collapse_2_runs_sum:
  assumes "collapse_2_par_for gf gs fe tasks = Some qs" "finite A" "(\<Sum>r \<in> A. mset (f r)) = mset tasks"
  shows "\<exists>ps. (\<forall>r \<in> A. collapse_2_par_for gf gs fe (f r) = Some (ps r)) \<and> (\<Sum>r \<in> A. mset (ps r)) = mset qs"
proof -
  let ?g = "\<lambda>t. the (collapse_2_points gf gs fe (ij_begin t) (ij_end t))"
  have qs: "\<forall>t \<in> set tasks. collapse_2_points gf gs fe (ij_begin t) (ij_end t) \<noteq> None" "qs = concat (map ?g tasks)"
    using assms(1) unfolding collapse_2_par_for_iff by blast+
  have "set (f r) \<subseteq> set tasks" if "r \<in> A" for r
  proof -
    have "mset (f r) \<subseteq># mset tasks"
      using sum.remove [OF assms(2) that, of "\<lambda>r. mset (f r)"] assms(3) by simp
    then show ?thesis using set_mset_mono by fastforce
  qed
  then have "\<forall>r \<in> A. collapse_2_par_for gf gs fe (f r) = Some (concat (map ?g (f r)))"
    using qs(1) unfolding collapse_2_par_for_iff by blast
  moreover have "(\<Sum>r \<in> A. mset (concat (map ?g (f r)))) = mset qs"
    using sum_concat_map [OF assms(2,3), of ?g] qs(2) by simp
  ultimately show ?thesis by (intro exI [of _ "\<lambda>r. concat (map ?g (f r))"] conjI)
qed

text \<open>
  C25. The collapsed double loop on several ranks: with a generator function that walks the double loop, every point runs
  exactly once on exactly one thread of one rank, all inner loops end, and the ranks can always come to the end.
\<close>

theorem hybrid_collapse_2_exact:
  assumes "1 < length threads" "\<forall>t \<in> set threads. 0 < t" "all_reduce comm (of_nat (threads ! 0) * 40) \<noteq> 0"
    and "walks gen_func gen_func_state end_pt pt N"
  shows "\<exists>tasks s. collapse_2_root_tasks all_reduce grain_size comm (of_nat N) (pt 0) end_pt gen_func gen_func_state (threads ! 0)
      = Some (Inr tasks) \<and> distributed_start hc threads tasks = Some s \<and>
    (\<forall>h. reachable (hybrid_step (length threads)) (hybrid_start (nth threads) s) h \<longrightarrow>
      (\<exists>u. reachable (hybrid_step (length threads)) h u \<and> all_teams_left (length threads) u) \<and>
      (\<forall>r < length threads. hy_deleted h r = (if team_left h r then 1 else 0)) \<and>
      (all_teams_left (length threads) h \<longrightarrow>
        (\<exists>ps. (\<forall>r \<in> {0 ..< length threads}. collapse_2_par_for gen_func gen_func_state end_pt (hy_runs h r) = Some (ps r)) \<and>
          (\<Sum>r \<in> {0 ..< length threads}. mset (ps r)) = mset (map pt [0 ..< N])) \<and>
        sched_final (length threads) (hy_sched h)))"
proof -
  obtain tasks where tasks: "collapse_2_root_tasks all_reduce grain_size comm (of_nat N) (pt 0) end_pt gen_func gen_func_state
      (threads ! 0) = Some (Inr tasks)" "collapse_2_par_for gen_func gen_func_state end_pt tasks = Some (map pt [0 ..< N])"
    by (rule collapse_2_root_exact [where all_reduce = all_reduce and comm = comm and threads = "threads ! 0" and
        grain_size = grain_size, OF assms(3,4)])
  obtain s where s: "distributed_start hc threads tasks = Some s"
    "\<And>h. reachable (hybrid_step (length threads)) (hybrid_start (nth threads) s) h \<Longrightarrow>
      (\<exists>u. reachable (hybrid_step (length threads)) h u \<and> all_teams_left (length threads) u) \<and>
      (\<forall>r < length threads. hy_deleted h r = (if team_left h r then 1 else 0)) \<and>
      (all_teams_left (length threads) h \<longrightarrow>
        (\<Sum>r \<in> {0 ..< length threads}. mset (hy_runs h r)) = mset tasks \<and> sched_final (length threads) (hy_sched h))"
    by (rule hybrid_tasks [OF assms(1,2), of hc tasks]) blast
  note runs = collapse_2_runs_sum [OF tasks(2) finite_atLeastLessThan]
  show ?thesis
    using tasks(1) by (intro exI [of _ tasks] exI [of _ s] conjI allI impI s(1)) (use s(2) runs in blast)+
qed

theorem hybrid_collapse_2_exact_witness:
  "\<exists>tasks s h ps. collapse_2_root_tasks (\<lambda>c n. 3 * n) 1 () 6 (rect_point 0) \<lparr>pt_i = 3, pt_j = 0\<rparr> rect_gen () 4 = Some (Inr tasks) \<and>
    distributed_start [8, 8, 8] [4, 2, 1] tasks = Some s \<and>
    reachable (hybrid_step 3) (hybrid_start (nth [4, 2, 1]) s) h \<and> all_teams_left 3 h \<and>
    (\<forall>r \<in> {0 ..< 3}. collapse_2_par_for rect_gen () \<lparr>pt_i = 3, pt_j = 0\<rparr> (hy_runs h r) = Some (ps r)) \<and>
    (\<Sum>r \<in> {0 ..< 3}. mset (ps r)) = mset (map rect_point [0 ..< 6])"
proof -
  have a: "1 < length [4, 2, 1 :: nat]" "\<forall>t \<in> set [4, 2, 1 :: nat]. 0 < t" "3 * (of_nat ([4, 2, 1] ! 0) * 40 :: u64) \<noteq> 0"
    and n: "length [4, 2, 1 :: nat] = 3" "[4, 2, 1 :: nat] ! 0 = 4"
    by simp_all
  obtain tasks s where s: "collapse_2_root_tasks (\<lambda>c n. 3 * n) 1 () 6 (rect_point 0) \<lparr>pt_i = 3, pt_j = 0\<rparr> rect_gen () 4 = Some (Inr tasks)"
    "distributed_start [8, 8, 8] [4, 2, 1] tasks = Some s"
    "\<And>h. reachable (hybrid_step 3) (hybrid_start (nth [4, 2, 1]) s) h \<Longrightarrow>
      (\<exists>u. reachable (hybrid_step 3) h u \<and> all_teams_left 3 u) \<and>
      (all_teams_left 3 h \<longrightarrow>
        (\<exists>ps. (\<forall>r \<in> {0 ..< 3}. collapse_2_par_for rect_gen () \<lparr>pt_i = 3, pt_j = 0\<rparr> (hy_runs h r) = Some (ps r)) \<and>
          (\<Sum>r \<in> {0 ..< 3}. mset (ps r)) = mset (map rect_point [0 ..< 6])))"
    using hybrid_collapse_2_exact [where all_reduce = "\<lambda>c n. 3 * n" and comm = "()" and grain_size = 1 and hc = "[8, 8, 8]",
        OF a rect_walks]
    unfolding n of_nat_numeral by blast
  have "reachable (hybrid_step 3) (hybrid_start (nth [4, 2, 1]) s) (hybrid_start (nth [4, 2, 1]) s)"
    using run_here by (intro exI)
  then obtain h where "reachable (hybrid_step 3) (hybrid_start (nth [4, 2, 1]) s) h" "all_teams_left 3 h"
    using s(3) by blast
  then show ?thesis using s by blast
qed

end
