(* ===== verification/Mem_Ops.thy ===== *)
theory Mem_Ops
  imports Prelude
begin

text \<open>
  The leader's heap: \<^verbatim>\<open>proxy_mmap\<close>, \<^verbatim>\<open>proxy_munmap\<close> and \<^verbatim>\<open>proxy_madvise\<close> of \<^verbatim>\<open>leader.cc\<close>, which mimalloc
  calls instead of the system calls, the log of memory operations they keep, and the replay of that
  log on a worker (\<^verbatim>\<open>leader.h\<close>, \<^verbatim>\<open>worker.cc\<close>). The kernel is an argument: each system call maps its
  arguments and the state of the operating system to its result and the next state.
\<close>

section \<open>The kernel interface\<close>

text \<open>\<^verbatim>\<open>int\<close> flags are 32-bit words; the values are those of Linux.\<close>

definition PROT_NONE :: u32 where "PROT_NONE = 0"
definition MAP_PRIVATE :: u32 where "MAP_PRIVATE = 0x02"
definition MAP_FIXED :: u32 where "MAP_FIXED = 0x10"
definition MAP_ANONYMOUS :: u32 where "MAP_ANONYMOUS = 0x20"
definition MAP_NORESERVE :: u32 where "MAP_NORESERVE = 0x4000"
definition MADV_NORMAL :: u32 where "MADV_NORMAL = 0"
definition MADV_DONTNEED :: u32 where "MADV_DONTNEED = 4"

text \<open>\<^verbatim>\<open>mmap\<close> returns \<open>None\<close> for \<^verbatim>\<open>MAP_FAILED\<close>; the others return whether they succeeded.\<close>

record 'os kernel =
  k_mmap :: "u64 \<Rightarrow> u64 \<Rightarrow> u32 \<Rightarrow> u32 \<Rightarrow> u32 \<Rightarrow> u64 \<Rightarrow> 'os \<Rightarrow> u64 option \<times> 'os"
  k_munmap :: "u64 \<Rightarrow> u64 \<Rightarrow> 'os \<Rightarrow> bool \<times> 'os"
  k_madvise :: "u64 \<Rightarrow> u64 \<Rightarrow> u32 \<Rightarrow> 'os \<Rightarrow> bool \<times> 'os"

section \<open>Logged operations and their replay\<close>

record mmap_params =
  mm_addr :: u64
  mm_len :: u64
  mm_prot :: u32
  mm_flags :: u32
  mm_fd :: u32
  mm_offset :: u64

record munmap_params =
  mu_addr :: u64
  mu_len :: u64

record madvise_params =
  ma_addr :: u64
  ma_len :: u64
  ma_advice :: u32

text \<open>\<^verbatim>\<open>using mem_ops_t = std::variant<...>\<close>.\<close>

datatype mem_op = Mmap mmap_params | Munmap munmap_params | Madvise madvise_params

definition perform_mmap :: "'os kernel \<Rightarrow> mmap_params \<Rightarrow> 'os \<Rightarrow> 'os result" where
  "perform_mmap K p w =
     (case k_mmap K (mm_addr p) (mm_len p) (mm_prot p) (mm_flags p OR MAP_FIXED) (mm_fd p) (mm_offset p) w of
        (None, w') \<Rightarrow> Inl (Runtime ''Failed to mmap'')
      | (Some r, w') \<Rightarrow> Inr w')"

definition perform_munmap :: "'os kernel \<Rightarrow> munmap_params \<Rightarrow> 'os \<Rightarrow> 'os result" where
  "perform_munmap K p w =
     (case k_mmap K (mu_addr p) (mu_len p) PROT_NONE
        (MAP_PRIVATE OR MAP_ANONYMOUS OR MAP_NORESERVE OR MAP_FIXED) (- 1) 0 w of
        (None, w') \<Rightarrow> Inl (Runtime ''Failed to occupy the unmaped area in worker process'')
      | (Some r, w') \<Rightarrow> Inr w')"

text \<open>The two builds: \<open>ndebug\<close> is whether \<^verbatim>\<open>NDEBUG\<close> is defined.\<close>

definition perform_madvise :: "bool \<Rightarrow> 'os kernel \<Rightarrow> madvise_params \<Rightarrow> 'os \<Rightarrow> 'os result" where
  "perform_madvise ndebug K p w =
     (if \<not> ndebug then
        (case k_madvise K (ma_addr p) (ma_len p) MADV_NORMAL w of
           (ok, w') \<Rightarrow> if \<not> ok then Inl Terminate else Inr w')
      else Inr (snd (k_madvise K (ma_addr p) (ma_len p) (ma_advice p) w)))"

fun perform_mem_op :: "bool \<Rightarrow> 'os kernel \<Rightarrow> mem_op \<Rightarrow> 'os \<Rightarrow> 'os result" where
  "perform_mem_op ndebug K (Mmap p) w = perform_mmap K p w"
| "perform_mem_op ndebug K (Munmap p) w = perform_munmap K p w"
| "perform_mem_op ndebug K (Madvise p) w = perform_madvise ndebug K p w"

text \<open>The loop of \<^verbatim>\<open>recv_and_perform_mem_ops\<close>.\<close>

fun perform_mem_ops :: "bool \<Rightarrow> 'os kernel \<Rightarrow> mem_op list \<Rightarrow> 'os \<Rightarrow> 'os result" where
  "perform_mem_ops ndebug K [] w = Inr w"
| "perform_mem_ops ndebug K (op # ops) w =
     bindE (perform_mem_op ndebug K op w) (perform_mem_ops ndebug K ops)"

section \<open>The proxies\<close>

text \<open>
  The static \<^verbatim>\<open>begin\<close> of \<^verbatim>\<open>proxy_mmap\<close>, the log \<^verbatim>\<open>memory_operations()\<close> and the operating system. The
  reserved heap is an argument.
\<close>

record 'os leader_mem =
  pm_begin :: u64
  memory_operations :: "mem_op list"
  lm_os :: 'os

definition heap_step :: u64 where
  "heap_step = 1024 * 1024 * 1024"

definition round_up :: "u64 \<Rightarrow> u64 \<Rightarrow> u64" where
  "round_up num_to_round multiple =
     (if multiple = 0 then num_to_round
      else let remainder = num_to_round mod multiple in
        if remainder = 0 then num_to_round else num_to_round + multiple - remainder)"

definition mem_area_overlap :: "mem_area \<Rightarrow> mem_area \<Rightarrow> bool" where
  "mem_area_overlap lhs rhs \<longleftrightarrow> ma_back lhs \<ge> ma_data rhs \<and> ma_data lhs \<le> ma_back rhs"

definition overlap_with_reserved_heap :: "mem_area \<Rightarrow> mem_area \<Rightarrow> bool" where
  "overlap_with_reserved_heap heap a = mem_area_overlap a heap"

text \<open>The \<^verbatim>\<open>while (true)\<close> loop: the address of the mapping, or \<^verbatim>\<open>std::terminate\<close> at the end of the heap.\<close>

partial_function (option) mmap_loop ::
  "(u64 \<Rightarrow> 'os \<Rightarrow> u64 option \<times> 'os) \<Rightarrow> (u64 \<Rightarrow> 'os \<Rightarrow> 'os) \<Rightarrow> u64 \<Rightarrow> u64 \<Rightarrow> u64 \<Rightarrow> 'os \<Rightarrow>
   (u64 \<times> 'os) result option" where
  "mmap_loop try_map unmap heap_end len start w =
     (if heap_end < start + len then Some (Inl Terminate)
      else (case try_map start w of
          (None, w') \<Rightarrow> mmap_loop try_map unmap heap_end len (start + heap_step) w'
        | (Some res, w') \<Rightarrow>
            if res \<noteq> start then mmap_loop try_map unmap heap_end len (start + heap_step) (unmap res w')
            else Some (Inr (start, w'))))"

definition proxy_mmap ::
  "mem_area \<Rightarrow> 'os kernel \<Rightarrow> u64 \<Rightarrow> u32 \<Rightarrow> u32 \<Rightarrow> u32 \<Rightarrow> u64 \<Rightarrow> 'os leader_mem \<Rightarrow>
   (u64 \<times> 'os leader_mem) result option" where
  "proxy_mmap heap K len prot flags file_desc offset st =
     (if flags AND MAP_FIXED \<noteq> 0 \<or> file_desc \<noteq> - 1 then Some (Inl AssertFailed)
      else
        map_option (\<lambda>r. bindE r (\<lambda>(res, w). Inr (res,
            st\<lparr>pm_begin := res + round_up len heap_step,
               memory_operations := memory_operations st @
                 [Mmap \<lparr>mm_addr = res, mm_len = len, mm_prot = prot, mm_flags = flags,
                        mm_fd = file_desc, mm_offset = offset\<rparr>],
               lm_os := w\<rparr>)))
          (mmap_loop (\<lambda>a. k_mmap K a len prot flags file_desc offset) (\<lambda>a w. snd (k_munmap K a len w))
             (ma_end heap) len (pm_begin st) (lm_os st)))"

definition proxy_madvise ::
  "bool \<Rightarrow> mem_area \<Rightarrow> 'os kernel \<Rightarrow> u64 \<Rightarrow> u64 \<Rightarrow> u32 \<Rightarrow> 'os leader_mem \<Rightarrow> bool \<times> 'os leader_mem" where
  "proxy_madvise finished heap K addr sz advice st =
     (case k_madvise K addr sz advice (lm_os st) of (ret, w) \<Rightarrow>
        if finished \<or> \<not> overlap_with_reserved_heap heap \<lparr>ma_data = addr, ma_size = sz\<rparr> then
          (ret, st\<lparr>lm_os := w\<rparr>)
        else if ret then
          (ret, st\<lparr>lm_os := w, memory_operations := memory_operations st @
             [Madvise \<lparr>ma_addr = addr, ma_len = sz, ma_advice = advice\<rparr>]\<rparr>)
        else (ret, st\<lparr>lm_os := w\<rparr>))"

definition proxy_munmap ::
  "bool \<Rightarrow> mem_area \<Rightarrow> 'os kernel \<Rightarrow> u64 \<Rightarrow> u64 \<Rightarrow> 'os leader_mem \<Rightarrow> bool \<times> 'os leader_mem" where
  "proxy_munmap finished heap K addr sz st =
     (case k_munmap K addr sz (lm_os st) of (ret, w) \<Rightarrow>
        if finished \<or> \<not> overlap_with_reserved_heap heap \<lparr>ma_data = addr, ma_size = sz\<rparr> then
          (ret, st\<lparr>lm_os := w\<rparr>)
        else if ret then
          (ret, st\<lparr>lm_os := w, memory_operations := memory_operations st @
             [Munmap \<lparr>mu_addr = addr, mu_len = sz\<rparr>]\<rparr>)
        else (ret, st\<lparr>lm_os := w\<rparr>))"

section \<open>Reserving the heap on a worker\<close>

text \<open>The errors of \<^verbatim>\<open>reserve_heap_area\<close> are returned with the operating system they leave behind.\<close>

function reserve_loop :: "'os kernel \<Rightarrow> mem_area \<Rightarrow> u64 \<Rightarrow> nat \<Rightarrow> 'os \<Rightarrow> unit result \<times> 'os" where
  "reserve_loop K heap ptr loop_count w =
     (if ptr \<noteq> ma_data heap then
        (case k_mmap K (ma_data heap) (ma_size heap) PROT_NONE
            (MAP_PRIVATE OR MAP_ANONYMOUS OR MAP_NORESERVE) (- 1) 0 w of
           (None, w') \<Rightarrow>
             if 16 < Suc loop_count then (Inl (Runtime ''mmap reserved heap failed after 16 times''), w')
             else reserve_loop K heap (- 1) (Suc loop_count) w'
         | (Some p, w') \<Rightarrow>
             if p \<noteq> ma_data heap then
               if 16 < Suc loop_count then (Inl (Runtime ''reserved heap is not at expected address''), w')
               else reserve_loop K heap p (Suc loop_count) (snd (k_munmap K p (ma_size heap) w'))
             else reserve_loop K heap p (Suc loop_count) w')
      else (Inr (), w))"
  by pat_completeness auto

termination
  by (relation "measure (\<lambda>(K, heap, ptr, n, w). if ptr = ma_data heap then 0 else Suc (18 - n))") auto

declare reserve_loop.simps [simp del]

definition reserve_heap_area :: "'os kernel \<Rightarrow> mem_area \<Rightarrow> 'os \<Rightarrow> unit result \<times> 'os" where
  "reserve_heap_area K heap w = reserve_loop K heap 0 0 w"

abbreviation reserve_call :: "'os kernel \<Rightarrow> mem_area \<Rightarrow> 'os \<Rightarrow> u64 option \<times> 'os" where
  "reserve_call K heap w \<equiv> k_mmap K (ma_data heap) (ma_size heap) PROT_NONE
     (MAP_PRIVATE OR MAP_ANONYMOUS OR MAP_NORESERVE) (- 1) 0 w"

definition reserved :: "'os kernel \<Rightarrow> mem_area \<Rightarrow> 'os \<Rightarrow> bool" where
  "reserved K heap w \<longleftrightarrow> (\<exists>v. reserve_call K heap v = (Some (ma_data heap), w))"

lemma reserve_loop_end: "reserve_loop K heap (ma_data heap) n w = (Inr (), w)"
  by (simp add: reserve_loop.simps [of K heap "ma_data heap"])

lemma reserve_loop_None:
  "ptr \<noteq> ma_data heap \<Longrightarrow> reserve_call K heap w = (None, w') \<Longrightarrow>
   reserve_loop K heap ptr n w =
     (if 16 < Suc n then (Inl (Runtime ''mmap reserved heap failed after 16 times''), w')
      else reserve_loop K heap (- 1) (Suc n) w')"
  by (simp add: reserve_loop.simps [of K heap ptr])

lemma reserve_loop_Some:
  "ptr \<noteq> ma_data heap \<Longrightarrow> reserve_call K heap w = (Some p, w') \<Longrightarrow> p \<noteq> ma_data heap \<Longrightarrow>
   reserve_loop K heap ptr n w =
     (if 16 < Suc n then (Inl (Runtime ''reserved heap is not at expected address''), w')
      else reserve_loop K heap p (Suc n) (snd (k_munmap K p (ma_size heap) w')))"
  by (simp add: reserve_loop.simps [of K heap ptr])

lemma reserve_loop_hit:
  "ptr \<noteq> ma_data heap \<Longrightarrow> reserve_call K heap w = (Some (ma_data heap), w') \<Longrightarrow>
   reserve_loop K heap ptr n w = (Inr (), w')"
  by (simp add: reserve_loop.simps [of K heap ptr] reserve_loop_end)

definition reserve_ok :: "'os kernel \<Rightarrow> mem_area \<Rightarrow> unit result \<times> 'os \<Rightarrow> bool" where
  "reserve_ok K heap r = (case fst r of Inr u \<Rightarrow> reserved K heap (snd r) | Inl e \<Rightarrow> (\<exists>msg. e = Runtime msg))"

lemma reserve_loop_result:
  assumes "ptr \<noteq> ma_data heap" "ma_data heap \<noteq> - 1"
  shows "reserve_ok K heap (reserve_loop K heap ptr n w)"
  using assms
proof (induction K heap ptr n w rule: reserve_loop.induct)
  case (1 K heap ptr n w)
  obtain r w' where r: "reserve_call K heap w = (r, w')" by (metis surj_pair)
  show ?case
  proof (cases r)
    case None
    have m: "- 1 \<noteq> ma_data heap" using "1.prems"(2) by metis
    have "\<not> 16 < Suc n \<Longrightarrow> reserve_ok K heap (reserve_loop K heap (- 1) (Suc n) w')"
      using "1.IH"(1) [OF "1.prems"(1) r [symmetric] None _ m "1.prems"(2)] by blast
    then show ?thesis
      using reserve_loop_None [OF "1.prems"(1), of K w w' n] r None by (simp add: reserve_ok_def)
  next
    case (Some p)
    show ?thesis
    proof (cases "p = ma_data heap")
      case True
      then show ?thesis
        using reserve_loop_hit [OF "1.prems"(1), of K w w' n] r Some by (auto simp: reserve_ok_def reserved_def)
    next
      case False
      have "\<not> 16 < Suc n \<Longrightarrow>
          reserve_ok K heap (reserve_loop K heap p (Suc n) (snd (k_munmap K p (ma_size heap) w')))"
        using "1.IH"(2) [OF "1.prems"(1) r [symmetric] Some False _ False "1.prems"(2)] by blast
      then show ?thesis
        using reserve_loop_Some [OF "1.prems"(1) _ False, of K w w' n] r Some by (simp add: reserve_ok_def)
    qed
  qed
qed

text \<open>
  \<^verbatim>\<open>reserve_heap_area\<close> always returns: either its last system call placed the mapping at the
  heap's address, or it has thrown a \<^verbatim>\<open>runtime_error\<close>.
\<close>

theorem reserve_heap_area_result:
  assumes "ma_data heap \<noteq> 0" "ma_data heap \<noteq> - 1"
  shows "(\<exists>w'. reserve_heap_area K heap w = (Inr (), w') \<and> reserved K heap w') \<or>
    (\<exists>msg w'. reserve_heap_area K heap w = (Inl (Runtime msg), w'))"
proof -
  have "reserve_ok K heap (reserve_heap_area K heap w)"
    unfolding reserve_heap_area_def by (rule reserve_loop_result) (use assms in auto)
  then show ?thesis
    by (cases "reserve_heap_area K heap w") (auto simp: reserve_ok_def split: sum.splits)
qed

text \<open>A kernel that counts its calls and fails the first \<open>k\<close> mappings.\<close>

definition failing_kernel :: "nat \<Rightarrow> nat kernel" where
  "failing_kernel k = \<lparr>k_mmap = (\<lambda>a len prot flags fd off n. (if n < k then None else Some a, Suc n)),
     k_munmap = (\<lambda>a len n. (True, n)), k_madvise = (\<lambda>a len advice n. (True, n))\<rparr>"

theorem reserve_heap_area_result_witness:
  "(\<exists>w'. reserve_heap_area (failing_kernel 2) \<lparr>ma_data = 0x410000000000, ma_size = 0x100000000000\<rparr> 0 = (Inr (), w') \<and>
      reserved (failing_kernel 2) \<lparr>ma_data = 0x410000000000, ma_size = 0x100000000000\<rparr> w') \<or>
   (\<exists>msg w'. reserve_heap_area (failing_kernel 2) \<lparr>ma_data = 0x410000000000, ma_size = 0x100000000000\<rparr> 0
      = (Inl (Runtime msg), w'))"
  by (rule reserve_heap_area_result) simp_all

lemma reserve_loop_failing:
  assumes "ptr \<noteq> ma_data heap" "ma_data heap \<noteq> - 1" "\<And>v. fst (reserve_call K heap v) = None" "n + j = 16"
  shows "reserve_loop K heap ptr n w = (Inl (Runtime ''mmap reserved heap failed after 16 times''),
    ((\<lambda>v. snd (reserve_call K heap v)) ^^ Suc j) w)"
  using assms
proof (induction j arbitrary: ptr n w)
  case 0
  then have c: "reserve_call K heap w = (None, snd (reserve_call K heap w))" by (metis prod.collapse)
  show ?case using reserve_loop_None [OF "0.prems"(1) c] "0.prems"(4) by simp
next
  case (Suc j)
  have c: "reserve_call K heap w = (None, snd (reserve_call K heap w))" using Suc.prems(3) by (metis prod.collapse)
  have "- 1 \<noteq> ma_data heap" using Suc.prems(2) by metis
  then have "reserve_loop K heap (- 1) (Suc n) (snd (reserve_call K heap w))
      = (Inl (Runtime ''mmap reserved heap failed after 16 times''),
         ((\<lambda>v. snd (reserve_call K heap v)) ^^ Suc j) (snd (reserve_call K heap w)))"
    using Suc.IH [of "- 1" "Suc n" "snd (reserve_call K heap w)"] Suc.prems(2-4) by simp
  moreover have "((\<lambda>v. snd (reserve_call K heap v)) ^^ Suc (Suc j)) w
      = ((\<lambda>v. snd (reserve_call K heap v)) ^^ Suc j) (snd (reserve_call K heap w))"
    by (simp only: funpow_Suc_right comp_apply)
  ultimately show ?case
    unfolding reserve_loop_None [OF Suc.prems(1) c] using Suc.prems(4) by simp
qed

text \<open>
  When every mapping fails, \<^verbatim>\<open>reserve_heap_area\<close> gives up after 17 attempts (its comment and its
  message say 16).
\<close>

theorem reserve_heap_area_attempts:
  assumes "ma_data heap \<noteq> 0" "ma_data heap \<noteq> - 1" "\<forall>v. fst (reserve_call K heap v) = None"
  shows "reserve_heap_area K heap w = (Inl (Runtime ''mmap reserved heap failed after 16 times''),
    ((\<lambda>v. snd (reserve_call K heap v)) ^^ 17) w)"
proof -
  have "0 + 16 = (16 :: nat)" "Suc 16 = 17" by simp_all
  then show ?thesis
    unfolding reserve_heap_area_def using reserve_loop_failing [of 0 heap K 0 16 w] assms by metis
qed

theorem reserve_heap_area_attempts_witness:
  "reserve_heap_area \<lparr>k_mmap = (\<lambda>a len prot flags fd off n. (None, Suc n)), k_munmap = (\<lambda>a len n. (True, n)),
       k_madvise = (\<lambda>a len advice n. (True, n))\<rparr>
     \<lparr>ma_data = 0x410000000000, ma_size = 0x100000000000\<rparr> (0 :: nat)
   = (Inl (Runtime ''mmap reserved heap failed after 16 times''), 17)"
proof -
  let ?K = "\<lparr>k_mmap = (\<lambda>a len prot flags fd off n. (None, Suc n)), k_munmap = (\<lambda>a len n. (True, n)),
     k_madvise = (\<lambda>a len advice n. (True, n))\<rparr> :: nat kernel"
  let ?heap = "\<lparr>ma_data = 0x410000000000, ma_size = 0x100000000000\<rparr> :: mem_area"
  have "(\<lambda>v. snd (reserve_call ?K ?heap v)) = Suc" by (simp add: fun_eq_iff)
  then have "((\<lambda>v. snd (reserve_call ?K ?heap v)) ^^ 17) 0 = 17" by (simp add: Suc_funpow)
  then show ?thesis using reserve_heap_area_attempts [of ?heap ?K 0] by simp
qed

end
