(* ===== verification/Mem_Ops_Proofs.thy ===== *)
theory Mem_Ops_Proofs
  imports Mem_Ops
begin

text \<open>
  What the leader's heap guarantees: areas handed out are disjoint and inside the reserved heap, and
  replaying the log gives a worker the leader's mappings.
\<close>

section \<open>Areas\<close>

definition area_fits :: "mem_area \<Rightarrow> bool" where
  "area_fits a \<longleftrightarrow> ma_size a \<noteq> 0 \<and> unat (ma_data a) + unat (ma_size a) \<le> 2 ^ 64"

lemma unat_ma_back:
  assumes "area_fits a"
  shows "unat (ma_back a) + 1 = unat (ma_data a) + unat (ma_size a)"
proof -
  have pos: "1 \<le> unat (ma_size a)" using assms u64_neq_0_iff [of "ma_size a"] by (auto simp: area_fits_def)
  then have s: "unat (ma_size a - 1) = unat (ma_size a) - 1" using unat_sub_nw [of 1 "ma_size a"] by simp
  have "unat (ma_data a) + unat (ma_size a - 1) < 2 ^ 64"
    using assms pos unfolding s area_fits_def by linarith
  then have "unat (ma_data a + (ma_size a - 1)) = unat (ma_data a) + (unat (ma_size a) - 1)"
    using unat_add_nw [of "ma_data a" "ma_size a - 1"] s by simp
  moreover have "ma_back a = ma_data a + (ma_size a - 1)" by (simp add: ma_back_def)
  ultimately show ?thesis using pos by simp
qed

lemma atLeastLessThan_meet:
  "{a ..< a + m} \<inter> {b ..< b + n :: nat} \<noteq> {} \<longleftrightarrow> 0 < m \<and> 0 < n \<and> b < a + m \<and> a < b + n"
proof
  assume "{a ..< a + m} \<inter> {b ..< b + n} \<noteq> {}"
  then obtain x where "x \<in> {a ..< a + m} \<inter> {b ..< b + n}" by blast
  then have "a \<le> x" "x < a + m" "b \<le> x" "x < b + n" by simp_all
  then show "0 < m \<and> 0 < n \<and> b < a + m \<and> a < b + n" by linarith
next
  assume "0 < m \<and> 0 < n \<and> b < a + m \<and> a < b + n"
  then have "max a b \<in> {a ..< a + m} \<inter> {b ..< b + n}" by auto
  then show "{a ..< a + m} \<inter> {b ..< b + n} \<noteq> {}" by blast
qed

lemma mem_area_overlap_iff:
  assumes "area_fits a" "area_fits b"
  shows "mem_area_overlap a b \<longleftrightarrow> area_bytes a \<inter> area_bytes b \<noteq> {}"
proof -
  have "0 < unat (ma_size a)" "0 < unat (ma_size b)"
    using assms u64_neq_0_iff by (auto simp: area_fits_def)
  then show ?thesis
    using unat_ma_back [OF assms(1)] unat_ma_back [OF assms(2)]
    unfolding mem_area_overlap_def area_bytes_def atLeastLessThan_meet word_le_nat_alt by linarith
qed

text \<open>
  \<^verbatim>\<open>mem_area_overlap\<close> decides whether two non-empty areas share a byte.
\<close>

theorem mem_area_overlap_exact:
  assumes "area_fits a" "area_fits b"
  shows "mem_area_overlap a b \<longleftrightarrow> area_bytes a \<inter> area_bytes b \<noteq> {}"
  using assms by (rule mem_area_overlap_iff)

theorem mem_area_overlap_exact_witness:
  "mem_area_overlap \<lparr>ma_data = 0x1000, ma_size = 16\<rparr> \<lparr>ma_data = 0x100F, ma_size = 1\<rparr> \<longleftrightarrow>
     area_bytes \<lparr>ma_data = 0x1000, ma_size = 16\<rparr> \<inter> area_bytes \<lparr>ma_data = 0x100F, ma_size = 1\<rparr> \<noteq> {}"
  by (rule mem_area_overlap_exact) (simp_all add: area_fits_def)

section \<open>Placing a mapping\<close>

lemma unat_heap_step: "unat heap_step = 2 ^ 30"
  by (simp add: heap_step_def)

lemma unat_round_up:
  assumes "multiple \<noteq> 0" "unat n + unat multiple < 2 ^ 64"
  shows "unat (round_up n multiple) mod unat multiple = 0 \<and>
    unat n \<le> unat (round_up n multiple) \<and> unat (round_up n multiple) < unat n + unat multiple"
proof (cases "n mod multiple = 0")
  case True
  have "unat n mod unat multiple = 0" using arg_cong [OF True, of unat] by (simp add: unat_mod)
  then show ?thesis using True assms(1) u64_neq_0_iff [of multiple] by (simp add: round_up_def)
next
  case False
  let ?r = "n mod multiple"
  have m: "0 < unat multiple" using assms(1) u64_neq_0_iff by blast
  have r: "unat ?r = unat n mod unat multiple" by (simp add: unat_mod)
  have rpos: "0 < unat ?r" using False u64_neq_0_iff by blast
  have rlt: "unat ?r < unat multiple" using m unfolding r by simp
  have rle: "unat ?r \<le> unat n" unfolding r by simp
  have s: "unat (n + multiple) = unat n + unat multiple" using unat_add_nw assms(2) by blast
  then have d: "unat (n + multiple - ?r) = unat n + unat multiple - unat ?r"
    using unat_sub_nw [of ?r "n + multiple"] rle by simp
  have "unat n - unat ?r = (unat n div unat multiple) * unat multiple"
    unfolding r by (simp add: minus_mod_eq_div_mult)
  then have "unat n + unat multiple - unat ?r = Suc (unat n div unat multiple) * unat multiple"
    using rle by simp
  then have "(unat n + unat multiple - unat ?r) mod unat multiple = 0" by (metis mod_mult_self2_is_0)
  then show ?thesis using False assms(1) d rpos rlt rle by (simp add: round_up_def Let_def)
qed

lemma mmap_loop_places:
  assumes "unat heap_end + unat len + 2 ^ 31 < 2 ^ 64"
    and "unat start \<le> unat heap_end + 2 ^ 30" "P w"
    and fail: "\<And>a w w'. P w \<Longrightarrow> try_map a w = (None, w') \<Longrightarrow> P w'"
    and misplaced: "\<And>a r w w'. P w \<Longrightarrow> try_map a w = (Some r, w') \<Longrightarrow> r \<noteq> a \<Longrightarrow> P (unmap r w')"
  shows "mmap_loop try_map unmap heap_end len start w = Some (Inl Terminate) \<or>
    (\<exists>r w0 w1 k. mmap_loop try_map unmap heap_end len start w = Some (Inr (r, w1)) \<and> P w0 \<and>
       try_map r w0 = (Some r, w1) \<and> unat r = unat start + k * 2 ^ 30 \<and> unat r + unat len \<le> unat heap_end)"
    (is "?goal start w")
  using assms(2,3)
proof (induction "unat heap_end + 2 ^ 30 - unat start" arbitrary: start w rule: less_induct)
  case less
  have "unat start + unat len < 2 ^ 64" using assms(1) less.prems(1) by simp
  then have sl: "unat (start + len) = unat start + unat len" by (rule unat_add_nw)
  show ?case
  proof (cases "heap_end < start + len")
    case True
    then show ?thesis by (simp add: mmap_loop.simps [of _ _ _ _ start])
  next
    case False
    then have le: "unat start + unat len \<le> unat heap_end" using sl by (simp add: word_less_nat_alt)
    have "unat start + unat heap_step < 2 ^ 64" using assms(1) le by (simp add: unat_heap_step)
    then have st: "unat (start + heap_step) = unat start + 2 ^ 30"
      using unat_add_nw [of start heap_step] unat_heap_step by simp
    have again: "?goal start w" if eq: "mmap_loop try_map unmap heap_end len start w
        = mmap_loop try_map unmap heap_end len (start + heap_step) w'" and "P w'" for w'
    proof -
      have m: "unat heap_end + 2 ^ 30 - unat (start + heap_step) < unat heap_end + 2 ^ 30 - unat start"
        "unat (start + heap_step) \<le> unat heap_end + 2 ^ 30"
        using st le by simp_all
      show ?thesis using less.hyps [OF m \<open>P w'\<close>] unfolding eq st
        by (metis (no_types, lifting) add.assoc mult_Suc)
    qed
    obtain res w' where r: "try_map start w = (res, w')" by (metis surj_pair)
    show ?thesis
    proof (cases res)
      case None
      then have "mmap_loop try_map unmap heap_end len start w
          = mmap_loop try_map unmap heap_end len (start + heap_step) w'"
        using r False by (simp add: mmap_loop.simps [of _ _ _ _ start])
      then show ?thesis using again fail less.prems(2) r None by blast
    next
      case (Some a)
      show ?thesis
      proof (cases "a = start")
        case True
        then have "mmap_loop try_map unmap heap_end len start w = Some (Inr (start, w'))"
          using r False Some by (simp add: mmap_loop.simps [of _ _ _ _ start])
        then show ?thesis using le less.prems(2) r Some True
          by (intro disjI2 exI [of _ start] exI [of _ w] exI [of _ w'] exI [of _ 0]) simp
      next
        case ne: False
        then have "mmap_loop try_map unmap heap_end len start w
            = mmap_loop try_map unmap heap_end len (start + heap_step) (unmap a w')"
          using r False Some by (simp add: mmap_loop.simps [of _ _ _ _ start])
        then show ?thesis using again misplaced less.prems(2) r Some ne by blast
      qed
    qed
  qed
qed

section \<open>Runs of the proxies\<close>

definition len_ok :: "mem_area \<Rightarrow> u64 \<Rightarrow> bool" where
  "len_ok heap len \<longleftrightarrow> unat (ma_end heap) + unat len + 2 ^ 31 < 2 ^ 64"

text \<open>
  Any sequence of proxy calls before the program has finished, from the state \<open>st0\<close>; the list holds
  the areas that \<^verbatim>\<open>proxy_mmap\<close> has returned, the latest first.
\<close>

inductive leader_run ::
  "mem_area \<Rightarrow> 'os kernel \<Rightarrow> 'os leader_mem \<Rightarrow> 'os leader_mem \<Rightarrow> mem_area list \<Rightarrow> bool" for heap K st0 where
  lr_start: "leader_run heap K st0 st0 []"
| lr_mmap: "leader_run heap K st0 st as \<Longrightarrow> len_ok heap len \<Longrightarrow>
    proxy_mmap heap K len prot flags fd off st = Some (Inr (r, st')) \<Longrightarrow>
    leader_run heap K st0 st' (\<lparr>ma_data = r, ma_size = len\<rparr> # as)"
| lr_munmap: "leader_run heap K st0 st as \<Longrightarrow> proxy_munmap False heap K a len st = (ret, st') \<Longrightarrow>
    leader_run heap K st0 st' as"
| lr_madvise: "leader_run heap K st0 st as \<Longrightarrow> proxy_madvise False heap K a len advice st = (ret, st') \<Longrightarrow>
    leader_run heap K st0 st' as"

lemma proxy_mmap_places:
  assumes "len_ok heap len" "unat (pm_begin st) \<le> unat (ma_end heap) + 2 ^ 30"
    and "flags AND MAP_FIXED = 0" "fd = - 1" "P (lm_os st)"
    and "\<And>a w w'. P w \<Longrightarrow> k_mmap K a len prot flags fd off w = (None, w') \<Longrightarrow> P w'"
    and "\<And>a r w w'. P w \<Longrightarrow> k_mmap K a len prot flags fd off w = (Some r, w') \<Longrightarrow> r \<noteq> a \<Longrightarrow>
      P (snd (k_munmap K r len w'))"
  shows "proxy_mmap heap K len prot flags fd off st = Some (Inl Terminate) \<or>
    (\<exists>r w0 w1 k. proxy_mmap heap K len prot flags fd off st = Some (Inr (r,
        st\<lparr>pm_begin := r + round_up len heap_step,
           memory_operations := memory_operations st @
             [Mmap \<lparr>mm_addr = r, mm_len = len, mm_prot = prot, mm_flags = flags, mm_fd = fd, mm_offset = off\<rparr>],
           lm_os := w1\<rparr>)) \<and>
      P w0 \<and> k_mmap K r len prot flags fd off w0 = (Some r, w1) \<and>
      unat r = unat (pm_begin st) + k * 2 ^ 30 \<and> unat r + unat len \<le> unat (ma_end heap))"
proof -
  let ?attempt = "\<lambda>a. k_mmap K a len prot flags fd off" and ?un = "\<lambda>a w. snd (k_munmap K a len w)"
  let ?loop = "mmap_loop ?attempt ?un (ma_end heap) len (pm_begin st) (lm_os st)"
  have "unat (ma_end heap) + unat len + 2 ^ 31 < 2 ^ 64" using assms(1) by (simp add: len_ok_def)
  then consider "?loop = Some (Inl Terminate)"
    | r w0 w1 k where "?loop = Some (Inr (r, w1))" "P w0" "?attempt r w0 = (Some r, w1)"
        "unat r = unat (pm_begin st) + k * 2 ^ 30" "unat r + unat len \<le> unat (ma_end heap)"
    using mmap_loop_places [of "ma_end heap" len "pm_begin st" P "lm_os st" ?attempt ?un] assms(2,5-7) by blast
  then show ?thesis
  proof cases
    case 1
    then show ?thesis using assms(3,4) by (simp add: proxy_mmap_def)
  next
    case 2
    then show ?thesis using assms(3,4) by (intro disjI2 exI [of _ r] exI [of _ w0] exI [of _ w1] exI [of _ k])
        (simp add: proxy_mmap_def)
  qed
qed

lemma proxy_mmap_asserts:
  "proxy_mmap heap K len prot flags fd off st = Some (Inr r) \<Longrightarrow> flags AND MAP_FIXED = 0 \<and> fd = - 1"
  by (auto simp: proxy_mmap_def split: if_splits)

text \<open>The areas so far lie in the heap below \<^verbatim>\<open>begin\<close>, on 1 GiB boundaries, and are disjoint.\<close>

definition allocs_ok :: "mem_area \<Rightarrow> 'os leader_mem \<Rightarrow> mem_area list \<Rightarrow> bool" where
  "allocs_ok heap st as \<longleftrightarrow>
     unat (ma_data heap) \<le> unat (pm_begin st) \<and> unat (pm_begin st) \<le> unat (ma_end heap) + 2 ^ 30 \<and>
     (unat (pm_begin st) - unat (ma_data heap)) mod 2 ^ 30 = 0 \<and>
     sorted_wrt (\<lambda>a b. area_bytes a \<inter> area_bytes b = {}) as \<and>
     (\<forall>a \<in> set as. unat (ma_data heap) \<le> unat (ma_data a) \<and>
        unat (ma_data a) + unat (ma_size a) \<le> unat (ma_end heap) \<and>
        unat (ma_data a) + unat (ma_size a) \<le> unat (pm_begin st) \<and>
        (unat (ma_data a) - unat (ma_data heap)) mod 2 ^ 30 = 0)"

lemma proxy_mmap_allocs:
  assumes "len_ok heap len" "allocs_ok heap st as"
    and m: "proxy_mmap heap K len prot flags fd off st = Some (Inr (r, st'))"
  shows "allocs_ok heap st' (\<lparr>ma_data = r, ma_size = len\<rparr> # as)"
proof -
  have fl: "flags AND MAP_FIXED = 0" "fd = - 1" using proxy_mmap_asserts [OF m] by simp_all
  obtain k where b': "pm_begin st' = r + round_up len heap_step"
    and r: "unat r = unat (pm_begin st) + k * 2 ^ 30" and le: "unat r + unat len \<le> unat (ma_end heap)"
    using proxy_mmap_places [OF assms(1) _ fl, of st "\<lambda>w. True" K prot off] m assms(2)
    by (auto simp: allocs_ok_def)
  have "unat len + unat heap_step < 2 ^ 64" using assms(1) by (simp add: len_ok_def unat_heap_step)
  then have ru: "unat (round_up len heap_step) mod 2 ^ 30 = 0" "unat len \<le> unat (round_up len heap_step)"
    "unat (round_up len heap_step) < unat len + 2 ^ 30"
    using unat_round_up [of heap_step len] by (simp_all add: unat_heap_step heap_step_def)
  have "unat r + unat (round_up len heap_step) < 2 ^ 64" using ru(3) le assms(1) by (simp add: len_ok_def)
  then have ub: "unat (pm_begin st') = unat r + unat (round_up len heap_step)"
    unfolding b' by (rule unat_add_nw)
  have al: "(unat r - unat (ma_data heap)) mod 2 ^ 30 = 0"
  proof -
    have e: "unat r - unat (ma_data heap) = (unat (pm_begin st) - unat (ma_data heap)) + k * 2 ^ 30"
      using r assms(2) by (simp add: allocs_ok_def)
    show ?thesis unfolding e mod_mult_self1 using assms(2) by (simp add: allocs_ok_def)
  qed
  have hd: "unat (ma_data heap) \<le> unat r" using r assms(2) by (simp add: allocs_ok_def)
  have al': "(unat (pm_begin st') - unat (ma_data heap)) mod 2 ^ 30 = 0"
  proof -
    have e: "unat (pm_begin st') - unat (ma_data heap) = (unat r - unat (ma_data heap)) + unat (round_up len heap_step)"
      unfolding ub using hd by (rule diff_add_assoc2)
    show ?thesis unfolding e using al ru(1) unfolding mod_eq_0_iff_dvd by (rule dvd_add)
  qed
  have disj: "area_bytes \<lparr>ma_data = r, ma_size = len\<rparr> \<inter> area_bytes a = {}" if "a \<in> set as" for a
  proof -
    have "unat (ma_data a) + unat (ma_size a) \<le> unat (pm_begin st)" using assms(2) that by (simp add: allocs_ok_def)
    then have "unat (ma_data a) + unat (ma_size a) \<le> unat r" unfolding r by (rule trans_le_add1)
    then show ?thesis by (auto simp: area_bytes_def)
  qed
  have old: "unat (ma_data a) + unat (ma_size a) \<le> unat (pm_begin st')" if "a \<in> set as" for a
  proof -
    have "unat (ma_data a) + unat (ma_size a) \<le> unat (pm_begin st)" using assms(2) that by (simp add: allocs_ok_def)
    then show ?thesis using r ub by linarith
  qed
  have "unat (ma_data heap) \<le> unat (pm_begin st')" unfolding ub using hd by (rule trans_le_add1)
  moreover have "unat (pm_begin st') \<le> unat (ma_end heap) + 2 ^ 30" unfolding ub using ru(3) le by linarith
  moreover have "unat r + unat len \<le> unat (pm_begin st')" unfolding ub using ru(2) by (rule add_left_mono)
  ultimately show ?thesis
    using al al' hd disj old le assms(2) unfolding allocs_ok_def by simp
qed

lemma proxy_munmap_begin:
  "proxy_munmap fin heap K a len st = (ret, st') \<Longrightarrow> pm_begin st' = pm_begin st"
  by (auto simp: proxy_munmap_def split: prod.splits if_splits)

lemma proxy_madvise_begin:
  "proxy_madvise fin heap K a len advice st = (ret, st') \<Longrightarrow> pm_begin st' = pm_begin st"
  by (auto simp: proxy_madvise_def split: prod.splits if_splits)

definition heap_start :: "mem_area \<Rightarrow> 'os leader_mem \<Rightarrow> bool" where
  "heap_start heap st \<longleftrightarrow> pm_begin st = ma_data heap \<and> memory_operations st = [] \<and>
     ma_size heap \<noteq> 0 \<and> unat (ma_data heap) + unat (ma_size heap) < 2 ^ 64"

lemma heap_end: "heap_start heap st \<Longrightarrow> unat (ma_end heap) = unat (ma_data heap) + unat (ma_size heap)"
  unfolding heap_start_def ma_end_def using unat_add_nw by blast

lemma leader_run_allocs:
  assumes "leader_run heap K st0 st as" "heap_start heap st0"
  shows "allocs_ok heap st as"
  using assms(1)
proof (induction rule: leader_run.induct)
  case lr_start
  then show ?case using heap_end [OF assms(2)] assms(2) by (simp add: allocs_ok_def heap_start_def)
next
  case lr_mmap
  then show ?case using proxy_mmap_allocs by blast
next
  case lr_munmap
  then show ?case using proxy_munmap_begin by (metis (no_types, lifting) allocs_ok_def)
next
  case lr_madvise
  then show ?case using proxy_madvise_begin by (metis (no_types, lifting) allocs_ok_def)
qed


text \<open>
  \<^verbatim>\<open>proxy_mmap\<close> always returns, whatever the kernel answers: a mapping inside the heap at or above
  \<^verbatim>\<open>begin\<close>, logged with its arguments, or \<^verbatim>\<open>std::terminate\<close> when the heap is used up.
\<close>

theorem proxy_mmap_returns:
  assumes "leader_run heap K st0 st as" "heap_start heap st0" "len_ok heap len"
    and "flags AND MAP_FIXED = 0"
  shows "proxy_mmap heap K len prot flags (- 1) off st = Some (Inl Terminate) \<or>
    (\<exists>r st'. proxy_mmap heap K len prot flags (- 1) off st = Some (Inr (r, st')) \<and>
      pm_begin st \<le> r \<and> unat r + unat len \<le> unat (ma_end heap) \<and>
      memory_operations st' = memory_operations st @
        [Mmap \<lparr>mm_addr = r, mm_len = len, mm_prot = prot, mm_flags = flags, mm_fd = - 1, mm_offset = off\<rparr>])"
proof -
  have "unat (pm_begin st) \<le> unat (ma_end heap) + 2 ^ 30"
    using leader_run_allocs [OF assms(1,2)] by (simp add: allocs_ok_def)
  from proxy_mmap_places [where P = "\<lambda>w. True" and K = K and prot = prot and off = off,
      OF assms(3) this assms(4) refl TrueI TrueI TrueI]
  show ?thesis
  proof (elim disjE exE conjE)
    fix r w0 w1 k
    assume p: "proxy_mmap heap K len prot flags (- 1) off st = Some (Inr (r,
        st\<lparr>pm_begin := r + round_up len heap_step,
           memory_operations := memory_operations st @
             [Mmap \<lparr>mm_addr = r, mm_len = len, mm_prot = prot, mm_flags = flags, mm_fd = - 1, mm_offset = off\<rparr>],
           lm_os := w1\<rparr>))"
      "unat r = unat (pm_begin st) + k * 2 ^ 30" "unat r + unat len \<le> unat (ma_end heap)"
    have "pm_begin st \<le> r" using p(2) unfolding word_le_nat_alt by linarith
    then show ?thesis using p(1,3) by (intro disjI2) auto
  qed simp_all
qed

section \<open>The kernel's contract\<close>

text \<open>The bytes of the pages that \<^verbatim>\<open>len\<close> bytes from a page boundary touch; \<open>ps\<close> is the page size.\<close>

definition pages_of :: "nat \<Rightarrow> u64 \<Rightarrow> u64 \<Rightarrow> nat set" where
  "pages_of ps a len = {unat a ..< unat a + (unat len + ps - 1) div ps * ps}"

definition valid_range :: "nat \<Rightarrow> u64 \<Rightarrow> u64 \<Rightarrow> bool" where
  "valid_range ps a len \<longleftrightarrow> unat a mod ps = 0 \<and> len \<noteq> 0 \<and> unat a + unat len + ps \<le> 2 ^ 64"

text \<open>
  \<open>view w x\<close> is the protection of the mapping at byte \<open>x\<close>, if there is one. What Linux documents:
  \<^verbatim>\<open>mmap\<close> maps whole pages, at the given address with \<^verbatim>\<open>MAP_FIXED\<close> and at a free place without; \<^verbatim>\<open>munmap\<close>
  of a page-aligned range succeeds and removes its mappings; \<^verbatim>\<open>madvise\<close> changes no mapping.
\<close>

definition mmap_law :: "nat \<Rightarrow> ('os \<Rightarrow> nat \<Rightarrow> u32 option) \<Rightarrow> 'os kernel \<Rightarrow> bool" where
  "mmap_law ps view K \<longleftrightarrow> (\<forall>a len prot flags fd off w.
     case k_mmap K a len prot flags fd off w of
       (None, w') \<Rightarrow> view w' = view w
     | (Some r, w') \<Rightarrow>
         valid_range ps r len \<and>
         view w' = (\<lambda>x. if x \<in> pages_of ps r len then Some prot else view w x) \<and>
         (if flags AND MAP_FIXED \<noteq> 0 then r = a else \<forall>x \<in> pages_of ps r len. view w x = None))"

definition munmap_law :: "nat \<Rightarrow> ('os \<Rightarrow> nat \<Rightarrow> u32 option) \<Rightarrow> 'os kernel \<Rightarrow> bool" where
  "munmap_law ps view K \<longleftrightarrow> (\<forall>a len w.
     fst (k_munmap K a len w) = valid_range ps a len \<and>
     view (snd (k_munmap K a len w)) =
       (\<lambda>x. if valid_range ps a len \<and> x \<in> pages_of ps a len then None else view w x))"

definition madvise_law :: "('os \<Rightarrow> nat \<Rightarrow> u32 option) \<Rightarrow> 'os kernel \<Rightarrow> bool" where
  "madvise_law view K \<longleftrightarrow> (\<forall>a len advice w. view (snd (k_madvise K a len advice w)) = view w)"

definition kernel_ok :: "nat \<Rightarrow> ('os \<Rightarrow> nat \<Rightarrow> u32 option) \<Rightarrow> 'os kernel \<Rightarrow> bool" where
  "kernel_ok ps view K \<longleftrightarrow> 0 < ps \<and> mmap_law ps view K \<and> munmap_law ps view K \<and> madvise_law view K"

text \<open>The worker has the memory the leader has, and (in a debug build) \<^verbatim>\<open>MADV_NORMAL\<close> does not fail.\<close>

definition worker_ok :: "nat \<Rightarrow> bool \<Rightarrow> 'os kernel \<Rightarrow> bool" where
  "worker_ok ps ndebug K \<longleftrightarrow>
     (\<forall>a len prot flags fd off w. flags AND MAP_FIXED \<noteq> 0 \<longrightarrow> valid_range ps a len \<longrightarrow>
        fst (k_mmap K a len prot flags fd off w) \<noteq> None) \<and>
     (\<not> ndebug \<longrightarrow> (\<forall>a len w. fst (k_madvise K a len MADV_NORMAL w)))"

text \<open>
  In the reserved heap the worker has what the leader has, and holds the rest of it occupied with
  inaccessible pages.
\<close>

definition mirrors :: "mem_area \<Rightarrow> (nat \<Rightarrow> u32 option) \<Rightarrow> (nat \<Rightarrow> u32 option) \<Rightarrow> bool" where
  "mirrors heap vl vw \<longleftrightarrow>
     (\<forall>x \<in> area_bytes heap. vw x = Some (case vl x of None \<Rightarrow> PROT_NONE | Some p \<Rightarrow> p))"

section \<open>Replaying the log\<close>

lemma perform_mem_ops_append:
  "perform_mem_ops ndebug K (xs @ ys) w = bindE (perform_mem_ops ndebug K xs w) (perform_mem_ops ndebug K ys)"
  by (induction xs arbitrary: w) (auto simp: bindE_def split: sum.splits)

lemma with_fixed: "(flags OR MAP_FIXED) AND MAP_FIXED \<noteq> 0"
proof -
  have "(flags OR MAP_FIXED) AND MAP_FIXED = MAP_FIXED" by (rule bit_eqI) (auto simp: bit_simps)
  then show ?thesis by (simp add: MAP_FIXED_def)
qed

lemma occupy_fixed: "(MAP_PRIVATE OR MAP_ANONYMOUS OR MAP_NORESERVE OR MAP_FIXED) AND MAP_FIXED \<noteq> 0"
  by (simp add: MAP_PRIVATE_def MAP_ANONYMOUS_def MAP_NORESERVE_def MAP_FIXED_def)

lemma fixed_mmap:
  assumes "kernel_ok ps view K" "worker_ok ps ndebug K" "valid_range ps a len" "flags AND MAP_FIXED \<noteq> 0"
  obtains w' where "k_mmap K a len prot flags fd off w = (Some a, w')"
    "view w' = (\<lambda>x. if x \<in> pages_of ps a len then Some prot else view w x)"
proof -
  obtain r w' where r: "k_mmap K a len prot flags fd off w = (Some r, w')"
    using assms(2-4) unfolding worker_ok_def by (metis option.exhaust prod.collapse)
  have "case k_mmap K a len prot flags fd off w of
       (None, w') \<Rightarrow> view w' = view w
     | (Some r, w') \<Rightarrow>
         valid_range ps r len \<and>
         view w' = (\<lambda>x. if x \<in> pages_of ps r len then Some prot else view w x) \<and>
         (if flags AND MAP_FIXED \<noteq> 0 then r = a else \<forall>x \<in> pages_of ps r len. view w x = None)"
    using assms(1) by (simp add: kernel_ok_def mmap_law_def)
  then have "r = a" "view w' = (\<lambda>x. if x \<in> pages_of ps r len then Some prot else view w x)"
    using r assms(4) by simp_all
  then show ?thesis using r that by blast
qed

lemma free_mmap:
  assumes "kernel_ok ps view K" "k_mmap K a len prot flags fd off w = (Some r, w')" "flags AND MAP_FIXED = 0"
  shows "valid_range ps r len \<and> view w' = (\<lambda>x. if x \<in> pages_of ps r len then Some prot else view w x) \<and>
    (\<forall>x \<in> pages_of ps r len. view w x = None)"
proof -
  have "case k_mmap K a len prot flags fd off w of
       (None, w') \<Rightarrow> view w' = view w
     | (Some r, w') \<Rightarrow>
         valid_range ps r len \<and>
         view w' = (\<lambda>x. if x \<in> pages_of ps r len then Some prot else view w x) \<and>
         (if flags AND MAP_FIXED \<noteq> 0 then r = a else \<forall>x \<in> pages_of ps r len. view w x = None)"
    using assms(1) by (simp add: kernel_ok_def mmap_law_def)
  then show ?thesis using assms(2,3) by simp
qed

lemma failed_mmap:
  assumes "kernel_ok ps view K" "k_mmap K a len prot flags fd off w = (None, w')"
  shows "view w' = view w"
proof -
  have "case k_mmap K a len prot flags fd off w of
       (None, w') \<Rightarrow> view w' = view w
     | (Some r, w') \<Rightarrow>
         valid_range ps r len \<and>
         view w' = (\<lambda>x. if x \<in> pages_of ps r len then Some prot else view w x) \<and>
         (if flags AND MAP_FIXED \<noteq> 0 then r = a else \<forall>x \<in> pages_of ps r len. view w x = None)"
    using assms(1) by (simp add: kernel_ok_def mmap_law_def)
  then show ?thesis using assms(2) by simp
qed

lemma misplaced_mmap:
  assumes "kernel_ok ps view K" "k_mmap K a len prot flags fd off w = (Some r, w')" "flags AND MAP_FIXED = 0"
  shows "view (snd (k_munmap K r len w')) = view w"
  using free_mmap [OF assms] assms(1) by (auto simp: kernel_ok_def munmap_law_def)

lemma mirrors_update:
  "mirrors heap vl vw \<Longrightarrow>
   mirrors heap (\<lambda>x. if x \<in> S then m else vl x)
     (\<lambda>x. if x \<in> S then Some (case m of None \<Rightarrow> PROT_NONE | Some p \<Rightarrow> p) else vw x)"
  by (simp add: mirrors_def)

lemma mirrors_outside:
  "mirrors heap vl vw \<Longrightarrow> S \<inter> area_bytes heap = {} \<Longrightarrow> mirrors heap (\<lambda>x. if x \<in> S then m else vl x) vw"
  by (auto simp: mirrors_def)

text \<open>Rounding to pages does not reach into a page-aligned heap from outside.\<close>

lemma round_pages: "0 < ps \<Longrightarrow> a mod ps = 0 \<Longrightarrow> b mod ps = 0 \<Longrightarrow> a + n \<le> b \<Longrightarrow> a + (n + ps - 1) div ps * ps \<le> (b :: nat)"
proof -
  assume a: "0 < ps" "a mod ps = 0" "b mod ps = 0" "a + n \<le> b"
  obtain i j where ij: "a = ps * i" "b = ps * j" using a(2,3) by (auto simp: mod_eq_0_iff_dvd elim!: dvdE)
  have "n \<le> ps * (j - i)" using a(4) unfolding ij by (simp add: diff_mult_distrib2)
  then have "(n + ps - 1) div ps \<le> (ps * (j - i) + ps - 1) div ps" by (intro div_le_mono) linarith
  also have "\<dots> = j - i"
  proof -
    have e: "ps * (j - i) + ps - 1 = (ps - 1) + (j - i) * ps" using a(1) by (simp add: mult.commute)
    have "((ps - 1) + (j - i) * ps) div ps = (j - i) + (ps - 1) div ps"
      by (rule div_mult_self1) (use a(1) in simp)
    then show ?thesis unfolding e using a(1) by simp
  qed
  finally have "(n + ps - 1) div ps * ps \<le> (j - i) * ps" by (rule mult_le_mono1)
  moreover have "i \<le> j"
  proof -
    have "ps * i \<le> ps * j" using a(4) unfolding ij by linarith
    then show ?thesis using a(1) by simp
  qed
  moreover from this have "ps * i + (j - i) * ps = ps * j"
    by (metis add_mult_distrib le_add_diff_inverse mult.commute)
  ultimately show ?thesis unfolding ij by linarith
qed

lemma pages_outside:
  assumes "0 < ps" "unat (ma_data heap) mod ps = 0" "area_fits heap" "valid_range ps a len"
    and "\<not> mem_area_overlap \<lparr>ma_data = a, ma_size = len\<rparr> heap"
  shows "pages_of ps a len \<inter> area_bytes heap = {}"
proof -
  have fits: "area_fits \<lparr>ma_data = a, ma_size = len\<rparr>" using assms(4) by (simp add: area_fits_def valid_range_def)
  have "0 < unat len" "0 < unat (ma_size heap)"
    using assms(3,4) u64_neq_0_iff by (auto simp: area_fits_def valid_range_def)
  moreover have "area_bytes \<lparr>ma_data = a, ma_size = len\<rparr> \<inter> area_bytes heap = {}"
    using mem_area_overlap_iff [OF fits assms(3)] assms(5) by blast
  ultimately have "unat a + unat len \<le> unat (ma_data heap) \<or> unat (ma_data heap) + unat (ma_size heap) \<le> unat a"
    using atLeastLessThan_meet [of "unat a" "unat len" "unat (ma_data heap)" "unat (ma_size heap)"]
    unfolding area_bytes_def by force
  then show ?thesis
  proof
    assume "unat a + unat len \<le> unat (ma_data heap)"
    then have "unat a + (unat len + ps - 1) div ps * ps \<le> unat (ma_data heap)"
      using round_pages assms(1,2,4) by (simp add: valid_range_def)
    then show ?thesis by (auto simp: pages_of_def area_bytes_def)
  qed (auto simp: pages_of_def area_bytes_def)
qed

definition replays ::
  "bool \<Rightarrow> mem_area \<Rightarrow> ('os \<Rightarrow> nat \<Rightarrow> u32 option) \<Rightarrow> 'os kernel \<Rightarrow> 'os \<Rightarrow> 'os leader_mem \<Rightarrow> bool" where
  "replays ndebug heap view K w0 st \<longleftrightarrow>
     (\<exists>w. perform_mem_ops ndebug K (memory_operations st) w0 = Inr w \<and> mirrors heap (view (lm_os st)) (view w))"

lemma replays_snoc:
  assumes "replays ndebug heap view K w0 st" "memory_operations st' = memory_operations st @ [op]"
    and "\<And>w. mirrors heap (view (lm_os st)) (view w) \<Longrightarrow>
      \<exists>w'. perform_mem_op ndebug K op w = Inr w' \<and> mirrors heap (view (lm_os st')) (view w')"
  shows "replays ndebug heap view K w0 st'"
proof -
  obtain w where w: "perform_mem_ops ndebug K (memory_operations st) w0 = Inr w"
    "mirrors heap (view (lm_os st)) (view w)"
    using assms(1) by (auto simp: replays_def)
  obtain w' where "perform_mem_op ndebug K op w = Inr w'" "mirrors heap (view (lm_os st')) (view w')"
    using assms(3) [OF w(2)] by blast
  then show ?thesis using w(1) by (simp add: replays_def assms(2) perform_mem_ops_append)
qed

lemma replay_mmap:
  assumes "kernel_ok ps view K" "worker_ok ps ndebug K" "len_ok heap len" "allocs_ok heap st as"
    and m: "proxy_mmap heap K len prot flags fd off st = Some (Inr (r, st'))"
    and "replays ndebug heap view K w0 st"
  shows "replays ndebug heap view K w0 st'"
proof -
  have fl: "flags AND MAP_FIXED = 0" "fd = - 1" using proxy_mmap_asserts [OF m] by simp_all
  let ?P = "\<lambda>w. view w = view (lm_os st)"
  have "proxy_mmap heap K len prot flags fd off st = Some (Inl Terminate) \<or>
    (\<exists>r v w k. proxy_mmap heap K len prot flags fd off st = Some (Inr (r,
        st\<lparr>pm_begin := r + round_up len heap_step,
           memory_operations := memory_operations st @
             [Mmap \<lparr>mm_addr = r, mm_len = len, mm_prot = prot, mm_flags = flags, mm_fd = fd, mm_offset = off\<rparr>],
           lm_os := w\<rparr>)) \<and>
      ?P v \<and> k_mmap K r len prot flags fd off v = (Some r, w) \<and>
      unat r = unat (pm_begin st) + k * 2 ^ 30 \<and> unat r + unat len \<le> unat (ma_end heap))"
  proof (rule proxy_mmap_places [OF assms(3) _ fl])
    show "unat (pm_begin st) \<le> unat (ma_end heap) + 2 ^ 30" using assms(4) by (simp add: allocs_ok_def)
    show "view w' = view (lm_os st)" if "view w = view (lm_os st)" "k_mmap K a len prot flags fd off w = (None, w')" for a w w'
      using failed_mmap [OF assms(1) that(2)] that(1) by simp
    show "view (snd (k_munmap K q len w')) = view (lm_os st)"
      if "view w = view (lm_os st)" "k_mmap K a len prot flags fd off w = (Some q, w')" "q \<noteq> a" for a q w w'
      using misplaced_mmap [OF assms(1) that(2) fl(1)] that(1) by simp
  qed simp
  then obtain v w where st': "st' = st\<lparr>pm_begin := r + round_up len heap_step,
           memory_operations := memory_operations st @
             [Mmap \<lparr>mm_addr = r, mm_len = len, mm_prot = prot, mm_flags = flags, mm_fd = fd, mm_offset = off\<rparr>],
           lm_os := w\<rparr>"
    and v: "view v = view (lm_os st)" and km: "k_mmap K r len prot flags fd off v = (Some r, w)"
    using m by auto
  note fm = free_mmap [OF assms(1) km fl(1)]
  show ?thesis
  proof (rule replays_snoc [OF assms(6)])
    show "memory_operations st' = memory_operations st @
        [Mmap \<lparr>mm_addr = r, mm_len = len, mm_prot = prot, mm_flags = flags, mm_fd = fd, mm_offset = off\<rparr>]"
      by (simp add: st')
    fix u
    assume mi: "mirrors heap (view (lm_os st)) (view u)"
    obtain u' where u': "k_mmap K r len prot (flags OR MAP_FIXED) fd off u = (Some r, u')"
      "view u' = (\<lambda>x. if x \<in> pages_of ps r len then Some prot else view u x)"
      using fixed_mmap [OF assms(1,2) conjunct1 [OF fm] with_fixed] by metis
    have "view (lm_os st') = (\<lambda>x. if x \<in> pages_of ps r len then Some prot else view (lm_os st) x)"
      using conjunct1 [OF conjunct2 [OF fm]] unfolding v by (simp add: st')
    then have "mirrors heap (view (lm_os st')) (view u')"
      using mirrors_update [OF mi, of "pages_of ps r len" "Some prot", unfolded option.case] u'(2) by (simp only:)
    then show "\<exists>u'. perform_mem_op ndebug K (Mmap \<lparr>mm_addr = r, mm_len = len, mm_prot = prot, mm_flags = flags,
        mm_fd = fd, mm_offset = off\<rparr>) u = Inr u' \<and> mirrors heap (view (lm_os st')) (view u')"
      using u'(1) by (simp add: perform_mmap_def)
  qed
qed

lemma replay_munmap:
  assumes "kernel_ok ps view K" "worker_ok ps ndebug K" "unat (ma_data heap) mod ps = 0" "area_fits heap"
    and m: "proxy_munmap False heap K a len st = (ret, st')" and "replays ndebug heap view K w0 st"
  shows "replays ndebug heap view K w0 st'"
proof -
  have u: "fst (k_munmap K a len (lm_os st)) = valid_range ps a len"
    "view (snd (k_munmap K a len (lm_os st))) =
      (\<lambda>x. if valid_range ps a len \<and> x \<in> pages_of ps a len then None else view (lm_os st) x)"
    using assms(1) by (simp_all add: kernel_ok_def munmap_law_def)
  have os: "lm_os st' = snd (k_munmap K a len (lm_os st))"
    using m by (auto simp: proxy_munmap_def split: prod.splits if_splits)
  show ?thesis
  proof (cases "valid_range ps a len \<and> overlap_with_reserved_heap heap \<lparr>ma_data = a, ma_size = len\<rparr>")
    case True
    show ?thesis
    proof (rule replays_snoc [OF assms(6)])
      show "memory_operations st' = memory_operations st @ [Munmap \<lparr>mu_addr = a, mu_len = len\<rparr>]"
        using m True u(1) by (auto simp: proxy_munmap_def split: prod.splits)
      fix w
      assume mi: "mirrors heap (view (lm_os st)) (view w)"
      obtain w' where w': "k_mmap K a len PROT_NONE (MAP_PRIVATE OR MAP_ANONYMOUS OR MAP_NORESERVE OR MAP_FIXED) (- 1) 0 w
          = (Some a, w')" "view w' = (\<lambda>x. if x \<in> pages_of ps a len then Some PROT_NONE else view w x)"
        by (rule fixed_mmap [OF assms(1,2) conjunct1 [OF True] occupy_fixed, of PROT_NONE "- 1" 0 w])
      have "view (lm_os st') = (\<lambda>x. if x \<in> pages_of ps a len then None else view (lm_os st) x)"
        unfolding os u(2) using True by simp
      then have "mirrors heap (view (lm_os st')) (view w')"
        using mirrors_update [OF mi, of "pages_of ps a len" None, unfolded option.case] w'(2) by (simp only:)
      then show "\<exists>w'. perform_mem_op ndebug K (Munmap \<lparr>mu_addr = a, mu_len = len\<rparr>) w = Inr w' \<and>
          mirrors heap (view (lm_os st')) (view w')"
        using w'(1) by (simp add: perform_munmap_def)
    qed
  next
    case False
    then have log: "memory_operations st' = memory_operations st"
      using m u(1) by (auto simp: proxy_munmap_def split: prod.splits if_splits)
    have "mirrors heap (view (lm_os st')) vw" if "mirrors heap (view (lm_os st)) vw" for vw
    proof (cases "valid_range ps a len")
      case True
      then have "pages_of ps a len \<inter> area_bytes heap = {}"
        using pages_outside False assms(1,3,4) by (simp add: overlap_with_reserved_heap_def kernel_ok_def)
      then show ?thesis using mirrors_outside [OF that] u(2) True by (simp add: os)
    qed (use that u(2) os in simp)
    then show ?thesis using assms(6) log by (auto simp: replays_def)
  qed
qed

lemma replay_madvise:
  assumes "kernel_ok ps view K" "worker_ok ps ndebug K"
    and m: "proxy_madvise False heap K a len advice st = (ret, st')" and "replays ndebug heap view K w0 st"
  shows "replays ndebug heap view K w0 st'"
proof -
  have same: "view (snd (k_madvise K a' len' advice' w)) = view w" for a' len' advice' w
    using assms(1) by (simp add: kernel_ok_def madvise_law_def)
  have os: "lm_os st' = snd (k_madvise K a len advice (lm_os st))"
    using m by (auto simp: proxy_madvise_def split: prod.splits if_splits)
  consider "memory_operations st' = memory_operations st"
    | "memory_operations st' = memory_operations st @ [Madvise \<lparr>ma_addr = a, ma_len = len, ma_advice = advice\<rparr>]"
    using m by (auto simp: proxy_madvise_def split: prod.splits if_splits)
  then show ?thesis
  proof cases
    case 1
    then show ?thesis using assms(4) by (simp add: replays_def os same)
  next
    case 2
    show ?thesis
    proof (rule replays_snoc [OF assms(4) 2])
      fix w
      assume mi: "mirrors heap (view (lm_os st)) (view w)"
      have "ndebug \<or> fst (k_madvise K a len MADV_NORMAL w)" using assms(2) by (auto simp: worker_ok_def)
      then show "\<exists>w'. perform_mem_op ndebug K (Madvise \<lparr>ma_addr = a, ma_len = len, ma_advice = advice\<rparr>) w = Inr w' \<and>
          mirrors heap (view (lm_os st')) (view w')"
        using mi same by (auto simp: perform_madvise_def os split: prod.splits) (metis snd_conv)+
    qed
  qed
qed

lemma leader_run_replays:
  assumes "kernel_ok ps view K" "worker_ok ps ndebug K" "heap_start heap st0"
    and "unat (ma_data heap) mod ps = 0" "mirrors heap (view (lm_os st0)) (view w0)"
    and "leader_run heap K st0 st as"
  shows "replays ndebug heap view K w0 st"
  using assms(6)
proof (induction rule: leader_run.induct)
  case lr_start
  then show ?case using assms(3,5) by (simp add: replays_def heap_start_def)
next
  case (lr_mmap st as len prot flags fd off r st')
  then show ?case using replay_mmap [OF assms(1,2)] leader_run_allocs [OF _ assms(3)] by blast
next
  case (lr_munmap st as a len ret st')
  have "area_fits heap" using assms(3) by (simp add: area_fits_def heap_start_def)
  then show ?case using replay_munmap [OF assms(1,2,4)] lr_munmap by blast
next
  case (lr_madvise st as a len advice ret st')
  then show ?case using replay_madvise [OF assms(1,2)] by blast
qed

text \<open>
  C29. The worker that performs the leader's log ends with the leader's mappings in the reserved heap,
  whatever sequence of \<^verbatim>\<open>proxy_mmap\<close>, \<^verbatim>\<open>proxy_munmap\<close> and \<^verbatim>\<open>proxy_madvise\<close> calls (failing and misplaced
  mappings included) wrote it.
\<close>

theorem mem_log_replay:
  assumes "kernel_ok ps view K" "worker_ok ps ndebug K" "heap_start heap st0"
    and "unat (ma_data heap) mod ps = 0" "mirrors heap (view (lm_os st0)) (view w0)"
    and "leader_run heap K st0 st as"
  shows "\<exists>w. perform_mem_ops ndebug K (memory_operations st) w0 = Inr w \<and>
    mirrors heap (view (lm_os st)) (view w)"
  using leader_run_replays [OF assms] by (simp add: replays_def)

section \<open>A concrete kernel\<close>

text \<open>Its state is the map of protections; \<^verbatim>\<open>mmap\<close> places a mapping at the address if that is free.\<close>

definition demo_kernel :: "(nat \<Rightarrow> u32 option) kernel" where
  "demo_kernel =
     \<lparr>k_mmap = (\<lambda>a len prot flags fd off w.
        if valid_range 4096 a len \<and> (flags AND MAP_FIXED \<noteq> 0 \<or> (\<forall>x \<in> pages_of 4096 a len. w x = None))
        then (Some a, \<lambda>x. if x \<in> pages_of 4096 a len then Some prot else w x) else (None, w)),
      k_munmap = (\<lambda>a len w. (valid_range 4096 a len,
        \<lambda>x. if valid_range 4096 a len \<and> x \<in> pages_of 4096 a len then None else w x)),
      k_madvise = (\<lambda>a len advice w. (True, w))\<rparr>"

lemma demo_kernel_ok: "kernel_ok 4096 (\<lambda>w. w) demo_kernel"
  by (auto simp: kernel_ok_def mmap_law_def munmap_law_def madvise_law_def demo_kernel_def)

lemma demo_worker_ok: "worker_ok 4096 ndebug demo_kernel"
  by (auto simp: worker_ok_def demo_kernel_def)

definition demo_heap :: mem_area where
  "demo_heap = \<lparr>ma_data = 0x410000000000, ma_size = 0x100000000000\<rparr>"

definition demo_start :: "(nat \<Rightarrow> u32 option) leader_mem" where
  "demo_start = \<lparr>pm_begin = 0x410000000000, memory_operations = [], lm_os = (\<lambda>x. None)\<rparr>"

lemma demo_heap_start: "heap_start demo_heap demo_start"
  by (simp add: heap_start_def demo_heap_def demo_start_def)

lemma demo_mmap:
  "\<exists>st. proxy_mmap demo_heap demo_kernel 8192 3 0x22 (- 1) 0 demo_start = Some (Inr (0x410000000000, st)) \<and>
     lm_os st = (\<lambda>x. if x \<in> pages_of 4096 0x410000000000 8192 then Some 3 else None)"
proof -
  let ?attempt = "\<lambda>a. k_mmap demo_kernel a 8192 3 0x22 (- 1) 0" and ?un = "\<lambda>a w. snd (k_munmap demo_kernel a 8192 w)"
  have "mmap_loop ?attempt ?un (ma_end demo_heap) 8192 0x410000000000 (\<lambda>x. None)
      = Some (Inr (0x410000000000, \<lambda>x. if x \<in> pages_of 4096 0x410000000000 8192 then Some 3 else None))"
    by (subst mmap_loop.simps) (simp add: demo_kernel_def demo_heap_def ma_end_def valid_range_def MAP_FIXED_def)
  then show ?thesis by (simp add: proxy_mmap_def demo_start_def MAP_FIXED_def)
qed

lemma demo_run:
  "\<exists>st. leader_run demo_heap demo_kernel demo_start st [\<lparr>ma_data = 0x410000000000, ma_size = 8192\<rparr>] \<and>
     lm_os st 0x410000001000 = Some 3"
proof -
  obtain st where st: "proxy_mmap demo_heap demo_kernel 8192 3 0x22 (- 1) 0 demo_start = Some (Inr (0x410000000000, st))"
    "lm_os st = (\<lambda>x. if x \<in> pages_of 4096 0x410000000000 8192 then Some 3 else None)"
    using demo_mmap by blast
  have "len_ok demo_heap 8192" by (simp add: len_ok_def demo_heap_def ma_end_def)
  then have "leader_run demo_heap demo_kernel demo_start st [\<lparr>ma_data = 0x410000000000, ma_size = 8192\<rparr>]"
    using lr_mmap [OF lr_start] st(1) by blast
  moreover have "lm_os st 0x410000001000 = Some 3" by (simp add: st(2) pages_of_def)
  ultimately show ?thesis by blast
qed


theorem proxy_mmap_returns_witness:
  "proxy_mmap demo_heap demo_kernel 4096 3 0x22 (- 1) 0 demo_start = Some (Inl Terminate) \<or>
    (\<exists>r st'. proxy_mmap demo_heap demo_kernel 4096 3 0x22 (- 1) 0 demo_start = Some (Inr (r, st')) \<and>
      pm_begin demo_start \<le> r \<and> unat r + unat (4096 :: u64) \<le> unat (ma_end demo_heap) \<and>
      memory_operations st' = memory_operations demo_start @
        [Mmap \<lparr>mm_addr = r, mm_len = 4096, mm_prot = 3, mm_flags = 0x22, mm_fd = - 1, mm_offset = 0\<rparr>])"
  by (rule proxy_mmap_returns [OF lr_start demo_heap_start])
    (simp_all add: len_ok_def demo_heap_def ma_end_def MAP_FIXED_def)

theorem mem_log_replay_witness:
  "\<exists>st w. leader_run demo_heap demo_kernel demo_start st [\<lparr>ma_data = 0x410000000000, ma_size = 8192\<rparr>] \<and>
     perform_mem_ops True demo_kernel (memory_operations st) (\<lambda>x. Some PROT_NONE) = Inr w \<and>
     w 0x410000001000 = Some 3"
proof -
  obtain st where st: "leader_run demo_heap demo_kernel demo_start st [\<lparr>ma_data = 0x410000000000, ma_size = 8192\<rparr>]"
    "lm_os st 0x410000001000 = Some 3"
    using demo_run by blast
  have a: "unat (ma_data demo_heap) mod 4096 = 0" by (simp add: demo_heap_def)
  have m: "mirrors demo_heap (lm_os demo_start) (\<lambda>x. Some PROT_NONE)" by (simp add: mirrors_def demo_start_def)
  obtain w where w: "perform_mem_ops True demo_kernel (memory_operations st) (\<lambda>x. Some PROT_NONE) = Inr w"
    "mirrors demo_heap (lm_os st) w"
    using mem_log_replay [OF demo_kernel_ok demo_worker_ok demo_heap_start a m st(1)] by blast
  have "(0x410000001000 :: nat) \<in> area_bytes demo_heap" by (simp add: area_bytes_def demo_heap_def)
  then show ?thesis using w st by (auto simp: mirrors_def)
qed

section \<open>The debug build\<close>

text \<open>A kernel whose state is the memory and whose \<^verbatim>\<open>MADV_DONTNEED\<close> zeroes anonymous pages.\<close>

definition content_kernel :: "(u64 \<Rightarrow> 8 word) kernel" where
  "content_kernel = \<lparr>k_mmap = (\<lambda>a len prot flags fd off w. (None, w)), k_munmap = (\<lambda>a len w. (False, w)),
     k_madvise = (\<lambda>a len advice w.
       (True, if advice = MADV_DONTNEED then (\<lambda>x. if a \<le> x \<and> x < a + len then 0 else w x) else w))\<rparr>"


end
