(* ===== verification/Reduce_Area.thy ===== *)
theory Reduce_Area
  imports Bigmpi Pagemap Mem_Ops_Proofs
begin

text \<open>
  \<^verbatim>\<open>class reduce_area\<close> (\<^verbatim>\<open>simple_parallel.h\<close>, \<^verbatim>\<open>leader.cc\<close>): an array that every rank fills for itself inside
  a parallel context and that is reduced to the root at its end. A worker's copy starts from the
  identity of the operation.
\<close>

section \<open>Construction\<close>

record reduce_area =
  m_begin :: u64
  m_count :: u64
  m_type :: mpi_datatype
  m_op :: mpi_op
  m_sizeof_type :: int
  m_inner_pages :: "pte_range option"

text \<open>\<^verbatim>\<open>reduce_area::operator mem_area\<close>.\<close>

definition reduce_mem_area :: "reduce_area \<Rightarrow> mem_area" where
  "reduce_mem_area r = \<lparr>ma_data = m_begin r, ma_size = m_count r * word_of_int (m_sizeof_type r)\<rparr>"

definition init_inner_pages :: "u64 \<Rightarrow> reduce_area \<Rightarrow> reduce_area result" where
  "init_inner_pages page_size r =
     bindE (memarea2innerpgrng page_size
         \<lparr>ma_data = m_begin r, ma_size = m_count r * word_of_int (m_sizeof_type r)\<rparr>)
       (\<lambda>inner. Inr (r\<lparr>m_inner_pages := inner\<rparr>))"

text \<open>
  The constructors: from a contiguous range or span of \<open>n\<close> elements of a built-in type, from one
  value, and from a type handle whose size MPI reports.
\<close>

definition reduce_area_of_range :: "u64 \<Rightarrow> mpi_datatype \<Rightarrow> int \<Rightarrow> u64 \<Rightarrow> u64 \<Rightarrow> mpi_op \<Rightarrow> reduce_area result" where
  "reduce_area_of_range page_size type sizeof_type area_data area_count op =
     init_inner_pages page_size \<lparr>m_begin = area_data, m_count = area_count, m_type = type, m_op = op,
       m_sizeof_type = sizeof_type, m_inner_pages = None\<rparr>"

definition reduce_area_of_value :: "u64 \<Rightarrow> mpi_datatype \<Rightarrow> int \<Rightarrow> u64 \<Rightarrow> mpi_op \<Rightarrow> reduce_area result" where
  "reduce_area_of_value page_size type sizeof_type addr op =
     init_inner_pages page_size \<lparr>m_begin = addr, m_count = 1, m_type = type, m_op = op,
       m_sizeof_type = sizeof_type, m_inner_pages = None\<rparr>"

definition reduce_area_of_type ::
  "(mpi_datatype \<Rightarrow> int) \<Rightarrow> u64 \<Rightarrow> mpi_datatype \<Rightarrow> u64 \<Rightarrow> u64 \<Rightarrow> mpi_op \<Rightarrow> reduce_area result" where
  "reduce_area_of_type mpi_Type_size page_size type begin_addr cnt op =
     init_inner_pages page_size \<lparr>m_begin = begin_addr, m_count = cnt, m_type = type, m_op = op,
       m_sizeof_type = mpi_Type_size type, m_inner_pages = None\<rparr>"

definition get_inner_pages :: "reduce_area \<Rightarrow> pte_range option" where
  "get_inner_pages r = m_inner_pages r"

definition reduce_area_reduce ::
  "(mpi_datatype \<Rightarrow> int) \<Rightarrow> ('c \<Rightarrow> int) \<Rightarrow>
   (mpi_buf \<Rightarrow> mpi_buf \<Rightarrow> int \<Rightarrow> mpi_datatype \<Rightarrow> mpi_op \<Rightarrow> int \<Rightarrow> 'c \<Rightarrow> 'w \<Rightarrow> int \<times> 'w) \<Rightarrow>
   reduce_area \<Rightarrow> 'c \<Rightarrow> int \<Rightarrow> 'w \<Rightarrow> (int \<times> 'w) result option" where
  "reduce_area_reduce mpi_Type_size mpi_Comm_rank mpi_Reduce r comm root_rank w =
     Reduce mpi_Type_size mpi_Comm_rank mpi_Reduce (m_begin r) (m_count r) (m_type r) (m_op r) comm root_rank w"

section \<open>The identity on a worker\<close>

definition zero_init_types :: "mpi_datatype list" where
  "zero_init_types = [MPI_SHORT, MPI_INT, MPI_LONG, MPI_UNSIGNED_LONG, MPI_LONG_LONG_INT, MPI_FLOAT,
     MPI_DOUBLE, MPI_LONG_DOUBLE, MPI_INT8_T, MPI_INT16_T, MPI_INT32_T, MPI_INT64_T, MPI_UINT8_T,
     MPI_UINT16_T, MPI_UINT32_T, MPI_UINT64_T]"

text \<open>The keys and values of the map \<^verbatim>\<open>op_2_name\<close>; \<^verbatim>\<open>at\<close> throws for every other operation.\<close>

fun op_2_name :: "mpi_op \<Rightarrow> string option" where
  "op_2_name MPI_OP_NULL = Some ''MPI_OP_NULL''"
| "op_2_name MPI_MAX = Some ''MPI_MAX''"
| "op_2_name MPI_MIN = Some ''MPI_MIN''"
| "op_2_name MPI_SUM = Some ''MPI_SUM''"
| "op_2_name MPI_PROD = Some ''MPI_PROD''"
| "op_2_name MPI_LAND = Some ''MPI_LAND''"
| "op_2_name MPI_BAND = Some ''MPI_BAND''"
| "op_2_name MPI_LOR = Some ''MPI_LOR''"
| "op_2_name MPI_BOR = Some ''MPI_BOR''"
| "op_2_name MPI_LXOR = Some ''MPI_LXOR''"
| "op_2_name MPI_BXOR = Some ''MPI_BXOR''"
| "op_2_name MPI_MINLOC = Some ''MPI_MINLOC''"
| "op_2_name MPI_MAXLOC = Some ''MPI_MAXLOC''"
| "op_2_name MPI_REPLACE = Some ''MPI_REPLACE''"
| "op_2_name (Other_Op n) = None"

text \<open>\<open>mpi_Type_get_name\<close> is MPI's name of a type; \<open>msg\<close> the exception's text up to its advice.\<close>

definition not_support :: "(mpi_datatype \<Rightarrow> string) \<Rightarrow> reduce_area \<Rightarrow> 'a result" where
  "not_support mpi_Type_get_name r =
     (case op_2_name (m_op r) of
        None \<Rightarrow> Inl OutOfRange
      | Some name \<Rightarrow> Inl (Runtime (''Error: Reduce '' @ mpi_Type_get_name (m_type r) @
          '' with MPI Operation '' @ name @ '' is not supported by simple_parallel.'')))"

definition memset :: "memory \<Rightarrow> u64 \<Rightarrow> 8 word \<Rightarrow> u64 \<Rightarrow> memory" where
  "memset mem addr byte n = overwrite (\<lambda>a. byte) (block addr (unat n)) mem"

definition init_reduce_area_on_worker :: "(mpi_datatype \<Rightarrow> string) \<Rightarrow> reduce_area \<Rightarrow> memory \<Rightarrow> memory result" where
  "init_reduce_area_on_worker mpi_Type_get_name r mem =
     (if list_ex (\<lambda>e. e = m_type r) zero_init_types \<and> m_op r = MPI_SUM then
        Inr (memset mem (m_begin r) 0 (m_count r * word_of_int (m_sizeof_type r)))
      else if m_type r = MPI_C_BOOL then
        assertE (m_sizeof_type r = 1)
          (bindE (if m_op r = MPI_LAND then Inr 1
                  else if m_op r = MPI_LOR then Inr 0
                  else not_support mpi_Type_get_name r)
             (\<lambda>identity. Inr (memset mem (m_begin r) identity (m_count r * word_of_int (m_sizeof_type r)))))
      else not_support mpi_Type_get_name r)"

section \<open>Overlapping areas\<close>

fun nat_digits :: "nat \<Rightarrow> string" where
  "nat_digits n = (if n < 10 then [char_of (48 + n)] else nat_digits (n div 10) @ [char_of (48 + n mod 10)])"

declare nat_digits.simps [simp del]

definition ordinal_suffix :: "nat \<Rightarrow> string" where
  "ordinal_suffix number =
     (if number mod 100 < 11 \<or> 13 < number mod 100 then
        if number mod 10 = 1 then ''st'' else if number mod 10 = 2 then ''nd''
        else if number mod 10 = 3 then ''rd'' else ''th''
      else ''th'')"

definition get_number_with_ordinal_suffix :: "nat \<Rightarrow> string" where
  "get_number_with_ordinal_suffix number = nat_digits number @ ordinal_suffix number"

definition overlap_error :: "nat \<Rightarrow> nat \<Rightarrow> error" where
  "overlap_error lhs rhs = Runtime (''Error: the '' @ get_number_with_ordinal_suffix (lhs + 1) @
     '' reduce area and '' @ get_number_with_ordinal_suffix (rhs + 1) @
     '' reduce area overlaps. Please check your reduce input parameter.'')"

text \<open>The two loops of \<^verbatim>\<open>verify_reduces_no_overlap\<close>.\<close>

function verify_inner :: "reduce_area list \<Rightarrow> nat \<Rightarrow> nat \<Rightarrow> unit result" where
  "verify_inner reduces lhs rhs =
     (if rhs < length reduces then
        if mem_area_overlap (reduce_mem_area (reduces ! lhs)) (reduce_mem_area (reduces ! rhs))
        then Inl (overlap_error lhs rhs)
        else verify_inner reduces lhs (rhs + 1)
      else Inr ())"
  by pat_completeness auto
termination by (relation "measure (\<lambda>(reduces, lhs, rhs). length reduces - rhs)") auto

function verify_outer :: "reduce_area list \<Rightarrow> nat \<Rightarrow> unit result" where
  "verify_outer reduces lhs =
     (if lhs < length reduces then
        bindE (verify_inner reduces lhs (lhs + 1)) (\<lambda>u. verify_outer reduces (lhs + 1))
      else Inr ())"
  by pat_completeness auto
termination by (relation "measure (\<lambda>(reduces, lhs). length reduces - lhs)") auto

declare verify_inner.simps [simp del] verify_outer.simps [simp del]

definition verify_reduces_no_overlap :: "reduce_area list \<Rightarrow> unit result" where
  "verify_reduces_no_overlap reduces = verify_outer reduces 0"

section \<open>Correctness\<close>

abbreviation overlapping :: "reduce_area list \<Rightarrow> nat \<Rightarrow> nat \<Rightarrow> bool" where
  "overlapping rs i j \<equiv> mem_area_overlap (reduce_mem_area (rs ! i)) (reduce_mem_area (rs ! j))"

lemma verify_inner_cases:
  "(verify_inner rs i j = Inr () \<and> (\<forall>k \<in> {j ..< length rs}. \<not> overlapping rs i k)) \<or>
   (\<exists>k \<in> {j ..< length rs}. verify_inner rs i j = Inl (overlap_error i k) \<and> overlapping rs i k \<and>
      (\<forall>l \<in> {j ..< k}. \<not> overlapping rs i l))"
proof (induction rs i j rule: verify_inner.induct)
  case (1 rs i j)
  show ?case
  proof (cases "j < length rs \<and> \<not> overlapping rs i j")
    case True
    then have eq: "verify_inner rs i j = verify_inner rs i (j + 1)" by (simp add: verify_inner.simps [of rs i j])
    have up: "{j ..< n} = insert j {j + 1 ..< n}" if "j < n" for n using that by auto
    show ?thesis
      using "1.IH" True unfolding eq by (auto simp: up)
  next
    case False
    then show ?thesis
      by (cases "j < length rs") (auto simp: verify_inner.simps [of rs i j] intro!: bexI [of _ j])
  qed
qed

lemma verify_outer_cases:
  "(verify_outer rs i = Inr () \<and> (\<forall>a \<in> {i ..< length rs}. \<forall>b \<in> {a + 1 ..< length rs}. \<not> overlapping rs a b)) \<or>
   (\<exists>a \<in> {i ..< length rs}. \<exists>b \<in> {a + 1 ..< length rs}. verify_outer rs i = Inl (overlap_error a b) \<and>
      overlapping rs a b)"
proof (induction rs i rule: verify_outer.induct)
  case (1 rs i)
  show ?case
  proof (cases "i < length rs")
    case False
    then show ?thesis by (simp add: verify_outer.simps [of rs i])
  next
    case True
    have up: "{i ..< length rs} = insert i {i + 1 ..< length rs}" using True by auto
    from verify_inner_cases [of rs i "i + 1"] show ?thesis
    proof (elim disjE conjE bexE)
      assume ok: "verify_inner rs i (i + 1) = Inr ()" "\<forall>k \<in> {i + 1 ..< length rs}. \<not> overlapping rs i k"
      then have eq: "verify_outer rs i = verify_outer rs (i + 1)" using True by (simp add: verify_outer.simps [of rs i])
      show ?thesis using "1.IH" [OF True] ok(2) unfolding eq up by blast
    next
      fix k
      assume k: "k \<in> {i + 1 ..< length rs}" "verify_inner rs i (i + 1) = Inl (overlap_error i k)" "overlapping rs i k"
      then have "verify_outer rs i = Inl (overlap_error i k)" using True by (simp add: verify_outer.simps [of rs i])
      then show ?thesis using k True unfolding up by blast
    qed
  qed
qed

lemma verified_disjoint:
  assumes "\<forall>r \<in> set reduces. area_fits (reduce_mem_area r)" "verify_reduces_no_overlap reduces = Inr ()"
    and "i < j" "j < length reduces"
  shows "area_bytes (reduce_mem_area (reduces ! i)) \<inter> area_bytes (reduce_mem_area (reduces ! j)) = {}"
  using verify_outer_cases [of reduces 0] assms mem_area_overlap_iff
  by (auto simp: verify_reduces_no_overlap_def)

text \<open>
  C39. \<^verbatim>\<open>verify_reduces_no_overlap\<close> accepts exactly the lists of areas that are pairwise disjoint, and
  otherwise names two areas that share a byte.
\<close>

theorem verify_reduces_exact:
  assumes "\<forall>r \<in> set reduces. area_fits (reduce_mem_area r)"
  shows "(verify_reduces_no_overlap reduces = Inr () \<longleftrightarrow>
      (\<forall>i j. i < j \<and> j < length reduces \<longrightarrow>
         area_bytes (reduce_mem_area (reduces ! i)) \<inter> area_bytes (reduce_mem_area (reduces ! j)) = {})) \<and>
    (verify_reduces_no_overlap reduces = Inr () \<or>
      (\<exists>i j. i < j \<and> j < length reduces \<and> verify_reduces_no_overlap reduces = Inl (overlap_error i j) \<and>
         area_bytes (reduce_mem_area (reduces ! i)) \<inter> area_bytes (reduce_mem_area (reduces ! j)) \<noteq> {}))"
proof -
  have ov: "overlapping reduces i j \<longleftrightarrow>
      area_bytes (reduce_mem_area (reduces ! i)) \<inter> area_bytes (reduce_mem_area (reduces ! j)) \<noteq> {}"
    if "i < length reduces" "j < length reduces" for i j
    using mem_area_overlap_iff assms that by simp
  from verify_outer_cases [of reduces 0] show ?thesis
  proof (elim disjE conjE bexE)
    assume "verify_outer reduces 0 = Inr ()"
      "\<forall>a \<in> {0 ..< length reduces}. \<forall>b \<in> {a + 1 ..< length reduces}. \<not> overlapping reduces a b"
    then show ?thesis using ov by (auto simp: verify_reduces_no_overlap_def)
  next
    fix a b
    assume a: "a \<in> {0 ..< length reduces}" "b \<in> {a + 1 ..< length reduces}"
      "verify_outer reduces 0 = Inl (overlap_error a b)" "overlapping reduces a b"
    then have "a < b \<and> b < length reduces \<and>
        area_bytes (reduce_mem_area (reduces ! a)) \<inter> area_bytes (reduce_mem_area (reduces ! b)) \<noteq> {}"
      using ov by simp
    then show ?thesis using a(3) by (auto simp: verify_reduces_no_overlap_def)
  qed
qed

definition demo_reduce :: "u64 \<Rightarrow> u64 \<Rightarrow> reduce_area" where
  "demo_reduce a n = \<lparr>m_begin = a, m_count = n, m_type = MPI_DOUBLE, m_op = MPI_SUM, m_sizeof_type = 8,
     m_inner_pages = None\<rparr>"

theorem verify_reduces_exact_witness:
  "verify_reduces_no_overlap [demo_reduce 0x1000 2, demo_reduce 0x1010 4] = Inr () \<longleftrightarrow>
     (\<forall>i j. i < j \<and> j < length [demo_reduce 0x1000 2, demo_reduce 0x1010 4] \<longrightarrow>
       area_bytes (reduce_mem_area ([demo_reduce 0x1000 2, demo_reduce 0x1010 4] ! i)) \<inter>
       area_bytes (reduce_mem_area ([demo_reduce 0x1000 2, demo_reduce 0x1010 4] ! j)) = {})"
  by (rule conjunct1 [OF verify_reduces_exact]) (simp add: demo_reduce_def reduce_mem_area_def area_fits_def)

text \<open>The byte that encodes the identity of an operation on a type, where the library knows one.\<close>

definition identity_byte :: "mpi_datatype \<Rightarrow> mpi_op \<Rightarrow> 8 word option" where
  "identity_byte type op =
     (if type \<in> set zero_init_types \<and> op = MPI_SUM then Some 0
      else if type = MPI_C_BOOL \<and> op = MPI_LAND then Some 1
      else if type = MPI_C_BOOL \<and> op = MPI_LOR then Some 0
      else None)"

lemma not_support_cases:
  "(case m_op r of Other_Op n \<Rightarrow> not_support names r = Inl OutOfRange
    | _ \<Rightarrow> (\<exists>msg. not_support names r = Inl (Runtime msg)))"
  by (cases "m_op r") (simp_all add: not_support_def)

text \<open>
  C40. What a worker's copy starts from: zeroes for the sum of a numeric type, ones for the conjunction
  and zeroes for the disjunction of booleans, in exactly the bytes of the area. Every other
  combination throws: a \<^verbatim>\<open>runtime_error\<close> for MPI's own operations, and \<^verbatim>\<open>out_of_range\<close> from the lookup
  of the name for a user-defined one.
\<close>

theorem init_reduce_identity:
  assumes "m_type r = MPI_C_BOOL \<Longrightarrow> m_sizeof_type r = 1"
  shows "case identity_byte (m_type r) (m_op r) of
      Some byte \<Rightarrow> init_reduce_area_on_worker names r mem = Inr (\<lambda>a.
        if a \<in> block (m_begin r) (unat (ma_size (reduce_mem_area r))) then byte else mem a)
    | None \<Rightarrow> (case m_op r of
          Other_Op n \<Rightarrow> init_reduce_area_on_worker names r mem = Inl OutOfRange
        | _ \<Rightarrow> \<exists>msg. init_reduce_area_on_worker names r mem = Inl (Runtime msg))"
proof (cases "identity_byte (m_type r) (m_op r)")
  case None
  then have eq: "init_reduce_area_on_worker names r mem = not_support names r"
    using assms by (auto simp: identity_byte_def init_reduce_area_on_worker_def list_ex_iff not_support_def
        split: if_splits option.splits)
  show ?thesis unfolding None eq using not_support_cases [where r = r and names = names] by simp
next
  case (Some byte)
  then show ?thesis
    using assms by (auto simp: identity_byte_def init_reduce_area_on_worker_def list_ex_iff zero_init_types_def
        memset_def overwrite_def reduce_mem_area_def split: if_splits)
qed

theorem init_reduce_identity_witness:
  "init_reduce_area_on_worker (\<lambda>t. [])
     \<lparr>m_begin = 0x1000, m_count = 3, m_type = MPI_C_BOOL, m_op = MPI_LAND, m_sizeof_type = 1, m_inner_pages = None\<rparr>
     (\<lambda>a. 7) = Inr (\<lambda>a. if a \<in> block 0x1000 3 then 1 else 7)"
  using init_reduce_identity [of "\<lparr>m_begin = 0x1000, m_count = 3, m_type = MPI_C_BOOL, m_op = MPI_LAND,
      m_sizeof_type = 1, m_inner_pages = None\<rparr>" "\<lambda>t. []" "\<lambda>a. 7"]
  by (simp add: identity_byte_def zero_init_types_def reduce_mem_area_def)

text \<open>
  The pages a \<^verbatim>\<open>reduce_area\<close> keeps from being synchronised are exactly the pages inside its
  bytes, whichever constructor made it.
\<close>

theorem reduce_area_pages:
  assumes "area_ok page_size \<lparr>ma_data = a, ma_size = n * word_of_int sz\<rparr>" "a \<noteq> 0"
  shows "\<exists>r. reduce_area_of_range page_size type sz a n op = Inr r \<and>
    reduce_area_of_type (\<lambda>t. sz) page_size type a n op = Inr r \<and>
    (n = 1 \<longrightarrow> reduce_area_of_value page_size type sz a op = Inr r) \<and>
    reduce_mem_area r = \<lparr>ma_data = a, ma_size = n * word_of_int sz\<rparr> \<and>
    (case get_inner_pages r of None \<Rightarrow> {} | Some p \<Rightarrow> range_pages p)
      = {p. page_bytes page_size p \<subseteq> area_bytes (reduce_mem_area r)}"
proof -
  let ?area = "\<lparr>ma_data = a, ma_size = n * word_of_int sz\<rparr> :: mem_area"
  obtain ro where ro: "memarea2innerpgrng page_size ?area = Inr ro"
    "(case ro of None \<Rightarrow> {} | Some r \<Rightarrow> range_pages r) = {p. page_bytes page_size p \<subseteq> area_bytes ?area}"
    using inner_pages_exact [OF assms(1)] assms(2) by auto
  then show ?thesis
    by (auto simp: reduce_area_of_range_def reduce_area_of_type_def reduce_area_of_value_def init_inner_pages_def
        reduce_mem_area_def get_inner_pages_def)
qed

theorem reduce_area_pages_witness:
  "\<exists>r. reduce_area_of_range 4096 MPI_DOUBLE 8 0x10008 2048 MPI_SUM = Inr r \<and>
     (case get_inner_pages r of None \<Rightarrow> {} | Some p \<Rightarrow> range_pages p)
       = {p. page_bytes 4096 p \<subseteq> area_bytes (reduce_mem_area r)}"
proof -
  have "area_ok 4096 \<lparr>ma_data = 0x10008, ma_size = 2048 * word_of_int 8\<rparr>" by (simp add: area_ok_def)
  from reduce_area_pages [OF this, of MPI_DOUBLE MPI_SUM] show ?thesis by auto
qed

lemma ordinal_suffix_digits:
  assumes m100: "n mod 100 = 10 * t + d" and m10: "n mod 10 = d"
    and teens: "10 * t + d < 11 \<or> 13 < 10 * t + d \<longleftrightarrow> \<not> (t = 1 \<and> d \<in> {1, 2, 3})"
  shows "ordinal_suffix n = (if d = 1 \<and> t \<noteq> 1 then ''st'' else if d = 2 \<and> t \<noteq> 1 then ''nd''
     else if d = 3 \<and> t \<noteq> 1 then ''rd'' else ''th'')"
  unfolding ordinal_suffix_def m100 teens unfolding m10 by (cases "t = 1") simp_all

text \<open>
  The ordinals in the error message are English: \<^verbatim>\<open>st\<close>, \<^verbatim>\<open>nd\<close> and \<^verbatim>\<open>rd\<close> after a last digit of 1, 2
  and 3 except in the teens, \<^verbatim>\<open>th\<close> otherwise; 11, 12 and 13 of every hundred take \<^verbatim>\<open>th\<close>.
\<close>

theorem ordinal_suffix_english:
  "ordinal_suffix (100 * h + 10 * t + d) =
    (if d = 1 \<and> t \<noteq> 1 then ''st'' else if d = 2 \<and> t \<noteq> 1 then ''nd''
     else if d = 3 \<and> t \<noteq> 1 then ''rd'' else ''th'')"
  if "d < 10" "t < 10"
proof -
  have m100: "(100 * h + 10 * t + d) mod 100 = 10 * t + d"
  proof -
    have "100 * h + 10 * t + d = (10 * t + d) + 100 * h" by simp
    moreover have "10 * t + d < 100" using that by simp
    ultimately show ?thesis by (metis mod_mult_self2 mod_less)
  qed
  have m10: "(100 * h + 10 * t + d) mod 10 = d"
  proof -
    have "100 * h + 10 * t + d = d + 10 * (10 * h + t)" by simp
    then show ?thesis using that by (metis mod_mult_self2 mod_less)
  qed
  have teens: "10 * t + d < 11 \<or> 13 < 10 * t + d \<longleftrightarrow> \<not> (t = 1 \<and> d \<in> {1, 2, 3})"
  proof (cases "t = 1")
    case True
    then show ?thesis by auto
  next
    case False
    then have "10 * t + d < 11 \<or> 13 < 10 * t + d" using that by linarith
    then show ?thesis using False by blast
  qed
  show ?thesis using m100 m10 teens by (rule ordinal_suffix_digits)
qed

theorem ordinal_suffix_english_witness:
  "get_number_with_ordinal_suffix 112 = ''112th'' \<and> ordinal_suffix (100 * 1 + 10 * 1 + 2) = ''th''"
  using ordinal_suffix_english [of 2 1 1]
  by (simp add: get_number_with_ordinal_suffix_def nat_digits.simps char_of_def bit_0)

end
