(* ===== verification/Page_Scan.thy ===== *)
theory Page_Scan
  imports Reduce_Area
begin

text \<open>
  Which pages the leader sends (\<^verbatim>\<open>leader.cc\<close>): it collects the pages of all blocks of its heaps, reads
  their page map entries, skips the clean, untouched and reduced ones and splits the rest into zero
  and dirty pages with a vectorised test.

  mimalloc's block lists and Boost's interval sets are arguments: \<open>blocks_of\<close> lists the blocks of a
  heap, and \<open>intervals\<close> is the iteration over an interval set (a set of page numbers) as disjoint
  page ranges.
\<close>

section \<open>The test for a zero page\<close>

text \<open>A little-endian 64-bit load.\<close>

fun load_le :: "memory \<Rightarrow> u64 \<Rightarrow> nat \<Rightarrow> u64" where
  "load_le mem a 0 = 0"
| "load_le mem a (Suc n) = load_le mem a n OR push_bit (8 * n) (ucast (mem (a + of_nat n)))"

definition load64 :: "memory \<Rightarrow> u64 \<Rightarrow> u64" where
  "load64 mem a = load_le mem a 8"

text \<open>
  The loop over vectors of \<open>lanes\<close> words; Highway guarantees at least one lane. \<open>i\<close> and \<open>n\<close> count
  words from the beginning of the page.
\<close>

function or_vectors :: "memory \<Rightarrow> u64 \<Rightarrow> nat \<Rightarrow> nat \<Rightarrow> nat \<Rightarrow> u64 list \<Rightarrow> u64 list" where
  "or_vectors mem begin_addr n lanes i res =
     (if i < n \<and> 0 < lanes then
        or_vectors mem begin_addr n lanes (i + lanes)
          (map2 (\<lambda>r v. r OR v) res
            (map (\<lambda>l. load64 mem (begin_addr + of_nat (8 * (i + l)))) [0 ..< lanes]))
      else res)"
  by pat_completeness auto
termination by (relation "measure (\<lambda>(mem, b, n, lanes, i, res). n - i)") auto

declare or_vectors.simps [simp del]

definition is_zeroed_pg_simd :: "u64 \<Rightarrow> nat \<Rightarrow> memory \<Rightarrow> pgnum \<Rightarrow> bool result" where
  "is_zeroed_pg_simd page_size lanes mem page_num =
     (let begin_addr = page_size * page_num;
          n = unat page_size div 8;
          half_size = n div 2;
          test_1 = load64 mem begin_addr;
          test_2 = load64 mem (begin_addr + of_nat (8 * half_size))
      in if test_1 \<noteq> 0 \<or> test_2 \<noteq> 0 then Inr False
         else assertE (n mod lanes = 0)
           (Inr (list_all (\<lambda>r. r = 0) (or_vectors mem begin_addr n lanes 0 (replicate lanes 0)))))"

section \<open>Collecting the pages\<close>

text \<open>\<^verbatim>\<open>visit_block\<close>; the flag tells mimalloc to go on.\<close>

definition visit_block :: "u64 \<Rightarrow> u64 option \<Rightarrow> u64 \<Rightarrow> nat set \<Rightarrow> (bool \<times> nat set) result" where
  "visit_block page_size blk block_size malloc_pages =
     (case blk of
        None \<Rightarrow> Inr (True, malloc_pages)
      | Some addr \<Rightarrow>
          bindE (memarea2pgrng page_size \<lparr>ma_data = addr, ma_size = block_size\<rparr>)
            (\<lambda>r. Inr (True, malloc_pages \<union> range_pages r)))"

text \<open>\<^verbatim>\<open>mi_heap_visit_blocks\<close> calls the visitor on each block until it returns \<^verbatim>\<open>false\<close>.\<close>

fun visit_blocks :: "u64 \<Rightarrow> (u64 option \<times> u64) list \<Rightarrow> nat set \<Rightarrow> nat set result" where
  "visit_blocks page_size [] malloc_pages = Inr malloc_pages"
| "visit_blocks page_size (b # bs) malloc_pages =
     bindE (visit_block page_size (fst b) (snd b) malloc_pages)
       (\<lambda>r. if fst r then visit_blocks page_size bs (snd r) else Inr (snd r))"

fun visit_heaps :: "u64 \<Rightarrow> ('h \<Rightarrow> (u64 option \<times> u64) list) \<Rightarrow> 'h list \<Rightarrow> nat set \<Rightarrow> nat set result" where
  "visit_heaps page_size blocks_of [] malloc_pages = Inr malloc_pages"
| "visit_heaps page_size blocks_of (h # hs) malloc_pages =
     bindE (visit_blocks page_size (blocks_of h) malloc_pages) (visit_heaps page_size blocks_of hs)"

definition pte_range_overlap :: "pte_range \<Rightarrow> pte_range \<Rightarrow> bool" where
  "pte_range_overlap lhs rhs \<longleftrightarrow>
     (let lhs_end = pr_begin lhs + pr_count lhs; rhs_end = pr_begin rhs + pr_count rhs
      in lhs_end > pr_begin rhs \<and> pr_begin lhs < rhs_end)"

definition overlap_reduce_rngs :: "reduce_area list \<Rightarrow> pte_range \<Rightarrow> pte_range list" where
  "overlap_reduce_rngs reduces pgs =
     concat (map (\<lambda>r. case get_inner_pages r of
         None \<Rightarrow> [] | Some rng \<Rightarrow> if pte_range_overlap rng pgs then [rng] else []) reduces)"

section \<open>Sorting the pages\<close>

record scan_state =
  dirty_pages :: "nat set"
  zero_pages :: "nat set"
  skiped_reduce_size :: nat

definition in_reduce :: "pte_range list \<Rightarrow> pgnum \<Rightarrow> bool" where
  "in_reduce rngs page_num =
     list_ex (\<lambda>r. page_num \<ge> pr_begin r \<and> page_num < pr_begin r + pr_count r) rngs"

text \<open>The body of the loop over one page range.\<close>

definition scan_page ::
  "u64 \<Rightarrow> nat \<Rightarrow> memory \<Rightarrow> pte_range list \<Rightarrow> pte \<Rightarrow> pgnum \<Rightarrow> scan_state \<Rightarrow> scan_state result" where
  "scan_page page_size lanes mem rngs pte_i page_num st =
     (if \<not> is_dirty pte_i then Inr st
      else if \<not> is_touched pte_i then Inr st
      else if in_reduce rngs page_num then Inr (st\<lparr>skiped_reduce_size := skiped_reduce_size st + 1\<rparr>)
      else bindE (is_zeroed_pg_simd page_size lanes mem page_num) (\<lambda>z.
        if z then Inr (st\<lparr>zero_pages := insert (unat page_num) (zero_pages st)\<rparr>)
        else Inr (st\<lparr>dirty_pages := insert (unat page_num) (dirty_pages st)\<rparr>)))"

fun scan_pages ::
  "u64 \<Rightarrow> nat \<Rightarrow> memory \<Rightarrow> pte_range list \<Rightarrow> u64 list \<Rightarrow> pgnum \<Rightarrow> scan_state \<Rightarrow> scan_state result" where
  "scan_pages page_size lanes mem rngs [] page_num st = Inr st"
| "scan_pages page_size lanes mem rngs (e # es) page_num st =
     bindE (scan_page page_size lanes mem rngs (Pte e) page_num st)
       (scan_pages page_size lanes mem rngs es (page_num + 1))"

definition scan_range ::
  "u64 \<Rightarrow> nat \<Rightarrow> memory \<Rightarrow> (u64 \<Rightarrow> nat \<Rightarrow> u64 list option) \<Rightarrow> reduce_area list \<Rightarrow> pte_range \<Rightarrow>
   scan_state \<Rightarrow> scan_state result" where
  "scan_range page_size lanes mem pread reduces pgs st =
     bindE (get_pte_range pread pgs (replicate (unat (pr_count pgs)) 0)) (\<lambda>ptes.
       scan_pages page_size lanes mem (overlap_reduce_rngs reduces pgs) ptes (pr_begin pgs) st)"

fun scan_ranges ::
  "u64 \<Rightarrow> nat \<Rightarrow> memory \<Rightarrow> (u64 \<Rightarrow> nat \<Rightarrow> u64 list option) \<Rightarrow> reduce_area list \<Rightarrow> pte_range list \<Rightarrow>
   scan_state \<Rightarrow> scan_state result" where
  "scan_ranges page_size lanes mem pread reduces [] st = Inr st"
| "scan_ranges page_size lanes mem pread reduces (pgs # rest) st =
     bindE (scan_range page_size lanes mem pread reduces pgs st)
       (scan_ranges page_size lanes mem pread reduces rest)"

definition get_zero_and_dirty_pages ::
  "u64 \<Rightarrow> nat \<Rightarrow> memory \<Rightarrow> (u64 \<Rightarrow> nat \<Rightarrow> u64 list option) \<Rightarrow> ('h \<Rightarrow> (u64 option \<times> u64) list) \<Rightarrow>
   (nat set \<Rightarrow> pte_range list) \<Rightarrow> 'h list \<Rightarrow> reduce_area list \<Rightarrow> scan_state result" where
  "get_zero_and_dirty_pages page_size lanes mem pread blocks_of intervals heaps reduces =
     bindE (visit_heaps page_size blocks_of heaps {}) (\<lambda>malloc_pages.
       scan_ranges page_size lanes mem pread reduces (intervals malloc_pages)
         \<lparr>dirty_pages = {}, zero_pages = {}, skiped_reduce_size = 0\<rparr>)"

section \<open>The vectorised test is a test of every byte\<close>

lemma word_or_eq_0: "(a :: 'a :: len word) OR b = 0 \<longleftrightarrow> a = 0 \<and> b = 0"
  by (auto simp: bit_eq_iff bit_or_iff)

lemma push_byte_eq_0:
  assumes "n < 8"
  shows "push_bit (8 * n) (ucast (b :: 8 word) :: u64) = 0 \<longleftrightarrow> b = 0"
proof
  assume z: "push_bit (8 * n) (ucast b :: u64) = 0"
  show "b = 0"
  proof (rule bit_word_eqI)
    fix i :: nat
    assume i: "i < LENGTH(8)"
    have "bit (push_bit (8 * n) (ucast b :: u64)) (8 * n + i) = bit b i"
      using assms i by (simp add: bit_push_bit_iff bit_ucast_iff)
    then show "bit b i = bit 0 i" using z by simp
  qed
qed simp

lemma load_le_eq_0: "n \<le> 8 \<Longrightarrow> load_le mem a n = 0 \<longleftrightarrow> (\<forall>i < n. mem (a + of_nat i) = 0)"
  by (induction n) (auto simp: word_or_eq_0 push_byte_eq_0 less_Suc_eq)

lemma load64_eq_0: "load64 mem a = 0 \<longleftrightarrow> (\<forall>i < 8. mem (a + of_nat i) = 0)"
  unfolding load64_def by (rule load_le_eq_0) simp

lemma or_vectors_zero:
  assumes "0 < lanes" "length res = lanes" "(n - i) mod lanes = 0"
  shows "list_all (\<lambda>r. r = 0) (or_vectors mem a n lanes i res) \<longleftrightarrow>
    list_all (\<lambda>r. r = 0) res \<and> (\<forall>j. i \<le> j \<and> j < n \<longrightarrow> load64 mem (a + of_nat (8 * j)) = 0)"
  using assms
proof (induction mem a n lanes i res rule: or_vectors.induct)
  case (1 mem a n lanes i res)
  show ?case
  proof (cases "i < n")
    case False
    then show ?thesis by (auto simp: or_vectors.simps [of mem a n lanes i])
  next
    case True
    let ?res = "map2 (\<lambda>r v. r OR v) res (map (\<lambda>l. load64 mem (a + of_nat (8 * (i + l)))) [0 ..< lanes])"
    have le: "i + lanes \<le> n"
    proof -
      have "lanes dvd n - i" using "1.prems"(3) by (simp add: mod_eq_0_iff_dvd)
      then have "lanes \<le> n - i" using True by (simp add: dvd_imp_le)
      then show ?thesis using True by simp
    qed
    have md: "(n - (i + lanes)) mod lanes = 0"
    proof -
      have "n - i = (n - (i + lanes)) + lanes" using le by simp
      then show ?thesis using "1.prems"(3) by (metis mod_add_self2)
    qed
    have res: "list_all (\<lambda>r. r = 0) ?res \<longleftrightarrow> list_all (\<lambda>r. r = 0) res \<and>
        (\<forall>l < lanes. load64 mem (a + of_nat (8 * (i + l))) = 0)"
      using "1.prems"(2) by (auto simp: list_all_length word_or_eq_0)
    have eq: "or_vectors mem a n lanes i res = or_vectors mem a n lanes (i + lanes) ?res"
      using True "1.prems"(1) by (simp add: or_vectors.simps [of mem a n lanes i])
    have ih: "list_all (\<lambda>r. r = 0) (or_vectors mem a n lanes (i + lanes) ?res) \<longleftrightarrow>
        list_all (\<lambda>r. r = 0) ?res \<and> (\<forall>j. i + lanes \<le> j \<and> j < n \<longrightarrow> load64 mem (a + of_nat (8 * j)) = 0)"
      using "1.IH" True "1.prems"(1,2) md by simp
    have sp: "(\<forall>l < lanes. load64 mem (a + of_nat (8 * (i + l))) = 0) \<and>
        (\<forall>j. i + lanes \<le> j \<and> j < n \<longrightarrow> load64 mem (a + of_nat (8 * j)) = 0) \<longleftrightarrow>
        (\<forall>j. i \<le> j \<and> j < n \<longrightarrow> load64 mem (a + of_nat (8 * j)) = 0)"
      (is "?first \<and> ?rest \<longleftrightarrow> ?all")
    proof
      assume h: "?first \<and> ?rest"
      show ?all
      proof (intro allI impI)
        fix j
        assume j: "i \<le> j \<and> j < n"
        show "load64 mem (a + of_nat (8 * j)) = 0"
        proof (cases "j < i + lanes")
          case True
          then have "j - i < lanes" "i + (j - i) = j" using j by linarith+
          then show ?thesis using conjunct1 [OF h] by metis
        qed (use h j in simp)
      qed
    next
      assume a: ?all
      have "i \<le> i + l \<and> i + l < n" if "l < lanes" for l using that le by linarith
      then have ?first using a by blast
      moreover have "i \<le> j \<and> j < n" if "i + lanes \<le> j \<and> j < n" for j using that by linarith
      then have ?rest using a by blast
      ultimately show "?first \<and> ?rest" ..
    qed
    show ?thesis unfolding eq ih res conj_assoc sp ..
  qed
qed

text \<open>The bytes of a page, as offsets from its first address.\<close>

lemma page_words: "(\<forall>j < n. load64 mem (a + of_nat (8 * j)) = 0) \<longleftrightarrow> (\<forall>i < 8 * n. mem (a + of_nat i) = 0)"
proof
  assume w: "\<forall>j < n. load64 mem (a + of_nat (8 * j)) = 0"
  show "\<forall>i < 8 * n. mem (a + of_nat i) = 0"
  proof (intro allI impI)
    fix i
    assume "i < 8 * n"
    then have "i div 8 < n" "i mod 8 < 8" by (simp_all add: div_less_iff_less_mult mult.commute)
    then have "mem (a + of_nat (8 * (i div 8)) + of_nat (i mod 8)) = 0" using w load64_eq_0 by blast
    moreover have "a + of_nat (8 * (i div 8)) + of_nat (i mod 8) = a + of_nat (8 * (i div 8) + i mod 8)"
      by (simp only: of_nat_add add.assoc)
    ultimately show "mem (a + of_nat i) = 0" by (simp only: mult_div_mod_eq)
  qed
next
  assume b: "\<forall>i < 8 * n. mem (a + of_nat i) = 0"
  show "\<forall>j < n. load64 mem (a + of_nat (8 * j)) = 0"
  proof (intro allI impI)
    fix j
    assume j: "j < n"
    have "mem (a + of_nat (8 * j) + of_nat i) = 0" if "i < 8" for i
    proof -
      have "8 * j + i < 8 * n" using j that by linarith
      then have "mem (a + of_nat (8 * j + i)) = 0" using b by blast
      then show ?thesis by (simp only: of_nat_add add.assoc)
    qed
    then show "load64 mem (a + of_nat (8 * j)) = 0" unfolding load64_eq_0 by blast
  qed
qed

lemma zeroed_page_bytes:
  assumes "0 < lanes" "(unat page_size div 8) mod lanes = 0" "8 dvd unat page_size" "0 < unat page_size"
  shows "is_zeroed_pg_simd page_size lanes mem p
    = Inr (\<forall>i < unat page_size. mem (page_size * p + of_nat i) = 0)"
proof -
  let ?n = "unat page_size div 8"
  let ?zero = "\<lambda>j. load64 mem (page_size * p + of_nat (8 * j)) = 0"
  have n: "8 * ?n = unat page_size" using assms(3) by simp
  then have n0: "0 < ?n" using assms(4) by (metis gr0I mult_0_right)
  have all: "(\<forall>j < ?n. ?zero j) \<longleftrightarrow> (\<forall>i < unat page_size. mem (page_size * p + of_nat i) = 0)"
    using page_words [of ?n mem "page_size * p"] unfolding n .
  have h: "?n div 2 < ?n" using n0 by simp
  have or: "list_all (\<lambda>r. r = 0) (or_vectors mem (page_size * p) ?n lanes 0 (replicate lanes 0)) \<longleftrightarrow> (\<forall>j < ?n. ?zero j)"
    using or_vectors_zero [OF assms(1), of "replicate lanes 0" ?n 0 mem "page_size * p"] assms(2)
    by (simp add: list_all_length)
  show ?thesis
  proof (cases "load64 mem (page_size * p) = 0 \<and> ?zero (?n div 2)")
    case True
    then show ?thesis unfolding is_zeroed_pg_simd_def Let_def or all using assms(2) by simp
  next
    case False
    then have "\<not> ?zero 0 \<or> \<not> ?zero (?n div 2)" by simp
    then have "\<not> (\<forall>j < ?n. ?zero j)" using n0 h by blast
    moreover have "is_zeroed_pg_simd page_size lanes mem p = Inr False"
      using False unfolding is_zeroed_pg_simd_def Let_def by simp
    ultimately show ?thesis unfolding all by simp
  qed
qed

text \<open>
  The vectorised test, with its early exit on two sample words, answers whether all bytes of the
  page are zero, for every number of lanes that divides the words of a page.
\<close>

theorem zeroed_page_exact:
  assumes "0 < lanes" "(unat page_size div 8) mod lanes = 0" "8 dvd unat page_size" "0 < unat page_size"
  shows "is_zeroed_pg_simd page_size lanes mem p
    = Inr (\<forall>i < unat page_size. mem (page_size * p + of_nat i) = 0)"
  using assms by (rule zeroed_page_bytes)

theorem zeroed_page_exact_witness:
  "is_zeroed_pg_simd 4096 8 (\<lambda>a. 0) 5 = Inr True"
  using zeroed_page_exact [of 8 4096 "\<lambda>a. 0" 5] by simp

end
