(* ===== verification/Page_Select.thy ===== *)
theory Page_Select
  imports Page_Scan
begin

text \<open>
  Which pages \<^verbatim>\<open>get_zero_and_dirty_pages\<close> selects: the written, touched pages of the heaps' blocks
  that no reduce area contains, split by whether they are all zero.
\<close>

section \<open>The pages of the heaps\<close>

definition block_pages :: "u64 \<Rightarrow> u64 option \<times> u64 \<Rightarrow> nat set" where
  "block_pages ps b = (case fst b of
     None \<Rightarrow> {} | Some a \<Rightarrow> {p. page_bytes ps p \<inter> area_bytes \<lparr>ma_data = a, ma_size = snd b\<rparr> \<noteq> {}})"

definition block_ok :: "u64 \<Rightarrow> u64 option \<times> u64 \<Rightarrow> bool" where
  "block_ok ps b \<longleftrightarrow> (case fst b of None \<Rightarrow> True | Some a \<Rightarrow> area_ok ps \<lparr>ma_data = a, ma_size = snd b\<rparr>)"

definition heap_pages :: "u64 \<Rightarrow> ('h \<Rightarrow> (u64 option \<times> u64) list) \<Rightarrow> 'h list \<Rightarrow> nat set" where
  "heap_pages ps blocks_of heaps = (\<Union>h \<in> set heaps. \<Union>b \<in> set (blocks_of h). block_pages ps b)"

lemma visit_block_ok: "block_ok ps b \<Longrightarrow> visit_block ps (fst b) (snd b) S = Inr (True, S \<union> block_pages ps b)"
  using outer_pages_exact [of ps "\<lparr>ma_data = the (fst b), ma_size = snd b\<rparr>"]
  by (auto simp: visit_block_def block_ok_def block_pages_def split: option.splits)

lemma visit_blocks_ok:
  "\<forall>b \<in> set bs. block_ok ps b \<Longrightarrow> visit_blocks ps bs S = Inr (S \<union> (\<Union>b \<in> set bs. block_pages ps b))"
  by (induction bs arbitrary: S) (simp_all add: visit_block_ok Un_assoc)

lemma visit_heaps_ok:
  "\<forall>h \<in> set hs. \<forall>b \<in> set (blocks_of h). block_ok ps b \<Longrightarrow>
   visit_heaps ps blocks_of hs S = Inr (S \<union> heap_pages ps blocks_of hs)"
  by (induction hs arbitrary: S) (simp_all add: visit_blocks_ok heap_pages_def Un_assoc)

section \<open>Reduced pages\<close>

definition reduce_pages :: "reduce_area list \<Rightarrow> nat set" where
  "reduce_pages reduces = (\<Union>r \<in> set reduces. case get_inner_pages r of None \<Rightarrow> {} | Some rng \<Rightarrow> range_pages rng)"

definition reduces_ok :: "u64 \<Rightarrow> reduce_area list \<Rightarrow> bool" where
  "reduces_ok ps reduces \<longleftrightarrow> (\<forall>r \<in> set reduces. \<forall>rng. get_inner_pages r = Some rng \<longrightarrow> range_ok ps rng)"

lemma range_end:
  assumes "range_ok ps r"
  shows "unat (pr_begin r + pr_count r) = unat (pr_begin r) + unat (pr_count r)"
    "unat (pr_begin r) + unat (pr_count r) < 2 ^ 64"
proof -
  have "(unat (pr_begin r) + unat (pr_count r)) * 1 \<le> (unat (pr_begin r) + unat (pr_count r) + 1) * unat ps"
    using assms by (intro mult_le_mono) (auto simp: range_ok_def)
  also have "\<dots> < 2 ^ 64" using assms by (simp add: range_ok_def)
  finally show lt: "unat (pr_begin r) + unat (pr_count r) < 2 ^ 64" by simp
  show "unat (pr_begin r + pr_count r) = unat (pr_begin r) + unat (pr_count r)" using lt by (rule unat_add_nw)
qed

lemma in_range_iff:
  assumes "range_ok ps r"
  shows "w \<ge> pr_begin r \<and> w < pr_begin r + pr_count r \<longleftrightarrow> unat w \<in> range_pages r"
  using range_end [OF assms] by (simp add: range_pages_def word_order_nat)

lemma pte_range_overlap_iff:
  assumes "range_ok ps a" "range_ok ps b"
  shows "pte_range_overlap a b \<longleftrightarrow> range_pages a \<inter> range_pages b \<noteq> {}"
proof -
  have "0 < unat (pr_count a)" "0 < unat (pr_count b)" using assms by (simp_all add: range_ok_def)
  then show ?thesis
    using range_end(1) [OF assms(1)] range_end(1) [OF assms(2)]
    unfolding pte_range_overlap_def range_pages_def atLeastLessThan_meet Let_def word_less_nat_alt by simp
qed

lemma in_reduce_iff:
  assumes "reduces_ok ps reduces" "range_ok ps pgs" "unat w \<in> range_pages pgs"
  shows "in_reduce (overlap_reduce_rngs reduces pgs) w \<longleftrightarrow> unat w \<in> reduce_pages reduces"
proof -
  have set_eq: "set (overlap_reduce_rngs reduces pgs)
      = {rng. \<exists>r \<in> set reduces. get_inner_pages r = Some rng \<and> pte_range_overlap rng pgs}"
    by (auto simp: overlap_reduce_rngs_def split: option.splits if_splits)
  have rng: "range_ok ps rng" if "r \<in> set reduces" "get_inner_pages r = Some rng" for r rng
    using assms(1) that by (simp add: reduces_ok_def)
  have ov: "pte_range_overlap rng pgs" if "range_ok ps rng" "unat w \<in> range_pages rng" for rng
    using pte_range_overlap_iff [OF that(1) assms(2)] that(2) assms(3) by blast
  show ?thesis
  proof
    assume "in_reduce (overlap_reduce_rngs reduces pgs) w"
    then obtain rng r where r: "r \<in> set reduces" "get_inner_pages r = Some rng"
      "w \<ge> pr_begin rng \<and> w < pr_begin rng + pr_count rng"
      by (auto simp: in_reduce_def list_ex_iff set_eq)
    then have "unat w \<in> range_pages rng" using in_range_iff rng by blast
    then show "unat w \<in> reduce_pages reduces" using r(1,2) unfolding reduce_pages_def by force
  next
    assume "unat w \<in> reduce_pages reduces"
    then obtain r rng where r: "r \<in> set reduces" "get_inner_pages r = Some rng" "unat w \<in> range_pages rng"
      by (auto simp: reduce_pages_def split: option.splits)
    then have "w \<ge> pr_begin rng \<and> w < pr_begin rng + pr_count rng" "rng \<in> set (overlap_reduce_rngs reduces pgs)"
      using in_range_iff rng ov set_eq by blast+
    then show "in_reduce (overlap_reduce_rngs reduces pgs) w" by (auto simp: in_reduce_def list_ex_iff)
  qed
qed

section \<open>The selected pages\<close>

definition page_zero :: "u64 \<Rightarrow> memory \<Rightarrow> nat \<Rightarrow> bool" where
  "page_zero ps mem p \<longleftrightarrow> (\<forall>i < unat ps. mem (ps * of_nat p + of_nat i) = 0)"

definition must_send :: "(nat \<Rightarrow> u64) \<Rightarrow> nat set \<Rightarrow> nat \<Rightarrow> bool" where
  "must_send entry reduced p \<longleftrightarrow> is_dirty (Pte (entry p)) \<and> is_touched (Pte (entry p)) \<and> p \<notin> reduced"

text \<open>
  What the platform has to be for the vectorised test, and what the kernel's page map returns. One
  \<^verbatim>\<open>pread\<close> transfers at most \<open>read_max\<close> bytes on Linux.
\<close>

definition read_max :: nat where
  "read_max = 0x7ffff000"

definition simd_ok :: "u64 \<Rightarrow> nat \<Rightarrow> bool" where
  "simd_ok ps lanes \<longleftrightarrow> 0 < lanes \<and> (unat ps div 8) mod lanes = 0 \<and> 8 dvd unat ps \<and> 0 < unat ps"

definition pagemap_ok :: "(u64 \<Rightarrow> nat \<Rightarrow> u64 list option) \<Rightarrow> (nat \<Rightarrow> u64) \<Rightarrow> bool" where
  "pagemap_ok pread entry \<longleftrightarrow>
     (\<forall>b n. unat b * 8 < 2 ^ 64 \<longrightarrow> n * 8 \<le> read_max \<longrightarrow>
        pread (b * 8) n = Some (map entry [unat b ..< unat b + n]))"

definition intervals_ok :: "u64 \<Rightarrow> (nat set \<Rightarrow> pte_range list) \<Rightarrow> nat set \<Rightarrow> bool" where
  "intervals_ok ps intervals S \<longleftrightarrow>
     (\<Union>r \<in> set (intervals S). range_pages r) = S \<and>
     (\<forall>r \<in> set (intervals S). range_ok ps r \<and> unat (pr_count r) * 8 \<le> read_max)"

text \<open>\<open>st'\<close> is \<open>st\<close> with the pages of \<open>S\<close> sorted in.\<close>

definition sorts :: "u64 \<Rightarrow> memory \<Rightarrow> (nat \<Rightarrow> u64) \<Rightarrow> nat set \<Rightarrow> nat set \<Rightarrow> scan_state \<Rightarrow> scan_state \<Rightarrow> bool" where
  "sorts ps mem entry reduced S st st' \<longleftrightarrow>
     dirty_pages st' = dirty_pages st \<union> {p \<in> S. must_send entry reduced p \<and> \<not> page_zero ps mem p} \<and>
     zero_pages st' = zero_pages st \<union> {p \<in> S. must_send entry reduced p \<and> page_zero ps mem p}"

lemma sorts_empty: "sorts ps mem entry reduced {} st st"
  by (simp add: sorts_def)

lemma sorts_trans:
  "sorts ps mem entry reduced S st st' \<Longrightarrow> sorts ps mem entry reduced T st' st'' \<Longrightarrow>
   sorts ps mem entry reduced (S \<union> T) st st''"
  by (auto simp: sorts_def)

lemma scan_page_sorts:
  assumes "simd_ok ps lanes" "in_reduce rngs w \<longleftrightarrow> unat w \<in> reduced"
  shows "\<exists>st'. scan_page ps lanes mem rngs (Pte (entry (unat w))) w st = Inr st' \<and>
    sorts ps mem entry reduced {unat w} st st'"
proof -
  have z: "is_zeroed_pg_simd ps lanes mem w = Inr (page_zero ps mem (unat w))"
    using zeroed_page_bytes [of lanes ps mem w] assms(1) by (simp add: simd_ok_def page_zero_def)
  show ?thesis
  proof (cases "must_send entry reduced (unat w)")
    case True
    then show ?thesis
      using assms(2) by (cases "page_zero ps mem (unat w)") (auto simp: scan_page_def z must_send_def sorts_def)
  next
    case False
    then show ?thesis
      using assms(2) by (auto simp: scan_page_def must_send_def sorts_def)
  qed
qed

lemma scan_pages_sorts:
  assumes "simd_ok ps lanes"
    and "\<And>v. unat w \<le> unat v \<Longrightarrow> unat v < unat w + n \<Longrightarrow> in_reduce rngs v \<longleftrightarrow> unat v \<in> reduced"
    and "unat w + n < 2 ^ 64"
  shows "\<exists>st'. scan_pages ps lanes mem rngs (map entry [unat w ..< unat w + n]) w st = Inr st' \<and>
    sorts ps mem entry reduced {unat w ..< unat w + n} st st'"
  using assms(2,3)
proof (induction n arbitrary: w st)
  case 0
  then show ?case by (simp add: sorts_empty)
next
  case (Suc n)
  have w1: "unat (w + 1) = unat w + 1" using Suc.prems(2) unat_add_nw [of w 1] by simp
  obtain st1 where st1: "scan_page ps lanes mem rngs (Pte (entry (unat w))) w st = Inr st1"
    "sorts ps mem entry reduced {unat w} st st1"
    using scan_page_sorts [OF assms(1), of rngs w reduced mem entry st] Suc.prems(1) [of w] by auto
  obtain st2 where st2: "scan_pages ps lanes mem rngs (map entry [unat (w + 1) ..< unat (w + 1) + n]) (w + 1) st1 = Inr st2"
    "sorts ps mem entry reduced {unat (w + 1) ..< unat (w + 1) + n} st1 st2"
    using Suc.IH [of "w + 1" st1] Suc.prems unfolding w1 by auto
  have l: "[unat w ..< unat w + Suc n] = unat w # [unat (w + 1) ..< unat (w + 1) + n]"
    unfolding w1 by (simp add: upt_conv_Cons)
  have s: "{unat w ..< unat w + Suc n} = {unat w} \<union> {unat (w + 1) ..< unat (w + 1) + n}"
    unfolding w1 by auto
  show ?case
    using st1(1) st2(1) sorts_trans [OF st1(2) st2(2)] unfolding l s by simp
qed

lemma scan_range_sorts:
  assumes "simd_ok ps lanes" "pagemap_ok pread entry" "reduces_ok ps reduces"
    and "range_ok ps pgs" "unat (pr_count pgs) * 8 \<le> read_max" "8 \<le> unat ps"
  shows "\<exists>st'. scan_range ps lanes mem pread reduces pgs st = Inr st' \<and>
    sorts ps mem entry (reduce_pages reduces) (range_pages pgs) st st'"
proof -
  let ?b = "unat (pr_begin pgs)"
  let ?n = "unat (pr_count pgs)"
  have "?b * 8 \<le> (?b + ?n + 1) * unat ps" using assms(6) by (intro mult_le_mono) simp_all
  also have "\<dots> < 2 ^ 64" using assms(4) by (simp add: range_ok_def)
  finally have b8: "?b * 8 < 2 ^ 64" .
  have "pread (pr_begin pgs * 8) ?n = Some (map entry [?b ..< ?b + ?n])"
    using assms(2,5) b8 unfolding pagemap_ok_def by blast
  then have p: "get_pte_range pread pgs (replicate ?n 0) = Inr (map entry [?b ..< ?b + ?n])"
    unfolding get_pte_range_def by (intro pagemap_read_full) simp_all
  have r: "in_reduce (overlap_reduce_rngs reduces pgs) v \<longleftrightarrow> unat v \<in> reduce_pages reduces"
    if "?b \<le> unat v" "unat v < ?b + ?n" for v
    by (rule in_reduce_iff [OF assms(3,4)]) (use that in \<open>simp add: range_pages_def\<close>)
  show ?thesis
    unfolding scan_range_def p bindE_simps range_pages_def
    by (rule scan_pages_sorts [OF assms(1) r range_end(2) [OF assms(4)]])
qed

lemma scan_ranges_sorts:
  assumes "simd_ok ps lanes" "pagemap_ok pread entry" "reduces_ok ps reduces" "8 \<le> unat ps"
    and "\<forall>r \<in> set rs. range_ok ps r \<and> unat (pr_count r) * 8 \<le> read_max"
  shows "\<exists>st'. scan_ranges ps lanes mem pread reduces rs st = Inr st' \<and>
    sorts ps mem entry (reduce_pages reduces) (\<Union>r \<in> set rs. range_pages r) st st'"
  using assms(5)
proof (induction rs arbitrary: st)
  case Nil
  then show ?case by (simp add: sorts_empty)
next
  case (Cons r rs)
  obtain st1 where st1: "scan_range ps lanes mem pread reduces r st = Inr st1"
    "sorts ps mem entry (reduce_pages reduces) (range_pages r) st st1"
    using scan_range_sorts [OF assms(1-3), of r mem st] Cons.prems assms(4) by auto
  obtain st2 where st2: "scan_ranges ps lanes mem pread reduces rs st1 = Inr st2"
    "sorts ps mem entry (reduce_pages reduces) (\<Union>r \<in> set rs. range_pages r) st1 st2"
    using Cons.IH [of st1] Cons.prems by auto
  show ?case
    using st1(1) st2(1) sorts_trans [OF st1(2) st2(2)] by simp
qed

text \<open>The assumptions on the platform, the page map, mimalloc's blocks and Boost's intervals.\<close>

definition scan_ok ::
  "u64 \<Rightarrow> nat \<Rightarrow> (u64 \<Rightarrow> nat \<Rightarrow> u64 list option) \<Rightarrow> (nat \<Rightarrow> u64) \<Rightarrow> ('h \<Rightarrow> (u64 option \<times> u64) list) \<Rightarrow>
   (nat set \<Rightarrow> pte_range list) \<Rightarrow> 'h list \<Rightarrow> reduce_area list \<Rightarrow> bool" where
  "scan_ok ps lanes pread entry blocks_of intervals heaps reduces \<longleftrightarrow>
     simd_ok ps lanes \<and> pagemap_ok pread entry \<and> reduces_ok ps reduces \<and>
     (\<forall>h \<in> set heaps. \<forall>b \<in> set (blocks_of h). block_ok ps b) \<and>
     intervals_ok ps intervals (heap_pages ps blocks_of heaps)"

definition selects_pages ::
  "u64 \<Rightarrow> memory \<Rightarrow> (nat \<Rightarrow> u64) \<Rightarrow> nat set \<Rightarrow> nat set \<Rightarrow> scan_state \<Rightarrow> bool" where
  "selects_pages ps mem entry reduced S st \<longleftrightarrow>
     dirty_pages st = {p \<in> S. must_send entry reduced p \<and> \<not> page_zero ps mem p} \<and>
     zero_pages st = {p \<in> S. must_send entry reduced p \<and> page_zero ps mem p}"

lemma get_zero_and_dirty_pages_selects:
  assumes "scan_ok ps lanes pread entry blocks_of intervals heaps reduces"
  shows "\<exists>st. get_zero_and_dirty_pages ps lanes mem pread blocks_of intervals heaps reduces = Inr st \<and>
    selects_pages ps mem entry (reduce_pages reduces) (heap_pages ps blocks_of heaps) st"
proof -
  let ?S = "heap_pages ps blocks_of heaps"
  let ?st = "\<lparr>dirty_pages = {}, zero_pages = {}, skiped_reduce_size = 0\<rparr>"
  have ok: "simd_ok ps lanes" "pagemap_ok pread entry" "reduces_ok ps reduces"
    "\<forall>h \<in> set heaps. \<forall>b \<in> set (blocks_of h). block_ok ps b" "intervals_ok ps intervals ?S"
    using assms by (simp_all add: scan_ok_def)
  have "8 \<le> unat ps" using ok(1) by (simp add: simd_ok_def dvd_imp_le)
  moreover have iv: "(\<Union>r \<in> set (intervals ?S). range_pages r) = ?S"
    "\<forall>r \<in> set (intervals ?S). range_ok ps r \<and> unat (pr_count r) * 8 \<le> read_max"
    using ok(5) by (simp_all add: intervals_ok_def)
  ultimately obtain st where "scan_ranges ps lanes mem pread reduces (intervals ?S) ?st = Inr st"
    "sorts ps mem entry (reduce_pages reduces) ?S ?st st"
    using scan_ranges_sorts [OF ok(1-3) _ iv(2), of mem ?st] by auto
  then show ?thesis
    using visit_heaps_ok [OF ok(4), of "{}"]
    by (simp add: get_zero_and_dirty_pages_def sorts_def selects_pages_def)
qed

text \<open>
  C37. \<^verbatim>\<open>get_zero_and_dirty_pages\<close> selects exactly the heap pages that have been written since the last
  synchronisation, are backed by memory or swap and lie in no reduce area, and sorts each of them
  by whether all its bytes are zero.
\<close>

theorem get_zero_and_dirty_pages_exact:
  assumes "scan_ok ps lanes pread entry blocks_of intervals heaps reduces"
  shows "\<exists>st. get_zero_and_dirty_pages ps lanes mem pread blocks_of intervals heaps reduces = Inr st \<and>
    dirty_pages st = {p \<in> heap_pages ps blocks_of heaps. must_send entry (reduce_pages reduces) p \<and> \<not> page_zero ps mem p} \<and>
    zero_pages st = {p \<in> heap_pages ps blocks_of heaps. must_send entry (reduce_pages reduces) p \<and> page_zero ps mem p}"
  using get_zero_and_dirty_pages_selects [OF assms, of mem] unfolding selects_pages_def .

definition demo_pread :: "u64 \<Rightarrow> nat \<Rightarrow> u64 list option" where
  "demo_pread off n = Some (replicate n 0x8080000000000000)"

definition one_block :: "unit \<Rightarrow> (u64 option \<times> u64) list" where
  "one_block h = [(Some 0x10000, 100)]"

definition demo_intervals :: "nat set \<Rightarrow> pte_range list" where
  "demo_intervals S = (if 16 \<in> S then [\<lparr>pr_begin = 16, pr_count = 1\<rparr>] else [])"

lemma one_block_pages: "heap_pages 4096 one_block [()] = {16}"
proof -
  have ok: "area_ok 4096 \<lparr>ma_data = 0x10000, ma_size = 100\<rparr>" by (simp add: area_ok_def)
  obtain r where r: "memarea2pgrng 4096 \<lparr>ma_data = 0x10000, ma_size = 100\<rparr> = Inr r"
    "range_pages r = {p. page_bytes 4096 p \<inter> area_bytes \<lparr>ma_data = 0x10000, ma_size = 100\<rparr> \<noteq> {}}"
    using outer_pages_exact [OF ok] by blast
  have "r = \<lparr>pr_begin = 16, pr_count = 1\<rparr>"
    using r(1) by (simp add: memarea2pgrng_def addr2pgnum_def ma_back_def ma_end_def)
  then have "{p. page_bytes 4096 p \<inter> area_bytes \<lparr>ma_data = 0x10000, ma_size = 100\<rparr> \<noteq> {}} = {16 ..< 17}"
    using r(2) by (simp add: range_pages_def)
  moreover have "{16 ..< 17} = {16 :: nat}" by auto
  ultimately show ?thesis by (simp add: heap_pages_def one_block_def block_pages_def)
qed

lemma demo_scan_ok: "scan_ok 4096 8 demo_pread (\<lambda>p. 0x8080000000000000) one_block demo_intervals [()] []"
proof -
  have "pagemap_ok demo_pread (\<lambda>p. 0x8080000000000000)"
    by (simp add: pagemap_ok_def demo_pread_def map_replicate_const)
  moreover have "intervals_ok 4096 demo_intervals {16}"
    by (auto simp: intervals_ok_def demo_intervals_def range_pages_def range_ok_def read_max_def)
  moreover have "block_ok 4096 b" if "b \<in> set (one_block ())" for b
    using that by (auto simp: one_block_def block_ok_def area_ok_def)
  ultimately show ?thesis by (simp add: scan_ok_def simd_ok_def reduces_ok_def one_block_pages)
qed

theorem get_zero_and_dirty_pages_exact_witness:
  "\<exists>st. get_zero_and_dirty_pages 4096 8 (\<lambda>a. 7) demo_pread one_block demo_intervals [()] [] = Inr st \<and>
     dirty_pages st = {16} \<and> zero_pages st = {}"
proof -
  have sel: "must_send (\<lambda>p. 0x8080000000000000) (reduce_pages []) 16"
    by (simp add: must_send_def reduce_pages_def is_dirty_def is_touched_def is_present_def dirty_bit_def present_bit_def)
  have nz: "\<not> page_zero 4096 (\<lambda>a. 7) 16"
    by (auto simp: page_zero_def intro: exI [of _ 0])
  obtain st where "get_zero_and_dirty_pages 4096 8 (\<lambda>a. 7) demo_pread one_block demo_intervals [()] [] = Inr st"
    "dirty_pages st = {p \<in> {16}. must_send (\<lambda>p. 0x8080000000000000) (reduce_pages []) p \<and> \<not> page_zero 4096 (\<lambda>a. 7) p}"
    "zero_pages st = {p \<in> {16}. must_send (\<lambda>p. 0x8080000000000000) (reduce_pages []) p \<and> page_zero 4096 (\<lambda>a. 7) p}"
    using get_zero_and_dirty_pages_exact [OF demo_scan_ok, of "\<lambda>a. 7"] unfolding one_block_pages by blast
  then show ?thesis using sel nz by auto
qed


end
