(* ===== verification/Page_Sync.thy ===== *)
theory Page_Sync
  imports Page_Select
begin

text \<open>
  Entering a parallel context: what the leader sends (\<^verbatim>\<open>leader.cc\<close>) and what a worker receives and does
  with it (\<^verbatim>\<open>worker.cc\<close>). The blocking broadcasts of the root form a transcript; a worker's broadcast
  takes the next entry of it, waits for ever when there is none, and fails when it does not fit, as
  MPI requires calls to match. The pages themselves travel in \<^verbatim>\<open>bigmpi::sync_areas\<close>.
\<close>

section \<open>Ranks\<close>

text \<open>
  A rank has its memory and a rest: the state of its operating system and of the MPI library. What
  lies outside the repository is collected in a record: the page size, the lanes of a vector,
  \<^verbatim>\<open>fake_stack\<close>, system calls, mimalloc, Boost's interval sets, the non-blocking broadcasts, and the
  code the program runs inside the parallel context.
\<close>

record 'x rank_state =
  rs_mem :: memory
  rs_ext :: 'x

record ('h, 'r, 'x) platform =
  pf_page_size :: u64
  pf_lanes :: nat
  pf_fake_stack :: mem_area
  pf_kernel :: "'x rank_state kernel"
  pf_ndebug :: bool
  pf_pread :: "'x rank_state \<Rightarrow> u64 \<Rightarrow> nat \<Rightarrow> u64 list option"
  pf_refs_opened :: bool
  pf_clear_refs :: "'x rank_state \<Rightarrow> 'x rank_state"
  pf_blocks :: "'x rank_state \<Rightarrow> 'h \<Rightarrow> (u64 option \<times> u64) list"
  pf_heap_new :: "'x rank_state \<Rightarrow> 'h \<times> 'x rank_state"
  pf_intervals :: "nat set \<Rightarrow> pte_range list"
  pf_ibcast :: "u64 \<Rightarrow> int \<Rightarrow> 'x rank_state \<Rightarrow> 'r \<times> 'x rank_state"
  pf_waitany :: "'r list \<Rightarrow> 'x rank_state \<Rightarrow> nat option \<times> 'x rank_state"
  pf_waitall :: "'r list \<Rightarrow> 'x rank_state \<Rightarrow> 'x rank_state"
  pf_region :: "u64 \<Rightarrow> 'x rank_state \<Rightarrow> 'x rank_state"

section \<open>The messages\<close>

text \<open>\<^verbatim>\<open>enum class rpc_tag : int8_t\<close>.\<close>

datatype rpc_tag = Tag_exit | Tag_run_function_without_context | Tag_enter_parallel

fun tag_value :: "rpc_tag \<Rightarrow> 8 word" where
  "tag_value Tag_exit = 0"
| "tag_value Tag_run_function_without_context = 1"
| "tag_value Tag_enter_parallel = 2"

text \<open>
  One constructor per broadcast, with the byte count where the call passes one (an \<^verbatim>\<open>int\<close> for
  \<^verbatim>\<open>MPI_Bcast\<close>, a \<^verbatim>\<open>size_t\<close> for \<^verbatim>\<open>bigmpi::Bcast\<close>) and what the bytes hold. \<open>Sync_msg\<close> stands for the calls of
  \<^verbatim>\<open>sync_areas\<close> on a list of areas.
\<close>

datatype msg =
    Tag_msg "8 word"
  | Size_msg u64
  | Ops_msg u32 "mem_op list"
  | Stack_msg u32 "8 word list"
  | Areas_msg u64 "mem_area list"
  | Ranges_msg u64 "pte_range list"
  | Sync_msg "mem_area list"
  | Ctx_msg u64

text \<open>\<^verbatim>\<open>sizeof\<close> on the supported platform.\<close>

definition sizeof_mem_ops_t :: u64 where "sizeof_mem_ops_t = 48"
definition sizeof_mem_area :: u64 where "sizeof_mem_area = 16"
definition sizeof_pte_range :: u64 where "sizeof_pte_range = 16"

section \<open>The leader\<close>

text \<open>\<open>ls_mem\<close> is the state of the memory proxies; \<open>ls_mpi_heap\<close> is the static \<^verbatim>\<open>mpi_heap\<close>.\<close>

record ('h, 'x) leader =
  ls_mem :: "'x rank_state leader_mem"
  ls_heaps :: "'h list"
  ls_default_heap :: 'h
  ls_mpi_heap :: "'h option"

abbreviation ls_rank :: "('h, 'x) leader \<Rightarrow> 'x rank_state" where
  "ls_rank st \<equiv> lm_os (ls_mem st)"

definition set_rank :: "'x rank_state \<Rightarrow> ('h, 'x) leader \<Rightarrow> ('h, 'x) leader" where
  "set_rank w st = st\<lparr>ls_mem := (ls_mem st)\<lparr>lm_os := w\<rparr>\<rparr>"

text \<open>
  Leader code returns what it sent, its result and its state, or \<open>None\<close> when it does not return.
\<close>

type_synonym ('s, 'a) send = "'s \<Rightarrow> (msg list \<times> 'a result \<times> 's) option"

definition send :: "msg list \<Rightarrow> ('s, unit) send" where
  "send ms s = Some (ms, Inr (), s)"

definition bindS :: "('s, 'a) send \<Rightarrow> ('a \<Rightarrow> ('s, 'b) send) \<Rightarrow> ('s, 'b) send" where
  "bindS m f s =
     (case m s of
        None \<Rightarrow> None
      | Some (out, Inl e, s') \<Rightarrow> Some (out, Inl e, s')
      | Some (out, Inr x, s') \<Rightarrow> map_option (\<lambda>(out', r, s''). (out @ out', r, s'')) (f x s'))"

definition thenS :: "('s, unit) send \<Rightarrow> ('s, 'b) send \<Rightarrow> ('s, 'b) send" where
  "thenS m k = bindS m (\<lambda>u. k)"

definition send_rpc_tag :: "rpc_tag \<Rightarrow> ('s, unit) send" where
  "send_rpc_tag tag = send [Tag_msg (tag_value tag)]"

text \<open>Moving the log out leaves it empty.\<close>

definition send_mem_ops :: "(('h, 'x) leader, unit) send" where
  "send_mem_ops st =
     (let mem_ops = memory_operations (ls_mem st); mem_ops_size = of_nat (length mem_ops)
      in Some ([Size_msg mem_ops_size, Ops_msg (ucast (sizeof_mem_ops_t * mem_ops_size)) mem_ops], Inr (),
           st\<lparr>ls_mem := (ls_mem st)\<lparr>memory_operations := []\<rparr>\<rparr>))"

definition load_bytes :: "memory \<Rightarrow> u64 \<Rightarrow> nat \<Rightarrow> 8 word list" where
  "load_bytes mem a n = map (\<lambda>i. mem (a + of_nat i)) [0 ..< n]"

definition send_stack :: "('h, 'r, 'x) platform \<Rightarrow> (('h, 'x) leader, unit) send" where
  "send_stack pf st =
     (let stack = pf_fake_stack pf
      in send [Stack_msg (ucast (ma_size stack))
           (load_bytes (rs_mem (ls_rank st)) (ma_data stack) (unat (ma_size stack)))] st)"

definition leader_sync_areas :: "('h, 'r, 'x) platform \<Rightarrow> mem_area list \<Rightarrow> (('h, 'x) leader, unit) send" where
  "leader_sync_areas pf mem_areas st =
     map_option (\<lambda>r. case r of
         Inl e \<Rightarrow> ([Sync_msg mem_areas], Inl e, st)
       | Inr w \<Rightarrow> ([Sync_msg mem_areas], Inr (), set_rank w st))
       (sync_areas (pf_ibcast pf) (pf_waitany pf) (pf_waitall pf) mem_areas (ls_rank st))"

definition send_dirty_page :: "('h, 'r, 'x) platform \<Rightarrow> nat set \<Rightarrow> (('h, 'x) leader, unit) send" where
  "send_dirty_page pf dirty =
     (let mem_areas = map (pgrng2memarea (pf_page_size pf)) (pf_intervals pf dirty);
          mem_areas_count = of_nat (length mem_areas)
      in thenS (send [Size_msg mem_areas_count, Areas_msg (mem_areas_count * sizeof_mem_area) mem_areas])
           (leader_sync_areas pf mem_areas))"

definition send_zeroed_page :: "('h, 'r, 'x) platform \<Rightarrow> nat set \<Rightarrow> (('h, 'x) leader, unit) send" where
  "send_zeroed_page pf zero =
     (let zeroed_pages = pf_intervals pf zero; zeroed_pages_size = of_nat (length zeroed_pages)
      in send [Size_msg zeroed_pages_size, Ranges_msg (zeroed_pages_size * sizeof_pte_range) zeroed_pages])"

definition select_pages :: "('h, 'r, 'x) platform \<Rightarrow> reduce_area list \<Rightarrow> (('h, 'x) leader, scan_state) send" where
  "select_pages pf reduces st =
     Some ([], get_zero_and_dirty_pages (pf_page_size pf) (pf_lanes pf) (rs_mem (ls_rank st))
         (pf_pread pf (ls_rank st)) (pf_blocks pf (ls_rank st)) (pf_intervals pf) (ls_heaps st) reduces, st)"

definition send_heap :: "('h, 'r, 'x) platform \<Rightarrow> reduce_area list \<Rightarrow> (('h, 'x) leader, unit) send" where
  "send_heap pf reduces =
     bindS (select_pages pf reduces) (\<lambda>sel.
       thenS (send_dirty_page pf (dirty_pages sel)) (send_zeroed_page pf (zero_pages sel)))"

definition leader_clear_soft_dirty :: "('h, 'r, 'x) platform \<Rightarrow> (('h, 'x) leader, unit) send" where
  "leader_clear_soft_dirty pf st =
     (case clear_soft_dirty (pf_refs_opened pf) (pf_clear_refs pf) (ls_rank st) of
        Inl e \<Rightarrow> Some ([], Inl e, st)
      | Inr w \<Rightarrow> Some ([], Inr (), set_rank w st))"

text \<open>The first call creates the heap that serves the library's own allocations.\<close>

definition use_mpi_heap :: "('h, 'r, 'x) platform \<Rightarrow> ('h, 'x) leader \<Rightarrow> ('h, 'x) leader" where
  "use_mpi_heap pf st =
     (case ls_mpi_heap st of
        Some h \<Rightarrow> st\<lparr>ls_default_heap := h\<rparr>
      | None \<Rightarrow> (case pf_heap_new pf (ls_rank st) of (h, w) \<Rightarrow>
          (set_rank w st)\<lparr>ls_mpi_heap := Some h, ls_default_heap := h\<rparr>))"

text \<open>
  \<^verbatim>\<open>enter_parallel_impl\<close> of the leader: an exception ends up in \<^verbatim>\<open>params->exception\<close>, which is the result
  here; the default heap is restored on every path.
\<close>

definition leader_enter_parallel_impl ::
  "('h, 'r, 'x) platform \<Rightarrow> u64 \<Rightarrow> reduce_area list \<Rightarrow> (('h, 'x) leader, unit) send" where
  "leader_enter_parallel_impl pf parallel_ctx reduces st =
     map_option (\<lambda>(out, r, st'). (out, r, st'\<lparr>ls_default_heap := ls_default_heap st\<rparr>))
       (thenS (send_rpc_tag Tag_enter_parallel)
         (thenS send_mem_ops
         (thenS (send_stack pf)
         (thenS (send_heap pf reduces)
         (thenS (send [Ctx_msg parallel_ctx])
           (leader_clear_soft_dirty pf))))) (use_mpi_heap pf st))"

section \<open>A worker\<close>

text \<open>
  Worker code takes the transcript it has not received yet and its state. \<open>None\<close> is waiting for ever.
\<close>

type_synonym ('s, 'a) recv = "msg list \<Rightarrow> 's \<Rightarrow> ('a result \<times> msg list \<times> 's) option"

definition bindR :: "('s, 'a) recv \<Rightarrow> ('a \<Rightarrow> ('s, 'b) recv) \<Rightarrow> ('s, 'b) recv" where
  "bindR m f inbox s =
     (case m inbox s of
        None \<Rightarrow> None
      | Some (Inl e, inbox', s') \<Rightarrow> Some (Inl e, inbox', s')
      | Some (Inr x, inbox', s') \<Rightarrow> f x inbox' s')"

text \<open>One broadcast: \<open>view\<close> says what the next entry holds for a call of this kind.\<close>

definition receive :: "(msg \<Rightarrow> 'a option) \<Rightarrow> ('s, 'a) recv" where
  "receive view inbox s =
     (case inbox of
        [] \<Rightarrow> None
      | m # rest \<Rightarrow> (case view m of None \<Rightarrow> Some (Inl Mismatch, rest, s) | Some x \<Rightarrow> Some (Inr x, rest, s)))"

fun view_tag :: "msg \<Rightarrow> 8 word option" where
  "view_tag (Tag_msg t) = Some t"
| "view_tag m = None"

fun view_size :: "msg \<Rightarrow> u64 option" where
  "view_size (Size_msg n) = Some n"
| "view_size m = None"

fun view_ops :: "u64 \<Rightarrow> msg \<Rightarrow> mem_op list option" where
  "view_ops n (Ops_msg bytes ops) =
     (if bytes = ucast (sizeof_mem_ops_t * n) \<and> length ops = unat n then Some ops else None)"
| "view_ops n m = None"

fun view_stack :: "u64 \<Rightarrow> msg \<Rightarrow> 8 word list option" where
  "view_stack n (Stack_msg bytes bs) = (if bytes = ucast n then Some bs else None)"
| "view_stack n m = None"

fun view_areas :: "u64 \<Rightarrow> msg \<Rightarrow> mem_area list option" where
  "view_areas n (Areas_msg bytes as) =
     (if bytes = n * sizeof_mem_area \<and> length as = unat n then Some as else None)"
| "view_areas n m = None"

fun view_ranges :: "u64 \<Rightarrow> msg \<Rightarrow> pte_range list option" where
  "view_ranges n (Ranges_msg bytes rs) =
     (if bytes = n * sizeof_pte_range \<and> length rs = unat n then Some rs else None)"
| "view_ranges n m = None"

fun view_sync :: "mem_area list \<Rightarrow> msg \<Rightarrow> unit option" where
  "view_sync as (Sync_msg as') = (if as' = as then Some () else None)"
| "view_sync as m = None"

fun view_ctx :: "msg \<Rightarrow> u64 option" where
  "view_ctx (Ctx_msg c) = Some c"
| "view_ctx m = None"

definition lift_result :: "('s \<Rightarrow> 's result) \<Rightarrow> ('s, unit) recv" where
  "lift_result f inbox s = (case f s of Inl e \<Rightarrow> Some (Inl e, inbox, s) | Inr s' \<Rightarrow> Some (Inr (), inbox, s'))"

definition recv_and_perform_mem_ops :: "('h, 'r, 'x) platform \<Rightarrow> ('x rank_state, unit) recv" where
  "recv_and_perform_mem_ops pf =
     bindR (receive view_size) (\<lambda>mem_ops_size.
       if sizeof_mem_ops_t * mem_ops_size < int_max then
         bindR (receive (view_ops mem_ops_size)) (\<lambda>mem_ops.
           lift_result (perform_mem_ops (pf_ndebug pf) (pf_kernel pf) mem_ops))
       else (\<lambda>inbox s. Some (Inl AssertFailed, inbox, s)))"

definition store_bytes :: "memory \<Rightarrow> u64 \<Rightarrow> 8 word list \<Rightarrow> memory" where
  "store_bytes mem a bs = (\<lambda>x. if unat (x - a) < length bs then bs ! unat (x - a) else mem x)"

definition recv_stack :: "('h, 'r, 'x) platform \<Rightarrow> ('x rank_state, unit) recv" where
  "recv_stack pf =
     (let stack = pf_fake_stack pf
      in bindR (receive (view_stack (ma_size stack))) (\<lambda>bs inbox w.
           Some (Inr (), inbox, w\<lparr>rs_mem := store_bytes (rs_mem w) (ma_data stack) bs\<rparr>)))"

definition worker_sync_areas :: "('h, 'r, 'x) platform \<Rightarrow> mem_area list \<Rightarrow> ('x rank_state, unit) recv" where
  "worker_sync_areas pf mem_areas =
     bindR (receive (view_sync mem_areas)) (\<lambda>u inbox w.
       map_option (\<lambda>r. case r of Inl e \<Rightarrow> (Inl e, inbox, w) | Inr w' \<Rightarrow> (Inr (), inbox, w'))
         (sync_areas (pf_ibcast pf) (pf_waitany pf) (pf_waitall pf) mem_areas w))"

definition recv_dirty_page :: "('h, 'r, 'x) platform \<Rightarrow> ('x rank_state, unit) recv" where
  "recv_dirty_page pf =
     bindR (receive view_size) (\<lambda>mem_areas_count.
       bindR (receive (view_areas mem_areas_count)) (worker_sync_areas pf))"

text \<open>The body of the loop of \<^verbatim>\<open>recv_zero_page\<close>: \<^verbatim>\<open>madvise\<close>, and \<^verbatim>\<open>memset\<close> when that fails.\<close>

definition zero_range :: "('h, 'r, 'x) platform \<Rightarrow> pte_range \<Rightarrow> 'x rank_state \<Rightarrow> 'x rank_state" where
  "zero_range pf i w =
     (let mem = pgrng2memarea (pf_page_size pf) i
      in case k_madvise (pf_kernel pf) (ma_data mem) (ma_size mem) MADV_DONTNEED w of (ok, w') \<Rightarrow>
           if \<not> ok then w'\<lparr>rs_mem := memset (rs_mem w') (ma_data mem) 0 (ma_size mem)\<rparr> else w')"

definition recv_zero_page :: "('h, 'r, 'x) platform \<Rightarrow> ('x rank_state, unit) recv" where
  "recv_zero_page pf =
     bindR (receive view_size) (\<lambda>zeroed_pages_size.
       bindR (receive (view_ranges zeroed_pages_size)) (\<lambda>zeroed_pages inbox w.
         Some (Inr (), inbox, fold (zero_range pf) zeroed_pages w)))"

definition recv_heap :: "('h, 'r, 'x) platform \<Rightarrow> ('x rank_state, unit) recv" where
  "recv_heap pf = bindR (recv_dirty_page pf) (\<lambda>u. recv_zero_page pf)"

text \<open>Receiving ends with the switch to the leader's context, from which \<^verbatim>\<open>do_exit_parallel\<close> comes back.\<close>

definition worker_receive :: "('h, 'r, 'x) platform \<Rightarrow> ('x rank_state, u64) recv" where
  "worker_receive pf =
     bindR (recv_and_perform_mem_ops pf) (\<lambda>u.
       bindR (recv_stack pf) (\<lambda>u.
         bindR (recv_heap pf) (\<lambda>u. receive view_ctx)))"

definition worker_enter_parallel_impl :: "('h, 'r, 'x) platform \<Rightarrow> ('x rank_state, unit) recv" where
  "worker_enter_parallel_impl pf =
     bindR (worker_receive pf) (\<lambda>parallel_ctx inbox w. Some (Inr (), inbox, pf_region pf parallel_ctx w))"

partial_function (option) worker_loop ::
  "('h, 'r, 'x) platform \<Rightarrow> msg list \<Rightarrow> 'x rank_state \<Rightarrow> (int result \<times> msg list \<times> 'x rank_state) option" where
  "worker_loop pf inbox w =
     (case receive view_tag inbox w of
        None \<Rightarrow> None
      | Some (Inl e, inbox1, w1) \<Rightarrow> Some (Inl e, inbox1, w1)
      | Some (Inr tag, inbox1, w1) \<Rightarrow>
          if tag = tag_value Tag_exit then Some (Inr 0, inbox1, w1)
          else if tag = tag_value Tag_run_function_without_context then
            Some (Inl (Runtime ''Not implemented.''), inbox1, w1)
          else if tag = tag_value Tag_enter_parallel then
            (case worker_enter_parallel_impl pf inbox1 w1 of
               None \<Rightarrow> None
             | Some (Inl e, inbox2, w2) \<Rightarrow> Some (Inl e, inbox2, w2)
             | Some (Inr u, inbox2, w2) \<Rightarrow> worker_loop pf inbox2 w2)
          else Some (Inl (Runtime ''Unknown tag.''), inbox1, w1))"

definition worker ::
  "('h, 'r, 'x) platform \<Rightarrow> mem_area \<Rightarrow> msg list \<Rightarrow> 'x rank_state \<Rightarrow>
   (int result \<times> msg list \<times> 'x rank_state) option" where
  "worker pf heap inbox w =
     (case reserve_heap_area (pf_kernel pf) heap w of
        (Inl e, w') \<Rightarrow> Some (Inl e, inbox, w')
      | (Inr u, w') \<Rightarrow> worker_loop pf inbox w')"

end
