(* ===== verification/Page_Sync_Proofs.thy ===== *)
theory Page_Sync_Proofs
  imports Page_Sync
begin

text \<open>
  After a worker has received what the leader sent on entering a parallel context, its memory is the
  leader's on the fake stack and on every heap page outside the reduce areas.
\<close>

section \<open>The addresses of pages\<close>

definition page_addrs :: "u64 \<Rightarrow> nat set \<Rightarrow> u64 set" where
  "page_addrs ps P = (\<Union>p \<in> P. block (ps * of_nat p) (unat ps))"

lemma page_addrs_Un: "page_addrs ps (P \<union> Q) = page_addrs ps P \<union> page_addrs ps Q"
  by (auto simp: page_addrs_def)

lemma page_addrs_UN: "page_addrs ps (\<Union>i \<in> I. P i) = (\<Union>i \<in> I. page_addrs ps (P i))"
  by (auto simp: page_addrs_def)

lemma block_pages: "block (ps * of_nat b) (n * unat ps) = page_addrs ps {b ..< b + n}"
proof (induction n)
  case 0
  then show ?case by (simp add: page_addrs_def)
next
  case (Suc n)
  have "block (ps * of_nat b) (Suc n * unat ps) = block (ps * of_nat b) (n * unat ps + unat ps)"
    by (simp add: add.commute)
  also have "\<dots> = block (ps * of_nat b) (n * unat ps) \<union> block (ps * of_nat b + of_nat (n * unat ps)) (unat ps)"
    by (rule block_split)
  also have "ps * of_nat b + of_nat (n * unat ps) = ps * of_nat (b + n)"
    by (simp add: algebra_simps)
  also have "block (ps * of_nat b) (n * unat ps) = page_addrs ps {b ..< b + n}" by (rule Suc.IH)
  also have "page_addrs ps {b ..< b + n} \<union> block (ps * of_nat (b + n)) (unat ps) = page_addrs ps {b ..< b + Suc n}"
    by (auto simp: page_addrs_def atLeastLessThanSuc)
  finally show ?case .
qed

lemma range_block:
  assumes "range_ok ps r"
  shows "block (ma_data (pgrng2memarea ps r)) (unat (ma_size (pgrng2memarea ps r))) = page_addrs ps (range_pages r)"
proof -
  have "ma_data (pgrng2memarea ps r) = ps * of_nat (unat (pr_begin r))"
    by (simp add: pgrng2memarea_def mult.commute)
  then show ?thesis
    using block_pages [of ps "unat (pr_begin r)" "unat (pr_count r)"]
    by (simp add: pgrng2memarea_unat(2) [OF assms] range_pages_def)
qed

lemma block_iff:
  assumes "n \<le> 2 ^ 64"
  shows "x \<in> block a n \<longleftrightarrow> unat (x - a) < n"
proof
  assume "x \<in> block a n"
  then obtain i where "x = a + of_nat i" "i < n" by (auto simp: block_def)
  moreover have "unat (of_nat i :: u64) = i" using \<open>i < n\<close> assms by (intro unat_of_nat_64) simp
  ultimately show "unat (x - a) < n" by simp
next
  assume "unat (x - a) < n"
  then show "x \<in> block a n"
    unfolding block_def by (intro CollectI exI [of _ "unat (x - a)"]) simp
qed

lemma store_load:
  assumes "n \<le> 2 ^ 64"
  shows "store_bytes mem a (load_bytes L a n) = overwrite L (block a n) mem"
proof
  fix x
  show "store_bytes mem a (load_bytes L a n) x = overwrite L (block a n) mem x"
    by (simp add: store_bytes_def load_bytes_def overwrite_def block_iff [OF assms])
qed

section \<open>Contracts of the platform\<close>

text \<open>
  The non-blocking broadcasts of a rank, with the root's memory; between calls of \<^verbatim>\<open>sync_areas\<close> no
  request is outstanding, and then the settled memory is the memory.
\<close>

definition net_ok ::
  "('x rank_state \<Rightarrow> 'r multiset) \<Rightarrow> ('x rank_state \<Rightarrow> memory) \<Rightarrow> memory \<Rightarrow> ('h, 'r, 'x) platform \<Rightarrow> bool" where
  "net_ok outstanding settled root_mem pf \<longleftrightarrow>
     mpi_requests_ok outstanding settled root_mem (pf_ibcast pf) (pf_waitany pf) (pf_waitall pf) \<and>
     (\<forall>w. outstanding w = {#} \<longrightarrow> settled w = rs_mem w) \<and>
     (\<forall>w m. outstanding (w\<lparr>rs_mem := m\<rparr>) = outstanding w)"

text \<open>Boost's iteration over an interval set, on the sets of pages a heap has.\<close>

definition intervals_cover :: "u64 \<Rightarrow> (nat set \<Rightarrow> pte_range list) \<Rightarrow> nat set \<Rightarrow> bool" where
  "intervals_cover ps intervals P \<longleftrightarrow>
     (\<Union>r \<in> set (intervals P). range_pages r) = P \<and> length (intervals P) < 2 ^ 64 \<and>
     (\<forall>r \<in> set (intervals P). range_ok ps r \<and> unat (pr_count r) * unat ps + INT_MAX \<le> 2 ^ 64)"

text \<open>
  \<^verbatim>\<open>madvise\<close> with \<^verbatim>\<open>MADV_DONTNEED\<close> on pages of a private anonymous mapping: they read as zero afterwards;
  when the call fails nothing has changed.
\<close>

definition zero_law :: "u64 \<Rightarrow> 'x rank_state kernel \<Rightarrow> bool" where
  "zero_law ps K \<longleftrightarrow> (\<forall>r w. range_ok ps r \<longrightarrow>
     rs_mem (snd (k_madvise K (ma_data (pgrng2memarea ps r)) (ma_size (pgrng2memarea ps r)) MADV_DONTNEED w)) =
       (if fst (k_madvise K (ma_data (pgrng2memarea ps r)) (ma_size (pgrng2memarea ps r)) MADV_DONTNEED w)
        then overwrite (\<lambda>a. 0) (page_addrs ps (range_pages r)) (rs_mem w) else rs_mem w))"

section \<open>What the leader sends\<close>

definition sent_pages :: "('h, 'r, 'x) platform \<Rightarrow> scan_state \<Rightarrow> nat set" where
  "sent_pages pf sel = dirty_pages sel \<union> zero_pages sel"

definition transcript ::
  "('h, 'r, 'x) platform \<Rightarrow> u64 \<Rightarrow> mem_op list \<Rightarrow> memory \<Rightarrow> scan_state \<Rightarrow> msg list" where
  "transcript pf ctx ops mem sel =
     (let areas = map (pgrng2memarea (pf_page_size pf)) (pf_intervals pf (dirty_pages sel));
          ranges = pf_intervals pf (zero_pages sel); stack = pf_fake_stack pf
      in [Size_msg (of_nat (length ops)), Ops_msg (ucast (sizeof_mem_ops_t * of_nat (length ops))) ops,
          Stack_msg (ucast (ma_size stack)) (load_bytes mem (ma_data stack) (unat (ma_size stack))),
          Size_msg (of_nat (length areas)), Areas_msg (of_nat (length areas) * sizeof_mem_area) areas, Sync_msg areas,
          Size_msg (of_nat (length ranges)), Ranges_msg (of_nat (length ranges) * sizeof_pte_range) ranges,
          Ctx_msg ctx])"

lemma thenS_eq:
  "m s = Some (out, Inr (), s') \<Longrightarrow> thenS m k s = map_option (\<lambda>(out', r, s''). (out @ out', r, s'')) (k s')"
  by (simp add: thenS_def bindS_def)

lemma areas_of_ranges:
  assumes "\<forall>r \<in> set rs. range_ok ps r"
  shows "areas_block (map (pgrng2memarea ps) rs) = page_addrs ps (\<Union>r \<in> set rs. range_pages r)"
  using assms by (simp add: areas_block_def page_addrs_UN range_block)

text \<open>\<open>sync_areas\<close> on the ranges of a set of pages, at either end.\<close>

lemma sync_pages:
  assumes "net_ok outstanding settled root_mem pf" "intervals_cover ps intervals P" "outstanding w = {#}"
  shows "\<exists>w'. sync_areas (pf_ibcast pf) (pf_waitany pf) (pf_waitall pf) (map (pgrng2memarea ps) (intervals P)) w
      = Some (Inr w') \<and> outstanding w' = {#} \<and> rs_mem w' = overwrite root_mem (page_addrs ps P) (rs_mem w)"
proof -
  have mpi: "mpi_requests_ok outstanding settled root_mem (pf_ibcast pf) (pf_waitany pf) (pf_waitall pf)"
    and quiet: "outstanding v = {#} \<Longrightarrow> settled v = rs_mem v" for v
    using assms(1) by (simp_all add: net_ok_def)
  have iv: "(\<Union>r \<in> set (intervals P). range_pages r) = P"
    "\<forall>r \<in> set (intervals P). range_ok ps r \<and> unat (pr_count r) * unat ps + INT_MAX \<le> 2 ^ 64"
    using assms(2) by (simp_all add: intervals_cover_def)
  then have top: "\<forall>a \<in> set (map (pgrng2memarea ps) (intervals P)). unat (ma_size a) + INT_MAX \<le> 2 ^ 64"
    by (simp add: pgrng2memarea_unat(2))
  have "areas_block (map (pgrng2memarea ps) (intervals P)) = page_addrs ps P"
    using areas_of_ranges [of "intervals P" ps] iv by simp
  then show ?thesis
    using sync_areas_ok [OF mpi top assms(3)] quiet assms(3) by metis
qed

text \<open>The leader's side of the contracts; \<open>st\<close> is the state once the default heap is switched.\<close>

definition leader_ok ::
  "('x rank_state \<Rightarrow> 'r multiset) \<Rightarrow> ('x rank_state \<Rightarrow> memory) \<Rightarrow> (nat \<Rightarrow> u64) \<Rightarrow> ('h, 'r, 'x) platform \<Rightarrow>
   reduce_area list \<Rightarrow> ('h, 'x) leader \<Rightarrow> bool" where
  "leader_ok outstanding settled entry pf reduces st \<longleftrightarrow>
     net_ok outstanding settled (rs_mem (ls_rank st)) pf \<and> outstanding (ls_rank st) = {#} \<and>
     scan_ok (pf_page_size pf) (pf_lanes pf) (pf_pread pf (ls_rank st)) entry (pf_blocks pf (ls_rank st))
       (pf_intervals pf) (ls_heaps st) reduces \<and>
     (\<forall>P \<subseteq> heap_pages (pf_page_size pf) (pf_blocks pf (ls_rank st)) (ls_heaps st).
        intervals_cover (pf_page_size pf) (pf_intervals pf) P) \<and>
     pf_refs_opened pf \<and> (\<forall>w. rs_mem (pf_clear_refs pf w) = rs_mem w)"

abbreviation leader_heap_pages :: "('h, 'r, 'x) platform \<Rightarrow> ('h, 'x) leader \<Rightarrow> nat set" where
  "leader_heap_pages pf st \<equiv> heap_pages (pf_page_size pf) (pf_blocks pf (ls_rank st)) (ls_heaps st)"

abbreviation leader_selects ::
  "(nat \<Rightarrow> u64) \<Rightarrow> ('h, 'r, 'x) platform \<Rightarrow> reduce_area list \<Rightarrow> ('h, 'x) leader \<Rightarrow> scan_state \<Rightarrow> bool" where
  "leader_selects entry pf reduces st sel \<equiv>
     selects_pages (pf_page_size pf) (rs_mem (ls_rank st)) entry (reduce_pages reduces) (leader_heap_pages pf st) sel"

lemma ls_rank_set [simp]: "ls_rank (set_rank w st) = w"
  by (simp add: set_rank_def)

lemma leader_rest:
  assumes "leader_ok outstanding settled entry pf reduces st"
  shows "\<exists>sel st'. leader_selects entry pf reduces st sel \<and>
    thenS (send_heap pf reduces) (thenS (send [Ctx_msg ctx]) (leader_clear_soft_dirty pf)) st
      = Some (drop 3 (transcript pf ctx ops mem sel), Inr (), st') \<and>
    rs_mem (ls_rank st') = rs_mem (ls_rank st) \<and>
    memory_operations (ls_mem st') = memory_operations (ls_mem st)"
proof -
  let ?L = "rs_mem (ls_rank st)"
  let ?ps = "pf_page_size pf"
  have ok: "net_ok outstanding settled ?L pf" "outstanding (ls_rank st) = {#}"
    "scan_ok ?ps (pf_lanes pf) (pf_pread pf (ls_rank st)) entry (pf_blocks pf (ls_rank st)) (pf_intervals pf) (ls_heaps st) reduces"
    "\<forall>P \<subseteq> leader_heap_pages pf st. intervals_cover ?ps (pf_intervals pf) P"
    "pf_refs_opened pf" "\<forall>w. rs_mem (pf_clear_refs pf w) = rs_mem w"
    using assms by (simp_all add: leader_ok_def)
  obtain sel where sel: "select_pages pf reduces st = Some ([], Inr sel, st)" "leader_selects entry pf reduces st sel"
    using get_zero_and_dirty_pages_selects [OF ok(3), of ?L] by (auto simp: select_pages_def)
  have "dirty_pages sel \<subseteq> leader_heap_pages pf st" using sel(2) by (auto simp: selects_pages_def)
  then obtain w where w: "sync_areas (pf_ibcast pf) (pf_waitany pf) (pf_waitall pf)
      (map (pgrng2memarea ?ps) (pf_intervals pf (dirty_pages sel))) (ls_rank st) = Some (Inr w)"
    "rs_mem w = overwrite ?L (page_addrs ?ps (dirty_pages sel)) ?L"
    using sync_pages [OF ok(1) _ ok(2)] ok(4) by blast
  have same: "overwrite ?L S ?L = ?L" for S by (simp add: overwrite_def)
  have heap: "send_heap pf reduces st = Some (take 5 (drop 3 (transcript pf ctx ops mem sel)), Inr (), set_rank w st)"
    by (simp add: send_heap_def sel(1) send_dirty_page_def send_zeroed_page_def thenS_def
        bindS_def send_def leader_sync_areas_def w(1) transcript_def Let_def)
  have clear: "leader_clear_soft_dirty pf (set_rank w st) = Some ([], Inr (), set_rank (pf_clear_refs pf w) (set_rank w st))"
    using ok(5) by (simp add: leader_clear_soft_dirty_def clear_soft_dirty_def)
  have run: "thenS (send_heap pf reduces) (thenS (send [Ctx_msg ctx]) (leader_clear_soft_dirty pf)) st
      = Some (take 5 (drop 3 (transcript pf ctx ops mem sel)) @ [Ctx_msg ctx] @ [], Inr (),
          set_rank (pf_clear_refs pf w) (set_rank w st))"
    by (simp add: thenS_eq heap clear send_def)
  have "take 5 (drop 3 (transcript pf ctx ops mem sel)) @ [Ctx_msg ctx] @ [] = drop 3 (transcript pf ctx ops mem sel)"
    by (simp add: transcript_def Let_def)
  then show ?thesis
    using run sel(2) ok(6) same w(2)
    by (intro exI [of _ sel] exI [of _ "set_rank (pf_clear_refs pf w) (set_rank w st)"])
      (simp add: set_rank_def)
qed

lemma leader_sends:
  assumes "leader_ok outstanding settled entry pf reduces (use_mpi_heap pf st)"
  shows "\<exists>sel st'. leader_selects entry pf reduces (use_mpi_heap pf st) sel \<and>
    leader_enter_parallel_impl pf ctx reduces st
      = Some (Tag_msg (tag_value Tag_enter_parallel) # transcript pf ctx
            (memory_operations (ls_mem (use_mpi_heap pf st))) (rs_mem (ls_rank (use_mpi_heap pf st))) sel, Inr (), st') \<and>
    rs_mem (ls_rank st') = rs_mem (ls_rank (use_mpi_heap pf st)) \<and>
    memory_operations (ls_mem st') = [] \<and> ls_default_heap st' = ls_default_heap st"
proof -
  let ?st = "use_mpi_heap pf st"
  let ?st1 = "?st\<lparr>ls_mem := (ls_mem ?st)\<lparr>memory_operations := []\<rparr>\<rparr>"
  let ?ops = "memory_operations (ls_mem ?st)"
  let ?L = "rs_mem (ls_rank ?st)"
  have "leader_ok outstanding settled entry pf reduces ?st1" using assms by (simp add: leader_ok_def)
  then obtain sel st' where r: "leader_selects entry pf reduces ?st1 sel"
    "thenS (send_heap pf reduces) (thenS (send [Ctx_msg ctx]) (leader_clear_soft_dirty pf)) ?st1
      = Some (drop 3 (transcript pf ctx ?ops ?L sel), Inr (), st')"
    "rs_mem (ls_rank st') = rs_mem (ls_rank ?st1)" "memory_operations (ls_mem st') = memory_operations (ls_mem ?st1)"
    using leader_rest [of outstanding settled entry pf reduces ?st1 ctx ?ops ?L] by blast
  have tag: "send_rpc_tag Tag_enter_parallel ?st = Some ([Tag_msg (tag_value Tag_enter_parallel)], Inr (), ?st)"
    by (simp add: send_rpc_tag_def send_def)
  have op: "send_mem_ops ?st = Some (take 2 (transcript pf ctx ?ops ?L sel), Inr (), ?st1)"
    by (simp add: send_mem_ops_def transcript_def Let_def)
  have stk: "send_stack pf ?st1 = Some (take 1 (drop 2 (transcript pf ctx ?ops ?L sel)), Inr (), ?st1)"
    by (simp add: send_stack_def send_def transcript_def Let_def)
  have "[Tag_msg (tag_value Tag_enter_parallel)] @ take 2 (transcript pf ctx ?ops ?L sel)
      @ take 1 (drop 2 (transcript pf ctx ?ops ?L sel)) @ drop 3 (transcript pf ctx ?ops ?L sel)
    = Tag_msg (tag_value Tag_enter_parallel) # transcript pf ctx ?ops ?L sel"
    by (simp add: transcript_def Let_def)
  then have "leader_enter_parallel_impl pf ctx reduces st
      = Some (Tag_msg (tag_value Tag_enter_parallel) # transcript pf ctx ?ops ?L sel, Inr (),
          st'\<lparr>ls_default_heap := ls_default_heap st\<rparr>)"
    unfolding leader_enter_parallel_impl_def
    by (simp add: thenS_eq tag op stk r(2))
  moreover have "rs_mem (ls_rank (st'\<lparr>ls_default_heap := ls_default_heap st\<rparr>)) = ?L"
    "memory_operations (ls_mem (st'\<lparr>ls_default_heap := ls_default_heap st\<rparr>)) = []"
    using r(3,4) by simp_all
  moreover have "leader_selects entry pf reduces ?st sel" using r(1) by simp
  ultimately show ?thesis
    by (intro exI [of _ sel] exI [of _ "st'\<lparr>ls_default_heap := ls_default_heap st\<rparr>"]) simp
qed


section \<open>What a worker makes of it\<close>

lemma bindR_eq:
  "m inbox s = Some (Inr x, inbox', s') \<Longrightarrow> bindR m f inbox s = f x inbox' s'"
  by (simp add: bindR_def)

lemma receive_eq: "view m = Some x \<Longrightarrow> receive view (m # rest) s = Some (Inr x, rest, s)"
  by (simp add: receive_def)

lemma receive_blocks: "receive view [] s = None"
  by (simp add: receive_def)

lemma zero_range_mem:
  assumes "zero_law (pf_page_size pf) (pf_kernel pf)" "range_ok (pf_page_size pf) r"
  shows "rs_mem (zero_range pf r w)
    = overwrite (\<lambda>a. 0) (page_addrs (pf_page_size pf) (range_pages r)) (rs_mem w)"
proof -
  let ?a = "pgrng2memarea (pf_page_size pf) r"
  obtain ok w' where k: "k_madvise (pf_kernel pf) (ma_data ?a) (ma_size ?a) MADV_DONTNEED w = (ok, w')"
    by fastforce
  then have "rs_mem w' = (if ok then overwrite (\<lambda>a. 0) (page_addrs (pf_page_size pf) (range_pages r)) (rs_mem w)
      else rs_mem w)"
    using assms unfolding zero_law_def by (metis fst_conv snd_conv)
  then show ?thesis
    by (cases ok) (simp_all add: zero_range_def k Let_def memset_def range_block [OF assms(2)])
qed

lemma zero_ranges_mem:
  assumes "zero_law (pf_page_size pf) (pf_kernel pf)" "\<forall>r \<in> set rs. range_ok (pf_page_size pf) r"
  shows "rs_mem (fold (zero_range pf) rs w)
    = overwrite (\<lambda>a. 0) (page_addrs (pf_page_size pf) (\<Union>r \<in> set rs. range_pages r)) (rs_mem w)"
  using assms(2)
proof (induction rs arbitrary: w)
  case Nil
  then show ?case by (simp add: page_addrs_def)
next
  case (Cons r rs)
  then show ?case
    by (simp add: zero_range_mem [OF assms(1)] page_addrs_Un)
qed

text \<open>A worker whose platform has the leader's page size, stack and interval sets.\<close>

definition worker_platform_ok ::
  "('x rank_state \<Rightarrow> 'r multiset) \<Rightarrow> ('x rank_state \<Rightarrow> memory) \<Rightarrow> memory \<Rightarrow> ('h, 's, 'y) platform \<Rightarrow>
   ('h, 'r, 'x) platform \<Rightarrow> bool" where
  "worker_platform_ok outstanding settled root_mem pl pf \<longleftrightarrow>
     net_ok outstanding settled root_mem pf \<and> zero_law (pf_page_size pf) (pf_kernel pf) \<and>
     pf_page_size pf = pf_page_size pl \<and> pf_fake_stack pf = pf_fake_stack pl"

definition stack_addrs :: "('h, 'r, 'x) platform \<Rightarrow> u64 set" where
  "stack_addrs pf = block (ma_data (pf_fake_stack pf)) (unat (ma_size (pf_fake_stack pf)))"

text \<open>The transcript once the tag is gone, with anything that may follow it.\<close>

lemma worker_receives:
  assumes pf: "worker_platform_ok outstanding settled L pl pf"
    and iv: "intervals_cover (pf_page_size pl) (pf_intervals pl) (dirty_pages sel)"
      "intervals_cover (pf_page_size pl) (pf_intervals pl) (zero_pages sel)"
    and zero: "\<forall>p \<in> zero_pages sel. page_zero (pf_page_size pl) L p"
    and ops: "48 * length ops < INT_MAX" "perform_mem_ops (pf_ndebug pf) (pf_kernel pf) ops w = Inr w1"
    and quiet: "outstanding w1 = {#}"
  shows "\<exists>w'. (\<forall>rest. worker_receive pf (transcript pl ctx ops L sel @ rest) w = Some (Inr ctx, rest, w')) \<and>
    rs_mem w' = overwrite L (stack_addrs pl \<union> page_addrs (pf_page_size pl) (sent_pages pl sel)) (rs_mem w1)"
proof -
  let ?ps = "pf_page_size pl"
  let ?areas = "map (pgrng2memarea ?ps) (pf_intervals pl (dirty_pages sel))"
  let ?ranges = "pf_intervals pl (zero_pages sel)"
  let ?stack = "pf_fake_stack pl"
  let ?stk = "Stack_msg (ucast (ma_size ?stack)) (load_bytes L (ma_data ?stack) (unat (ma_size ?stack)))"
  have "net_ok outstanding settled L pf" "zero_law (pf_page_size pf) (pf_kernel pf)" "pf_page_size pf = ?ps"
    "pf_fake_stack pf = ?stack"
    using pf unfolding worker_platform_ok_def by blast+
  then have pf': "net_ok outstanding settled L pf" "zero_law ?ps (pf_kernel pf)" "pf_page_size pf = ?ps"
    "pf_fake_stack pf = ?stack"
    by metis+
  let ?t3 = "\<lambda>rest. Size_msg (of_nat (length ?ranges)) # Ranges_msg (of_nat (length ?ranges) * sizeof_pte_range) ?ranges # Ctx_msg ctx # rest"
  let ?t2 = "\<lambda>rest. Size_msg (of_nat (length ?areas)) # Areas_msg (of_nat (length ?areas) * sizeof_mem_area) ?areas # Sync_msg ?areas # ?t3 rest"
  let ?t1 = "\<lambda>rest. Size_msg (of_nat (length ops)) # Ops_msg (ucast (sizeof_mem_ops_t * of_nat (length ops))) ops # ?stk # ?t2 rest"
  have tr: "transcript pl ctx ops L sel @ rest = ?t1 rest" for rest by (simp add: transcript_def Let_def)
  have lens: "unat (of_nat (length ?areas) :: u64) = length ?areas" "unat (of_nat (length ?ranges) :: u64) = length ?ranges"
    "unat (of_nat (length ops) :: u64) = length ops"
    using iv ops(1) by (intro unat_of_nat_64; simp add: intervals_cover_def INT_MAX_def)+
  have n48: "unat (sizeof_mem_ops_t * of_nat (length ops)) = 48 * length ops"
    using ops(1) lens(3) by (subst unat_mult_nw) (simp_all add: sizeof_mem_ops_t_def INT_MAX_def)
  then have small: "sizeof_mem_ops_t * of_nat (length ops) < int_max" using ops(1) by (simp add: word_less_nat_alt)
  have r1: "recv_and_perform_mem_ops pf (?t1 rest) w = Some (Inr (), ?stk # ?t2 rest, w1)" for rest
    using small lens(3) ops(2)
    by (simp add: recv_and_perform_mem_ops_def bindR_eq receive_eq lift_result_def)
  define w2 where "w2 = w1\<lparr>rs_mem := overwrite L (stack_addrs pl) (rs_mem w1)\<rparr>"
  have r2: "recv_stack pf (?stk # ?t2 rest) w1 = Some (Inr (), ?t2 rest, w2)" for rest
    by (simp add: recv_stack_def pf' bindR_eq receive_eq Let_def w2_def stack_addrs_def store_load less_imp_le)
  have "outstanding w2 = {#}" using quiet pf'(1) by (simp add: w2_def net_ok_def)
  then obtain w3 where w3: "sync_areas (pf_ibcast pf) (pf_waitany pf) (pf_waitall pf) ?areas w2 = Some (Inr w3)"
    "rs_mem w3 = overwrite L (page_addrs ?ps (dirty_pages sel)) (rs_mem w2)"
    using sync_pages [OF pf'(1) iv(1), of w2] by blast
  have r3: "recv_dirty_page pf (?t2 rest) w2 = Some (Inr (), ?t3 rest, w3)" for rest
    using lens(1) by (simp add: recv_dirty_page_def worker_sync_areas_def bindR_eq receive_eq w3(1))
  let ?w4 = "fold (zero_range pf) ?ranges w3"
  have r4: "recv_zero_page pf (?t3 rest) w3 = Some (Inr (), Ctx_msg ctx # rest, ?w4)" for rest
    using lens(2) by (simp add: recv_zero_page_def bindR_eq receive_eq)
  have r5: "worker_receive pf (transcript pl ctx ops L sel @ rest) w = Some (Inr ctx, rest, ?w4)" for rest
    unfolding tr worker_receive_def recv_heap_def by (simp only: bindR_eq r1 r2 r3 r4 receive_eq view_ctx.simps)
  have m4: "rs_mem ?w4 = overwrite (\<lambda>a. 0) (page_addrs ?ps (zero_pages sel)) (rs_mem w3)"
    using zero_ranges_mem [of pf ?ranges w3] pf' iv(2) by (simp add: intervals_cover_def)
  have z: "L a = 0" if "a \<in> page_addrs ?ps (zero_pages sel)" for a
    using that zero by (auto simp: page_addrs_def page_zero_def block_def)
  have "rs_mem ?w4 = overwrite L (page_addrs ?ps (zero_pages sel)) (rs_mem w3)"
    unfolding m4 using z by (auto simp: overwrite_def fun_eq_iff)
  then have "rs_mem ?w4 = overwrite L (stack_addrs pl \<union> page_addrs ?ps (sent_pages pl sel)) (rs_mem w1)"
    by (simp add: w3(2) w2_def sent_pages_def page_addrs_Un Un_assoc)
  then show ?thesis using r5 by blast
qed


section \<open>Both sides together\<close>

definition same_page :: "u64 \<Rightarrow> memory \<Rightarrow> memory \<Rightarrow> nat \<Rightarrow> bool" where
  "same_page ps m m' p \<longleftrightarrow> (\<forall>x \<in> block (ps * of_nat p) (unat ps). m x = m' x)"

definition same_stack :: "('h, 'r, 'x) platform \<Rightarrow> memory \<Rightarrow> memory \<Rightarrow> bool" where
  "same_stack pf m m' \<longleftrightarrow> (\<forall>x \<in> stack_addrs pf. m x = m' x)"

lemma same_page_overwrite:
  "(p \<notin> P \<Longrightarrow> same_page ps L m p) \<Longrightarrow> same_page ps L (overwrite L (S \<union> page_addrs ps P) m) p"
  by (cases "p \<in> P") (auto simp: same_page_def overwrite_def page_addrs_def)

definition enter_ok ::
  "('x rank_state \<Rightarrow> 'r multiset) \<Rightarrow> ('x rank_state \<Rightarrow> memory) \<Rightarrow> (nat \<Rightarrow> u64) \<Rightarrow> reduce_area list \<Rightarrow>
   ('h, 's, 'y) platform \<Rightarrow> ('h, 'y) leader \<Rightarrow> ('h, 'r, 'x) platform \<Rightarrow> 'x rank_state \<Rightarrow> 'x rank_state \<Rightarrow> bool" where
  "enter_ok outstanding settled entry reduces pl st pf w w1 \<longleftrightarrow>
     worker_platform_ok outstanding settled (rs_mem (ls_rank st)) pl pf \<and>
     48 * length (memory_operations (ls_mem st)) < INT_MAX \<and>
     perform_mem_ops (pf_ndebug pf) (pf_kernel pf) (memory_operations (ls_mem st)) w = Inr w1 \<and>
     outstanding w1 = {#} \<and>
     (\<forall>p \<in> leader_heap_pages pl st. p \<notin> reduce_pages reduces \<longrightarrow> \<not> must_send entry (reduce_pages reduces) p \<longrightarrow>
        same_page (pf_page_size pl) (rs_mem (ls_rank st)) (rs_mem w1) p)"

lemma enter_syncs:
  assumes leader: "leader_ok outl setl entry pl reduces (use_mpi_heap pl st)"
    and worker: "enter_ok outw setw entry reduces pl (use_mpi_heap pl st) pf w w1"
  shows "\<exists>out st' w'.
    leader_enter_parallel_impl pl ctx reduces st = Some (Tag_msg (tag_value Tag_enter_parallel) # out, Inr (), st') \<and>
    worker_receive pf (out @ rest) w = Some (Inr ctx, rest, w') \<and>
    (\<forall>p \<in> leader_heap_pages pl (use_mpi_heap pl st). p \<notin> reduce_pages reduces \<longrightarrow>
       same_page (pf_page_size pl) (rs_mem (ls_rank st')) (rs_mem w') p) \<and>
    same_stack pl (rs_mem (ls_rank st')) (rs_mem w')"
proof -
  let ?st = "use_mpi_heap pl st"
  let ?L = "rs_mem (ls_rank ?st)"
  let ?ops = "memory_operations (ls_mem ?st)"
  let ?R = "reduce_pages reduces"
  let ?S = "leader_heap_pages pl ?st"
  have w: "worker_platform_ok outw setw ?L pl pf" "48 * length ?ops < INT_MAX"
    "perform_mem_ops (pf_ndebug pf) (pf_kernel pf) ?ops w = Inr w1" "outw w1 = {#}"
    "\<And>p. p \<in> ?S \<Longrightarrow> p \<notin> ?R \<Longrightarrow> \<not> must_send entry ?R p \<Longrightarrow> same_page (pf_page_size pl) ?L (rs_mem w1) p"
    using worker by (simp_all add: enter_ok_def)
  obtain sel st' where sel: "leader_selects entry pl reduces ?st sel"
    "leader_enter_parallel_impl pl ctx reduces st
      = Some (Tag_msg (tag_value Tag_enter_parallel) # transcript pl ctx ?ops ?L sel, Inr (), st')"
    "rs_mem (ls_rank st') = ?L"
    using leader_sends [OF leader, of ctx] by blast
  have d: "dirty_pages sel = {p \<in> ?S. must_send entry ?R p \<and> \<not> page_zero (pf_page_size pl) ?L p}"
    "zero_pages sel = {p \<in> ?S. must_send entry ?R p \<and> page_zero (pf_page_size pl) ?L p}"
    using sel(1) by (simp_all add: selects_pages_def)
  have cover: "\<forall>P \<subseteq> ?S. intervals_cover (pf_page_size pl) (pf_intervals pl) P"
    using leader by (simp add: leader_ok_def)
  have iv: "intervals_cover (pf_page_size pl) (pf_intervals pl) (dirty_pages sel)"
    "intervals_cover (pf_page_size pl) (pf_intervals pl) (zero_pages sel)"
    by (rule mp [OF spec [OF cover]]; simp add: d)+
  have z: "\<forall>p \<in> zero_pages sel. page_zero (pf_page_size pl) ?L p" using d by simp
  obtain w' where w': "worker_receive pf (transcript pl ctx ?ops ?L sel @ rest) w = Some (Inr ctx, rest, w')"
    "rs_mem w' = overwrite ?L (stack_addrs pl \<union> page_addrs (pf_page_size pl) (sent_pages pl sel)) (rs_mem w1)"
    using worker_receives [OF w(1) iv z w(2,3,4)] by blast
  have "same_page (pf_page_size pl) ?L (rs_mem w') p" if p: "p \<in> ?S" "p \<notin> ?R" for p
  proof -
    have "p \<notin> sent_pages pl sel \<Longrightarrow> \<not> must_send entry ?R p" using p(1) d by (auto simp: sent_pages_def)
    then show ?thesis unfolding w'(2) using w(5) p by (intro same_page_overwrite) blast
  qed
  moreover have "same_stack pl ?L (rs_mem w')" unfolding w'(2) by (simp add: same_stack_def overwrite_def)
  ultimately show ?thesis using sel(2,3) w'(1) by (intro exI conjI) (assumption | simp)+
qed



text \<open>
  A concrete platform: one heap with one block, requests as in the witness of \<^verbatim>\<open>sync_areas\<close>, and
  \<^verbatim>\<open>MADV_DONTNEED\<close> zeroing at once.
\<close>

type_synonym demo_state = "(nat multiset \<times> nat) rank_state"

definition demo_pf :: "memory \<Rightarrow> (unit, nat, nat multiset \<times> nat) platform" where
  "demo_pf root_mem = \<lparr>pf_page_size = 4096, pf_lanes = 8, pf_fake_stack = \<lparr>ma_data = 0x20000, ma_size = 64\<rparr>,
     pf_kernel = \<lparr>k_mmap = (\<lambda>a n prot flags fd off w. (Some a, w)), k_munmap = (\<lambda>a n w. (True, w)),
       k_madvise = (\<lambda>a n advice w. (True, if advice = MADV_DONTNEED
         then w\<lparr>rs_mem := overwrite (\<lambda>a. 0) (block a (unat n)) (rs_mem w)\<rparr> else w))\<rparr>,
     pf_ndebug = True, pf_pread = (\<lambda>w. demo_pread), pf_refs_opened = True, pf_clear_refs = (\<lambda>w. w),
     pf_blocks = (\<lambda>w. one_block), pf_heap_new = (\<lambda>w. ((), w)), pf_intervals = demo_intervals,
     pf_ibcast = (\<lambda>a n w. (snd (rs_ext w), \<lparr>rs_mem = overwrite root_mem (block a (nat n)) (rs_mem w),
       rs_ext = (add_mset (snd (rs_ext w)) (fst (rs_ext w)), Suc (snd (rs_ext w)))\<rparr>)),
     pf_waitany = (\<lambda>rs w. (Some (length rs - 1),
       w\<lparr>rs_ext := (fst (rs_ext w) - {# rs ! (length rs - 1) #}, snd (rs_ext w))\<rparr>)),
     pf_waitall = (\<lambda>rs w. w\<lparr>rs_ext := (fst (rs_ext w) - mset rs, snd (rs_ext w))\<rparr>),
     pf_region = (\<lambda>c w. w)\<rparr>"

definition demo_rank :: "memory \<Rightarrow> demo_state" where
  "demo_rank mem = \<lparr>rs_mem = mem, rs_ext = ({#}, 0)\<rparr>"

definition demo_leader :: "(unit, nat multiset \<times> nat) leader" where
  "demo_leader = \<lparr>ls_mem = \<lparr>pm_begin = 0, memory_operations = [], lm_os = demo_rank (\<lambda>a. 7)\<rparr>,
     ls_heaps = [()], ls_default_heap = (), ls_mpi_heap = Some ()\<rparr>"

abbreviation demo_outstanding :: "demo_state \<Rightarrow> nat multiset" where
  "demo_outstanding w \<equiv> fst (rs_ext w)"

lemma demo_net: "net_ok demo_outstanding rs_mem root_mem (demo_pf root_mem)"
  by (auto simp: net_ok_def mpi_requests_ok_def demo_pf_def)

lemma demo_zero_law: "zero_law 4096 (pf_kernel (demo_pf root_mem))"
  by (simp add: zero_law_def demo_pf_def range_block)

lemma demo_use_heap: "use_mpi_heap (demo_pf root_mem) demo_leader = demo_leader"
  by (simp add: use_mpi_heap_def demo_leader_def)

lemma demo_cover:
  assumes "P \<subseteq> {16}"
  shows "intervals_cover 4096 demo_intervals P"
proof -
  have "{16 ..< 17} = {16 :: nat}" by auto
  then show ?thesis
    using subset_singletonD [OF assms]
    by (elim disjE) (simp add: intervals_cover_def demo_intervals_def range_pages_def range_ok_def INT_MAX_def)+
qed

lemma demo_pf_simps [simp]:
  "pf_page_size (demo_pf m) = 4096" "pf_lanes (demo_pf m) = 8" "pf_blocks (demo_pf m) w = one_block"
  "pf_intervals (demo_pf m) = demo_intervals" "pf_pread (demo_pf m) w = demo_pread"
  "pf_refs_opened (demo_pf m)" "pf_clear_refs (demo_pf m) w = w" "pf_ndebug (demo_pf m)"
  "pf_fake_stack (demo_pf m) = \<lparr>ma_data = 0x20000, ma_size = 64\<rparr>" "pf_region (demo_pf m) c w = w"
  by (simp_all add: demo_pf_def)

lemma demo_leader_simps [simp]:
  "ls_rank demo_leader = demo_rank (\<lambda>a. 7)" "ls_heaps demo_leader = [()]" "memory_operations (ls_mem demo_leader) = []"
  "rs_mem (demo_rank m) = m" "rs_ext (demo_rank m) = ({#}, 0)"
  by (simp_all add: demo_leader_def demo_rank_def)

abbreviation demo_entry :: "nat \<Rightarrow> u64" where
  "demo_entry p \<equiv> 0x8080000000000000"

lemma demo_must_send: "must_send demo_entry (reduce_pages []) p"
  by (simp add: must_send_def reduce_pages_def is_dirty_def is_touched_def is_present_def dirty_bit_def present_bit_def)

lemma demo_leader_ok: "leader_ok demo_outstanding rs_mem demo_entry (demo_pf (\<lambda>a. 7)) [] demo_leader"
  using demo_net demo_scan_ok demo_cover by (simp add: leader_ok_def one_block_pages)

lemma demo_enter_ok:
  "enter_ok demo_outstanding rs_mem demo_entry [] (demo_pf (\<lambda>a. 7)) demo_leader (demo_pf (\<lambda>a. 7))
     (demo_rank m) (demo_rank m)"
  using demo_net demo_zero_law demo_must_send
  by (simp add: enter_ok_def worker_platform_ok_def)


section \<open>The worker's loop\<close>

text \<open>
  The parallel contexts a worker goes through: the leader's log, memory and selection of each, and the
  program's code in between.
\<close>

record round =
  rd_ctx :: u64
  rd_ops :: "mem_op list"
  rd_mem :: memory
  rd_sel :: scan_state

definition round_msgs :: "('h, 'r, 'x) platform \<Rightarrow> round \<Rightarrow> msg list" where
  "round_msgs pl r =
     Tag_msg (tag_value Tag_enter_parallel) # transcript pl (rd_ctx r) (rd_ops r) (rd_mem r) (rd_sel r)"

inductive serves :: "('h, 's, 'y) platform \<Rightarrow> ('h, 'r, 'x) platform \<Rightarrow> round list \<Rightarrow> 'x rank_state \<Rightarrow> 'x rank_state \<Rightarrow> bool"
  for pl :: "('h, 's, 'y) platform" and pf :: "('h, 'r, 'x) platform" where
  Serves_end: "serves pl pf [] w w"
| Serves_round:
    "(\<And>rest. worker_receive pf (transcript pl (rd_ctx r) (rd_ops r) (rd_mem r) (rd_sel r) @ rest) w
        = Some (Inr (rd_ctx r), rest, w1)) \<Longrightarrow>
     serves pl pf rs (pf_region pf (rd_ctx r) w1) w2 \<Longrightarrow> serves pl pf (r # rs) w w2"

lemma worker_loop_round:
  assumes "worker_receive pf (transcript pl (rd_ctx r) (rd_ops r) (rd_mem r) (rd_sel r) @ rest) w
    = Some (Inr (rd_ctx r), rest, w1)"
  shows "worker_loop pf (round_msgs pl r @ rest) w = worker_loop pf rest (pf_region pf (rd_ctx r) w1)"
  using assms
  by (subst worker_loop.simps)
    (simp add: round_msgs_def receive_def worker_enter_parallel_impl_def bindR_def)

lemma worker_loop_serves:
  assumes "serves pl pf rs w w'"
  shows "worker_loop pf (concat (map (round_msgs pl) rs) @ rest) w = worker_loop pf rest w'"
  using assms by (induction) (simp_all add: worker_loop_round)

lemma worker_loop_tag:
  "worker_loop pf (Tag_msg t # rest) w =
     (if t = 0 then Some (Inr 0, rest, w)
      else if t = 1 then Some (Inl (Runtime ''Not implemented.''), rest, w)
      else if t = 2 then
        (case worker_enter_parallel_impl pf rest w of
           None \<Rightarrow> None
         | Some (Inl e, inbox2, w2) \<Rightarrow> Some (Inl e, inbox2, w2)
         | Some (Inr u, inbox2, w2) \<Rightarrow> worker_loop pf inbox2 w2)
      else Some (Inl (Runtime ''Unknown tag.''), rest, w))"
  by (subst worker_loop.simps) (simp add: receive_def)

lemma worker_loop_blocks: "worker_loop pf [] w = None"
  by (subst worker_loop.simps) (simp add: receive_def)


lemma worker_reserved:
  "reserve_heap_area (pf_kernel pf) heap w = (Inr (), w0) \<Longrightarrow> worker pf heap inbox w = worker_loop pf inbox w0"
  by (simp add: worker_def)

text \<open>
  C4. A worker that has reserved the heap serves any number of parallel contexts, one after the other,
  and then: the exit tag ends it with 0, an unknown tag with an exception, and without a further
  message it waits for ever.
\<close>

theorem worker_session:
  assumes "reserve_heap_area (pf_kernel pf) heap w = (Inr (), w0)" "serves pl pf rounds w0 w'"
  shows "worker pf heap (concat (map (round_msgs pl) rounds) @ inbox) w =
    (case inbox of
       [] \<Rightarrow> None
     | Tag_msg t # rest \<Rightarrow>
         if t = tag_value Tag_exit then Some (Inr 0, rest, w')
         else if t = tag_value Tag_run_function_without_context then
           Some (Inl (Runtime ''Not implemented.''), rest, w')
         else if t \<noteq> tag_value Tag_enter_parallel then Some (Inl (Runtime ''Unknown tag.''), rest, w')
         else worker_loop pf inbox w'
     | m # rest \<Rightarrow> Some (Inl Mismatch, rest, w'))"
proof -
  have "worker_loop pf (m # rest) w' = Some (Inl Mismatch, rest, w')" if "view_tag m = None" for m rest
    using that by (subst worker_loop.simps) (simp add: receive_def)
  then show ?thesis
    unfolding worker_reserved [OF assms(1)] worker_loop_serves [OF assms(2)]
    by (simp add: worker_loop_blocks worker_loop_tag split: list.splits msg.splits)
qed

definition demo_sel :: scan_state where
  "demo_sel = \<lparr>dirty_pages = {16}, zero_pages = {}, skiped_reduce_size = 0\<rparr>"

definition demo_round :: round where
  "demo_round = \<lparr>rd_ctx = 9, rd_ops = [], rd_mem = (\<lambda>a. 7), rd_sel = demo_sel\<rparr>"

lemma demo_receive:
  "\<exists>w1. \<forall>rest. worker_receive (demo_pf (\<lambda>a. 7)) (transcript (demo_pf (\<lambda>a. 7)) 9 [] (\<lambda>a. 7) demo_sel @ rest)
      (demo_rank (\<lambda>a. 0)) = Some (Inr 9, rest, w1)"
proof -
  have "worker_platform_ok demo_outstanding rs_mem (\<lambda>a. 7) (demo_pf (\<lambda>a. 7)) (demo_pf (\<lambda>a. 7))"
    using demo_net demo_zero_law by (simp add: worker_platform_ok_def)
  then show ?thesis
    using worker_receives [of demo_outstanding rs_mem "\<lambda>a. 7" "demo_pf (\<lambda>a. 7)" "demo_pf (\<lambda>a. 7)" demo_sel
        "[]" "demo_rank (\<lambda>a. 0)" "demo_rank (\<lambda>a. 0)" 9] demo_cover [of "{16}"] demo_cover [of "{}"]
    by (auto simp: demo_sel_def)
qed

lemma demo_serves: "\<exists>w1. serves (demo_pf (\<lambda>a. 7)) (demo_pf (\<lambda>a. 7)) [demo_round] (demo_rank (\<lambda>a. 0)) w1"
proof -
  obtain w1 where "\<And>rest. worker_receive (demo_pf (\<lambda>a. 7))
      (transcript (demo_pf (\<lambda>a. 7)) 9 [] (\<lambda>a. 7) demo_sel @ rest) (demo_rank (\<lambda>a. 0)) = Some (Inr 9, rest, w1)"
    using demo_receive by blast
  then have "serves (demo_pf (\<lambda>a. 7)) (demo_pf (\<lambda>a. 7)) [demo_round] (demo_rank (\<lambda>a. 0)) w1"
    by (intro Serves_round [where ?w1.0 = w1]) (simp_all add: demo_round_def Serves_end)
  then show ?thesis ..
qed

lemma demo_reserved:
  "reserve_heap_area (pf_kernel (demo_pf (\<lambda>a. 7))) demo_heap (demo_rank (\<lambda>a. 0)) = (Inr (), demo_rank (\<lambda>a. 0))"
  unfolding reserve_heap_area_def by (rule reserve_loop_hit) (simp_all add: demo_heap_def demo_pf_def)

theorem worker_session_witness:
  "\<exists>w'. worker (demo_pf (\<lambda>a. 7)) demo_heap (round_msgs (demo_pf (\<lambda>a. 7)) demo_round @ [Tag_msg 0]) (demo_rank (\<lambda>a. 0))
    = Some (Inr 0, [], w')"
  using demo_reserved demo_serves worker_session [of "demo_pf (\<lambda>a. 7)" demo_heap "demo_rank (\<lambda>a. 0)"
      "demo_rank (\<lambda>a. 0)" "demo_pf (\<lambda>a. 7)" "[demo_round]" _ "[Tag_msg 0]"] by force

end
