(* ===== verification/Elf_Symbols.thy ===== *)
theory Elf_Symbols
  imports Page_Scan
begin

text \<open>
  The dynamic symbol tables of the running program (\<^verbatim>\<open>sync_fortran_global_vars.cc\<close>): the number of
  symbols from the \<^verbatim>\<open>DT_HASH\<close> or \<^verbatim>\<open>DT_GNU_HASH\<close> section, the symbols themselves and their names, read
  from memory as the code reads them.
\<close>

section \<open>Reading memory\<close>

definition load32 :: "memory \<Rightarrow> u64 \<Rightarrow> u32" where
  "load32 mem a = ucast (load_le mem a 4)"

text \<open>A C string; \<open>None\<close> when there is no terminator.\<close>

partial_function (option) c_string :: "memory \<Rightarrow> u64 \<Rightarrow> string option" where
  "c_string mem a =
     (if mem a = 0 then Some []
      else Option.bind (c_string mem (a + 1)) (\<lambda>s. Some (char_of (unat (mem a)) # s)))"

section \<open>Counting the symbols of a GNU hash section\<close>

record gnu_hash_header =
  nbuckets :: u32
  symoffset :: u32
  bloom_size :: u32
  bloom_shift :: u32

definition read_gnu_hash_header :: "memory \<Rightarrow> u64 \<Rightarrow> gnu_hash_header" where
  "read_gnu_hash_header mem a =
     \<lparr>nbuckets = load32 mem a, symoffset = load32 mem (a + 4), bloom_size = load32 mem (a + 8),
      bloom_shift = load32 mem (a + 12)\<rparr>"

definition buckets_address :: "u64 \<Rightarrow> gnu_hash_header \<Rightarrow> u64" where
  "buckets_address a header = a + 16 + 8 * ucast (bloom_size header)"

text \<open>The loop over the buckets; the last argument is \<^verbatim>\<open>lastSymbol\<close>.\<close>

fun largest_bucket :: "memory \<Rightarrow> u64 \<Rightarrow> nat \<Rightarrow> u32 \<Rightarrow> u32" where
  "largest_bucket mem bucket_address 0 last_symbol = last_symbol"
| "largest_bucket mem bucket_address (Suc i) last_symbol =
     (let bucket = load32 mem bucket_address
      in largest_bucket mem (bucket_address + 4) i (if last_symbol < bucket then bucket else last_symbol))"

text \<open>The walk along the chain, which has no bound of its own.\<close>

partial_function (option) walk_chain :: "memory \<Rightarrow> u64 \<Rightarrow> u32 \<Rightarrow> u32 \<Rightarrow> u32 option" where
  "walk_chain mem chain_base sym_offset last_symbol =
     (let chain_entry = chain_base + ucast (last_symbol - sym_offset) * 4; last_symbol' = last_symbol + 1
      in if load32 mem chain_entry AND 1 \<noteq> 0 then Some last_symbol'
         else walk_chain mem chain_base sym_offset last_symbol')"

definition get_sym_num_from_gnu_hash :: "memory \<Rightarrow> u64 \<Rightarrow> u32 option" where
  "get_sym_num_from_gnu_hash mem gnu_hash_address =
     (let header = read_gnu_hash_header mem gnu_hash_address;
          buckets = buckets_address gnu_hash_address header;
          last_symbol = largest_bucket mem buckets (unat (nbuckets header)) 0
      in if last_symbol < symoffset header then Some (symoffset header)
         else walk_chain mem (buckets + 4 * ucast (nbuckets header)) (symoffset header) last_symbol)"

section \<open>Dynamic tags\<close>

record dyn =
  d_tag :: int
  d_ptr :: u64

definition DT_NULL :: int where "DT_NULL = 0"
definition DT_HASH :: int where "DT_HASH = 4"
definition DT_STRTAB :: int where "DT_STRTAB = 5"
definition DT_SYMTAB :: int where "DT_SYMTAB = 6"
definition DT_GNU_HASH :: int where "DT_GNU_HASH = 0x6ffffef5"

definition find_tag :: "int \<Rightarrow> dyn list \<Rightarrow> dyn option" where
  "find_tag t tags = List.find (\<lambda>e. d_tag e = t) tags"

definition get_sym_cnt :: "memory \<Rightarrow> dyn list \<Rightarrow> u32 result option" where
  "get_sym_cnt mem dynamic_tags =
     (case find_tag DT_HASH dynamic_tags of
        Some hash_tag \<Rightarrow>
          let sym_cnt = load32 mem (d_ptr hash_tag + 4) in Some (assertE (sym_cnt > 0) (Inr sym_cnt))
      | None \<Rightarrow>
          (case find_tag DT_GNU_HASH dynamic_tags of
             Some gnu_hash_tag \<Rightarrow>
               map_option (\<lambda>sym_cnt. assertE (sym_cnt > 0) (Inr sym_cnt))
                 (get_sym_num_from_gnu_hash mem (d_ptr gnu_hash_tag))
           | None \<Rightarrow> Some (Inl (Runtime ''DT_HASH and DT_GNU_HASH does not present in dynamic_tags''))))"

definition get_strtab :: "dyn list \<Rightarrow> u64 result" where
  "get_strtab dynamic_tags =
     (case find_tag DT_STRTAB dynamic_tags of
        Some strtab \<Rightarrow> Inr (d_ptr strtab)
      | None \<Rightarrow> Inl (Runtime ''DT_STRTAB does not present in dynamic_tags''))"

text \<open>The scan for the end of a dynamic segment: 16-byte entries up to \<^verbatim>\<open>DT_NULL\<close>.\<close>

definition read_dyn :: "memory \<Rightarrow> u64 \<Rightarrow> dyn" where
  "read_dyn mem a = \<lparr>d_tag = sint (load64 mem a), d_ptr = load64 mem (a + 8)\<rparr>"

partial_function (option) read_dyns :: "memory \<Rightarrow> u64 \<Rightarrow> dyn list option" where
  "read_dyns mem a =
     (if d_tag (read_dyn mem a) = DT_NULL then Some []
      else Option.bind (read_dyns mem (a + 16)) (\<lambda>ds. Some (read_dyn mem a # ds)))"

section \<open>Symbols\<close>

text \<open>\<^verbatim>\<open>Elf64_Sym\<close>, 24 bytes each.\<close>

record elf_sym =
  st_name :: u32
  st_info :: "8 word"
  st_shndx :: "16 word"
  st_size :: u64

definition read_sym :: "memory \<Rightarrow> u64 \<Rightarrow> elf_sym" where
  "read_sym mem a =
     \<lparr>st_name = load32 mem a, st_info = mem (a + 4), st_shndx = ucast (load_le mem (a + 6) 2),
      st_size = load64 mem (a + 16)\<rparr>"

definition read_symtab :: "memory \<Rightarrow> u64 \<Rightarrow> u32 \<Rightarrow> elf_sym list" where
  "read_symtab mem symtab_ptr sym_cnt =
     map (\<lambda>i. read_sym mem (symtab_ptr + of_nat (24 * i))) [0 ..< unat sym_cnt]"

definition is_global_variable :: "elf_sym \<Rightarrow> bool" where
  "is_global_variable s \<longleftrightarrow> (st_info s AND 0xf) = 1"

section \<open>The count is right for every table of the format\<close>

text \<open>
  A GNU hash section in memory, by the format: one chain per bucket, \<open>ls ! i\<close> long; the symbols of the
  chains follow each other from \<open>off\<close> on (symbol 0 is never hashed), a bucket holds the index of its first symbol or 0, and in a
  chain only the last hash value has its low bit set.
\<close>

definition bucket_value :: "nat \<Rightarrow> nat list \<Rightarrow> nat \<Rightarrow> nat" where
  "bucket_value off ls i = (if ls ! i = 0 then 0 else off + sum_list (take i ls))"

definition chain_ends :: "nat list \<Rightarrow> nat \<Rightarrow> bool" where
  "chain_ends ls j \<longleftrightarrow> (\<exists>i < length ls. 0 < ls ! i \<and> Suc j = sum_list (take (Suc i) ls))"

definition gnu_hash_table :: "memory \<Rightarrow> u64 \<Rightarrow> nat \<Rightarrow> nat list \<Rightarrow> bool" where
  "gnu_hash_table mem a off ls \<longleftrightarrow>
     0 < off \<and> off + sum_list ls < 2 ^ 32 \<and> length ls < 2 ^ 32 \<and>
     (let header = read_gnu_hash_header mem a; buckets = buckets_address a header
      in unat (nbuckets header) = length ls \<and> unat (symoffset header) = off \<and>
         (\<forall>i < length ls. unat (load32 mem (buckets + of_nat (4 * i))) = bucket_value off ls i) \<and>
         (\<forall>j < sum_list ls. (load32 mem (buckets + 4 * of_nat (length ls) + of_nat (4 * j)) AND 1 \<noteq> 0)
            \<longleftrightarrow> chain_ends ls j))"

lemma largest_bucket_Max:
  "unat (largest_bucket mem a n m) = Max (insert (unat m) ((\<lambda>i. unat (load32 mem (a + of_nat (4 * i)))) ` {0 ..< n}))"
proof (induction n arbitrary: a m)
  case 0
  then show ?case by simp
next
  case (Suc n)
  let ?b = "load32 mem a"
  let ?f = "\<lambda>i. unat (load32 mem (a + of_nat (4 * i)))"
  have sh: "(\<lambda>i. unat (load32 mem (a + 4 + of_nat (4 * i)))) ` {0 ..< n} = ?f ` {Suc 0 ..< Suc n}"
    unfolding image_Suc_atLeastLessThan [symmetric] image_image by (simp add: algebra_simps)
  have img: "?f ` {0 ..< Suc n} = insert (unat ?b) (?f ` {Suc 0 ..< Suc n})"
    by (subst atLeast0_lessThan_Suc_eq_insert_0) (simp add: image_Suc_lessThan lessThan_atLeast0 image_image)
  have mx: "unat (if m < ?b then ?b else m) = max (unat m) (unat ?b)"
    by (simp add: word_less_nat_alt max_def)
  have Mx: "Max (insert (max x y) A) = Max (insert x (insert y A))" if "finite A" for x y :: nat and A
    using that by (cases "A = {}") (simp_all add: max.assoc)
  have "unat (largest_bucket mem a (Suc n) m) = unat (largest_bucket mem (a + 4) n (if m < ?b then ?b else m))"
    by (simp add: Let_def)
  also have "\<dots> = Max (insert (unat (if m < ?b then ?b else m)) (?f ` {Suc 0 ..< Suc n}))"
    unfolding Suc.IH sh ..
  also have "\<dots> = Max (insert (unat m) (insert (unat ?b) (?f ` {Suc 0 ..< Suc n})))"
    unfolding mx by (rule Mx) simp
  also have "\<dots> = Max (insert (unat m) (?f ` {0 ..< Suc n}))" unfolding img ..
  finally show ?case .
qed

lemma u32_of_unat: "unat (w :: u32) = n \<Longrightarrow> w = of_nat n"
  by auto

lemma chain_offset:
  assumes "j < 2 ^ 32"
  shows "ucast (of_nat (off + j) - of_nat off :: u32) * 4 = (of_nat (4 * j) :: u64)"
proof -
  have "(of_nat (off + j) - of_nat off :: u32) = of_nat j" by simp
  then have "ucast (of_nat (off + j) - of_nat off :: u32) = (of_nat j :: u64)"
    using assms by (simp add: unsigned_of_nat take_bit_nat_eq_self)
  then show ?thesis by simp
qed


lemma walk_chain_to_end:
  assumes "\<forall>j. k \<le> j \<and> j < e \<longrightarrow> load32 mem (base + of_nat (4 * j)) AND 1 = 0"
    and "load32 mem (base + of_nat (4 * e)) AND 1 \<noteq> 0" "k \<le> e" "off + e < 2 ^ 32"
  shows "walk_chain mem base (of_nat off) (of_nat (off + k)) = Some (of_nat (Suc (off + e)))"
  using assms
proof (induction "e - k" arbitrary: k)
  case 0
  then have "k = e" by simp
  moreover have "ucast (of_nat (off + e) - of_nat off :: u32) * 4 = (of_nat (4 * e) :: u64)"
    using "0.prems"(4) by (intro chain_offset) simp
  ultimately show ?case
    using "0.prems"(2) by (subst walk_chain.simps) (simp add: Let_def)
next
  case (Suc d)
  have k: "k < e" using Suc.hyps(2) by simp
  have "ucast (of_nat (off + k) - of_nat off :: u32) * 4 = (of_nat (4 * k) :: u64)"
    using k Suc.prems(4) by (intro chain_offset) simp
  moreover have "load32 mem (base + of_nat (4 * k)) AND 1 = 0" using Suc.prems(1) k by blast
  ultimately have "walk_chain mem base (of_nat off) (of_nat (off + k))
      = walk_chain mem base (of_nat off) (of_nat (off + Suc k))"
    by (subst walk_chain.simps) (simp add: Let_def add.commute)
  also have "\<dots> = Some (of_nat (Suc (off + e)))"
    by (rule Suc.hyps(1)) (use Suc.hyps(2) Suc.prems in auto)
  finally show ?case .
qed

lemma Max_buckets:
  assumes "ls = xs @ l # zs" "0 < l" "\<forall>z \<in> set zs. z = 0"
  shows "Max (insert 0 (bucket_value off ls ` {0 ..< length ls})) = off + sum_list xs"
proof (rule Max_eqI)
  show "off + sum_list xs \<in> insert 0 (bucket_value off ls ` {0 ..< length ls})"
    using assms(1,2) by (intro insertI2 image_eqI [of _ _ "length xs"]) (simp_all add: bucket_value_def)
  fix y assume "y \<in> insert 0 (bucket_value off ls ` {0 ..< length ls})"
  then consider "y = 0" | i where "i < length ls" "y = bucket_value off ls i" by auto
  then show "y \<le> off + sum_list xs"
  proof cases
    case (2 i)
    show ?thesis
    proof (cases "i \<le> length xs")
      case True
      then have "take i ls = take i xs" using assms(1) by simp
      moreover have "sum_list (take i xs) \<le> sum_list xs"
        by (metis append_take_drop_id le_add1 sum_list_append)
      ultimately show ?thesis using 2 by (simp add: bucket_value_def)
    next
      case False
      then have "ls ! i = zs ! (i - Suc (length xs))" "i - Suc (length xs) < length zs"
        using assms(1) 2 by (auto simp: nth_append nth_Cons')
      then have "ls ! i = 0" using assms(3) by simp
      then show ?thesis using 2 by (simp add: bucket_value_def)
    qed
  qed simp
qed simp

lemma chain_ends_last:
  assumes "ls = xs @ l # zs" "0 < l" "\<forall>z \<in> set zs. z = 0"
  shows "chain_ends ls (sum_list ls - 1)"
    and "sum_list xs \<le> j \<Longrightarrow> j < sum_list ls - 1 \<Longrightarrow> \<not> chain_ends ls j"
proof -
  have zs: "sum_list (take n zs) = 0" for n
    using assms(3) by (auto simp: sum_list_eq_0_iff dest: in_set_takeD)
  have total: "sum_list ls = sum_list xs + l" using zs [of "length zs"] assms(1) by simp
  then show "chain_ends ls (sum_list ls - 1)"
    unfolding chain_ends_def using assms(1,2) by (intro exI [of _ "length xs"]) simp
  assume j: "sum_list xs \<le> j" "j < sum_list ls - 1"
  show "\<not> chain_ends ls j"
  proof
    assume "chain_ends ls j"
    then obtain i where i: "i < length ls" "Suc j = sum_list (take (Suc i) ls)" by (auto simp: chain_ends_def)
    show False
    proof (cases "i < length xs")
      case True
      then have "take (Suc i) ls = take (Suc i) xs" using assms(1) by simp
      moreover have "sum_list (take (Suc i) xs) \<le> sum_list xs"
        by (metis append_take_drop_id le_add1 sum_list_append)
      ultimately show False using i(2) j(1) by simp
    next
      case False
      then have "take (Suc i) ls = xs @ l # take (i - length xs) zs"
        using assms(1) by (simp add: Suc_diff_le)
      then show False using i(2) j(2) total zs by simp
    qed
  qed
qed

lemma gnu_hash_sym_num:
  assumes "gnu_hash_table mem a off ls"
  shows "get_sym_num_from_gnu_hash mem a = Some (of_nat (off + sum_list ls))"
proof -
  let ?h = "read_gnu_hash_header mem a"
  let ?b = "buckets_address a ?h"
  have h: "0 < off" "off + sum_list ls < 2 ^ 32" "length ls < 2 ^ 32" "unat (nbuckets ?h) = length ls"
    "unat (symoffset ?h) = off"
    and bk: "\<And>i. i < length ls \<Longrightarrow> unat (load32 mem (?b + of_nat (4 * i))) = bucket_value off ls i"
    and ch: "\<And>j. j < sum_list ls \<Longrightarrow>
      (load32 mem (?b + 4 * of_nat (length ls) + of_nat (4 * j)) AND 1 \<noteq> 0) \<longleftrightarrow> chain_ends ls j"
    using assms by (simp_all add: gnu_hash_table_def Let_def)
  let ?last = "largest_bucket mem ?b (length ls) 0"
  have off: "symoffset ?h = of_nat off" using h(5) by (rule u32_of_unat)
  have nb: "ucast (nbuckets ?h) = (of_nat (length ls) :: u64)" using h(4) by (simp flip: h(4))
  have last: "unat ?last = Max (insert 0 (bucket_value off ls ` {0 ..< length ls}))"
    using bk by (simp add: largest_bucket_Max cong: image_cong_simp)
  show ?thesis
  proof (cases "\<exists>l \<in> set ls. 0 < l")
    case False
    then have z: "\<forall>l \<in> set ls. l = 0" by simp
    then have "bucket_value off ls ` {0 ..< length ls} \<subseteq> {0}" by (auto simp: bucket_value_def)
    then have "Max (insert 0 (bucket_value off ls ` {0 ..< length ls})) = 0"
      by (metis Max_singleton insert_absorb2 subset_singletonD)
    then have lt: "?last < symoffset ?h" using last h(1,5) by (simp add: word_less_nat_alt)
    have s0: "sum_list ls = 0" using z by (simp add: sum_list_eq_0_iff)
    show ?thesis using lt unfolding get_sym_num_from_gnu_hash_def Let_def h(4) s0 by (simp add: off)
  next
    case True
    then obtain xs l zs where ls: "ls = xs @ l # zs" "0 < l" "\<forall>z \<in> set zs. \<not> 0 < z"
      by (metis split_list_last_prop)
    then have zs: "\<forall>z \<in> set zs. z = 0" by simp
    have l: "unat ?last = off + sum_list xs" unfolding last by (rule Max_buckets [OF ls(1,2) zs])
    have tot: "sum_list xs < sum_list ls" using ls(1,2) by simp
    have lw: "?last = of_nat (off + sum_list xs)" using l by (rule u32_of_unat)
    have nlt: "\<not> ?last < symoffset ?h" using l h(5) by (simp add: word_less_nat_alt)
    have "walk_chain mem (?b + 4 * of_nat (length ls)) (of_nat off) (of_nat (off + sum_list xs))
        = Some (of_nat (Suc (off + (sum_list ls - 1))))"
    proof (rule walk_chain_to_end)
      show "\<forall>j. sum_list xs \<le> j \<and> j < sum_list ls - 1 \<longrightarrow>
          load32 mem (?b + 4 * of_nat (length ls) + of_nat (4 * j)) AND 1 = 0"
        using ch chain_ends_last(2) [OF ls(1,2) zs] by (meson less_imp_diff_less less_or_eq_imp_le not_less order_less_le_trans)
      show "load32 mem (?b + 4 * of_nat (length ls) + of_nat (4 * (sum_list ls - 1))) AND 1 \<noteq> 0"
        using ch [of "sum_list ls - 1"] chain_ends_last(1) [OF ls(1,2) zs] tot by linarith
      show "sum_list xs \<le> sum_list ls - 1" "off + (sum_list ls - 1) < 2 ^ 32" using tot h(2) by linarith+
    qed
    moreover have "Suc (off + (sum_list ls - 1)) = off + sum_list ls" using tot by linarith
    ultimately show ?thesis
      using nlt unfolding get_sym_num_from_gnu_hash_def Let_def h(4) nb off lw by simp
  qed
qed


text \<open>
  C7. \<^verbatim>\<open>get_sym_num_from_gnu_hash\<close> ends and returns the number of symbols of the table, for every GNU
  hash section of the format, whatever the lengths of its chains.
\<close>

theorem gnu_hash_count:
  assumes "gnu_hash_table mem a off ls"
  shows "get_sym_num_from_gnu_hash mem a = Some (of_nat (off + sum_list ls))"
  using assms by (rule gnu_hash_sym_num)

text \<open>One bucket at \<open>0x1010\<close>, and a chain of two symbols at \<open>0x1014\<close>.\<close>

definition demo_hash :: memory where
  "demo_hash = (\<lambda>x. if x = 0x1000 \<or> x = 0x1004 \<or> x = 0x1010 \<or> x = 0x1018 then 1 else 0)"

lemma load32_bytes:
  "load32 mem a = ucast (ucast (mem a) OR push_bit 8 (ucast (mem (a + 1))) OR push_bit 16 (ucast (mem (a + 2)))
     OR push_bit 24 (ucast (mem (a + 3))) :: u64)"
  by (simp add: load32_def numeral_eq_Suc add.assoc or.assoc)

lemma demo_hash_table: "gnu_hash_table demo_hash 0x1000 1 [2]"
proof -
  have ends: "chain_ends [2] j \<longleftrightarrow> j = 1" for j by (auto simp: chain_ends_def)
  have js: "(\<forall>j < (2 :: nat). P j) \<longleftrightarrow> P 0 \<and> P 1" for P by (auto simp: less_2_cases_iff)
  have l: "load32 demo_hash 0x1000 = 1" "load32 demo_hash 0x1004 = 1" "load32 demo_hash 0x1008 = 0"
    "load32 demo_hash 0x1010 = 1" "load32 demo_hash 0x1014 = 0" "load32 demo_hash 0x1018 = 1"
    by (simp_all add: load32_bytes demo_hash_def)
  show ?thesis
    by (simp add: gnu_hash_table_def Let_def read_gnu_hash_header_def buckets_address_def l bucket_value_def js ends)
qed

theorem gnu_hash_count_witness: "get_sym_num_from_gnu_hash demo_hash 0x1000 = Some 3"
  using gnu_hash_count [OF demo_hash_table] by simp

end
