(* ===== verification/Fortran_Globals.thy ===== *)
theory Fortran_Globals
  imports Elf_Symbols
begin

text \<open>
  Fortran module variables (\<^verbatim>\<open>sync_fortran_global_vars.cc\<close>): which symbols of the loaded objects are
  module variables, and the broadcast of all of them. The dynamic linker, libelf and RE2 are
  arguments.
\<close>

section \<open>Names\<close>

text \<open>The regular expressions of the code: a literal, one character outside a class, or any number of them.\<close>

datatype re_item = Lit char | Not_in string | Star_not_in string

definition upper :: string where
  "upper = ''ABCDEFGHIJKLMNOPQRSTUVWXYZ''"

definition gfort_global_var_sym_reg :: "re_item list" where
  "gfort_global_var_sym_reg = map Lit ''__'' @ [Not_in (CHR ''_'' # upper), Star_not_in upper] @ map Lit ''_MOD_'' @
     [Not_in (CHR ''_'' # upper), Star_not_in upper]"

definition ifx_global_var_sym_reg :: "re_item list" where
  "ifx_global_var_sym_reg = [Not_in (CHR ''_'' # upper), Star_not_in upper] @ map Lit ''_mp_'' @
     [Not_in (CHR ''_'' # upper), Star_not_in upper, Lit CHR ''_'']"

definition flang_global_var_sym_reg :: "re_item list" where
  "flang_global_var_sym_reg = map Lit ''_QM'' @ [Not_in (CHR ''_'' # upper), Star_not_in upper, Lit CHR ''E'',
     Not_in (CHR ''_'' # upper), Star_not_in upper]"

text \<open>What \<^verbatim>\<open>RE2::FullMatch\<close> documents for such expressions, on ASCII text.\<close>

fun matches :: "re_item list \<Rightarrow> string \<Rightarrow> bool" where
  "matches [] s \<longleftrightarrow> s = []"
| "matches (Lit c # p) s \<longleftrightarrow> (case s of [] \<Rightarrow> False | x # s' \<Rightarrow> x = c \<and> matches p s')"
| "matches (Not_in cs # p) s \<longleftrightarrow> (case s of [] \<Rightarrow> False | x # s' \<Rightarrow> x \<notin> set cs \<and> matches p s')"
| "matches (Star_not_in cs # p) [] \<longleftrightarrow> matches p []"
| "matches (Star_not_in cs # p) (x # s) \<longleftrightarrow>
     matches p (x # s) \<or> x \<notin> set cs \<and> matches (Star_not_in cs # p) s"

definition ascii :: "string \<Rightarrow> bool" where
  "ascii s \<longleftrightarrow> list_all (\<lambda>c. (of_char c :: nat) < 128) s"

definition re2_ok :: "(re_item list \<Rightarrow> string \<Rightarrow> bool) \<Rightarrow> bool" where
  "re2_ok full_match \<longleftrightarrow> (\<forall>p s. ascii s \<longrightarrow> full_match p s = matches p s)"

definition is_fortran_global_variable :: "(re_item list \<Rightarrow> string \<Rightarrow> bool) \<Rightarrow> string \<Rightarrow> bool" where
  "is_fortran_global_variable full_match symbol_name =
     (if symbol_name = ''__ieee_exceptions_MOD_ieee_usual'' \<or> symbol_name = ''__ieee_exceptions_MOD_ieee_all''
      then False
      else if full_match gfort_global_var_sym_reg symbol_name then True
      else if full_match ifx_global_var_sym_reg symbol_name then True
      else if full_match flang_global_var_sym_reg symbol_name then True
      else False)"

section \<open>The linker and libelf\<close>

text \<open>
  \<open>le_dlsym\<close> returns 0 for \<^verbatim>\<open>nullptr\<close>; \<open>le_dlerror\<close> says whether the lookup left an error. The other
  fields are the results of the libelf calls on the program's file: \<open>le_sections\<close> lists index,
  success of \<^verbatim>\<open>gelf_getshdr\<close> and name of each section.
\<close>

record linker =
  le_full_match :: "re_item list \<Rightarrow> string \<Rightarrow> bool"
  le_dlsym :: "string \<Rightarrow> u64"
  le_dlerror :: "string \<Rightarrow> bool"
  le_version_ok :: bool
  le_open_ok :: bool
  le_begin_ok :: bool
  le_kind_elf :: bool
  le_shstrndx_ok :: bool
  le_sections :: "(nat \<times> bool \<times> string option) list"

definition symbol_name_2_addr :: "linker \<Rightarrow> string \<Rightarrow> u64 option" where
  "symbol_name_2_addr le name =
     (let addr = le_dlsym le name
      in if addr = 0 then if le_dlerror le name then None else Some addr else Some addr)"

fun desired_sections :: "(nat \<times> bool \<times> string option) list \<Rightarrow> 16 word list \<Rightarrow> 16 word list result" where
  "desired_sections [] ret = Inr ret"
| "desired_sections ((ndx, shdr_ok, name) # scns) ret =
     (if \<not> shdr_ok then Inl (Runtime ''getshdr() failed'')
      else (case name of
         None \<Rightarrow> Inl (Runtime ''elf_strptr() failed'')
       | Some n \<Rightarrow>
           if n = ''.data'' \<or> n = ''.bss'' \<or> n = ''.dynamic'' then desired_sections scns (ret @ [of_nat ndx])
           else desired_sections scns ret))"

definition get_desired_section_num :: "linker \<Rightarrow> 16 word list result" where
  "get_desired_section_num le =
     (if \<not> le_version_ok le then Inl (Runtime ''ELF library initialization failed'')
      else if \<not> le_open_ok le then Inl (Runtime ''Failed to open /proc/self/exe'')
      else if \<not> le_begin_ok le then Inl (Runtime ''elf_begin() failed'')
      else if \<not> le_kind_elf le then Inl (Runtime ''/proc/self/exe is not an ELF object.'')
      else if \<not> le_shstrndx_ok le then Inl (Runtime ''elf_getshdrstrndx() failed'')
      else desired_sections (le_sections le) [])"

section \<open>Collecting the variables\<close>

text \<open>\<^verbatim>\<open>string_view\<close> is a pointer and a length; \<open>gv_text\<close> is the text it denotes.\<close>

record global_variable_info =
  gv_data :: u64
  gv_text :: string
  gv_area :: mem_area

fun scan_symbols ::
  "linker \<Rightarrow> memory \<Rightarrow> 16 word list \<Rightarrow> u64 \<Rightarrow> elf_sym list \<Rightarrow> global_variable_info list \<Rightarrow>
   global_variable_info list result option" where
  "scan_symbols le mem shndx strtab [] vec = Some (Inr vec)"
| "scan_symbols le mem shndx strtab (e # syms) vec =
     (if st_shndx e \<notin> set shndx then scan_symbols le mem shndx strtab syms vec
      else if st_name e = 0 then Some (Inl AssertFailed)
      else (let sym_ptr = strtab + ucast (st_name e) in
        case c_string mem sym_ptr of
          None \<Rightarrow> None
        | Some sym_name \<Rightarrow>
            if is_fortran_global_variable (le_full_match le) sym_name then
              (case symbol_name_2_addr le sym_name of
                 None \<Rightarrow> Some (Inl (Runtime ''dlerror''))
               | Some addr \<Rightarrow>
                   scan_symbols le mem shndx strtab syms (vec @ [\<lparr>gv_data = sym_ptr, gv_text = sym_name,
                     gv_area = \<lparr>ma_data = addr, ma_size = st_size e\<rparr>\<rparr>]))
            else scan_symbols le mem shndx strtab syms vec))"

definition get_symbol_from_symtab ::
  "linker \<Rightarrow> memory \<Rightarrow> elf_sym list \<Rightarrow> u64 \<Rightarrow> global_variable_info list \<Rightarrow>
   global_variable_info list result option" where
  "get_symbol_from_symtab le mem symtab strtab vec =
     (case get_desired_section_num le of
        Inl e \<Rightarrow> Some (Inl e)
      | Inr shndx \<Rightarrow> scan_symbols le mem shndx strtab (filter is_global_variable symtab) vec)"

definition get_symbol_from_dynamic_tags ::
  "linker \<Rightarrow> memory \<Rightarrow> dyn list \<Rightarrow> global_variable_info list \<Rightarrow> global_variable_info list result option" where
  "get_symbol_from_dynamic_tags le mem dynamic_tags vec =
     (case get_sym_cnt mem dynamic_tags of
        None \<Rightarrow> None
      | Some (Inl e) \<Rightarrow> Some (Inl e)
      | Some (Inr sym_cnt) \<Rightarrow>
          (case find_tag DT_SYMTAB dynamic_tags of
             None \<Rightarrow> Some (Inl (Runtime ''DT_SYMTAB does not present in dynamic_tags''))
           | Some symtab \<Rightarrow>
               (case get_strtab dynamic_tags of
                  Inl e \<Rightarrow> Some (Inl e)
                | Inr strtab \<Rightarrow>
                    get_symbol_from_symtab le mem (read_symtab mem (d_ptr symtab) sym_cnt) strtab vec)))"

record dl_object =
  dlpi_name :: string
  dlpi_addr :: u64
  dlpi_phdr :: "(int \<times> u64) list"

definition PT_DYNAMIC :: int where "PT_DYNAMIC = 2"

fun contains :: "string \<Rightarrow> string \<Rightarrow> bool" where
  "contains pat [] \<longleftrightarrow> pat = []"
| "contains pat (c # s) \<longleftrightarrow> take (length pat) (c # s) = pat \<or> contains pat s"

fun scan_headers ::
  "linker \<Rightarrow> memory \<Rightarrow> u64 \<Rightarrow> (int \<times> u64) list \<Rightarrow> global_variable_info list \<Rightarrow>
   global_variable_info list result option" where
  "scan_headers le mem base [] vec = Some (Inr vec)"
| "scan_headers le mem base ((p_type, p_vaddr) # hs) vec =
     (case read_dyns mem (base + p_vaddr) of
        None \<Rightarrow> None
      | Some tags \<Rightarrow>
          (case get_symbol_from_dynamic_tags le mem tags vec of
             None \<Rightarrow> None
           | Some (Inl e) \<Rightarrow> Some (Inl e)
           | Some (Inr vec') \<Rightarrow> scan_headers le mem base hs vec'))"

definition retrieve_symbolnames ::
  "linker \<Rightarrow> memory \<Rightarrow> dl_object \<Rightarrow> global_variable_info list \<Rightarrow> global_variable_info list result option" where
  "retrieve_symbolnames le mem info vec =
     (if dlpi_name info = ''linux-vdso.so.1'' then Some (Inr vec)
      else if contains ''/libgfortran.so'' (dlpi_name info) then Some (Inr vec)
      else scan_headers le mem (dlpi_addr info) (filter (\<lambda>h. fst h = PT_DYNAMIC) (dlpi_phdr info)) vec)"

text \<open>\<^verbatim>\<open>dl_iterate_phdr\<close> calls the callback on one object after the other; the callback always returns 0.\<close>

fun iterate_objects ::
  "linker \<Rightarrow> memory \<Rightarrow> dl_object list \<Rightarrow> global_variable_info list \<Rightarrow> global_variable_info list result option" where
  "iterate_objects le mem [] vec = Some (Inr vec)"
| "iterate_objects le mem (info # infos) vec =
     (case retrieve_symbolnames le mem info vec of
        None \<Rightarrow> None
      | Some (Inl e) \<Rightarrow> Some (Inl e)
      | Some (Inr vec') \<Rightarrow> iterate_objects le mem infos vec')"

definition get_all_fortran_global_variables ::
  "linker \<Rightarrow> memory \<Rightarrow> dl_object list \<Rightarrow> global_variable_info list result option" where
  "get_all_fortran_global_variables le mem objects = iterate_objects le mem objects []"

section \<open>Broadcasting the variables\<close>

text \<open>\<open>gathered\<close> holds the lists of all ranks, which the collective calls of the check exchange.\<close>

definition verify_fortran_global_variables_synced ::
  "global_variable_info list list \<Rightarrow> global_variable_info list \<Rightarrow> unit result" where
  "verify_fortran_global_variables_synced gathered vars =
     assertE (list_all (\<lambda>infos. length infos = length vars) gathered)
       (assertE (list_all (\<lambda>k. list_all (\<lambda>infos.
            ma_data (gv_area (vars ! k)) = ma_data (gv_area (infos ! k)) \<and>
            ma_size (gv_area (vars ! k)) = ma_size (gv_area (infos ! k)) \<and>
            gv_data (vars ! k) = gv_data (infos ! k) \<and>
            length (gv_text (vars ! k)) = length (gv_text (infos ! k))) gathered) [0 ..< length vars])
         (Inr ()))"

text \<open>The loop: one request per variable, in a window of 256 as in \<^verbatim>\<open>sync_areas\<close>.\<close>

fun sync_variables ::
  "(u64 \<Rightarrow> int \<Rightarrow> 'w \<Rightarrow> 'r \<times> 'w) \<Rightarrow> ('r list \<Rightarrow> 'w \<Rightarrow> nat option \<times> 'w) \<Rightarrow> global_variable_info list \<Rightarrow>
   'r list \<times> 'w \<Rightarrow> ('r list \<times> 'w) result" where
  "sync_variables ibcast waitany [] bw = Inr bw"
| "sync_variables ibcast waitany (i # is) bw =
     assertE (ma_size (gv_area i) \<le> int_max)
       (case ibcast (ma_data (gv_area i)) (uint (ma_size (gv_area i))) (snd bw) of (request, w1) \<Rightarrow>
          bindE (async_wait_request waitany request (fst bw, w1)) (sync_variables ibcast waitany is))"

definition sync_fortran_global_variables ::
  "(u64 \<Rightarrow> int \<Rightarrow> 'w \<Rightarrow> 'r \<times> 'w) \<Rightarrow> ('r list \<Rightarrow> 'w \<Rightarrow> nat option \<times> 'w) \<Rightarrow> ('r list \<Rightarrow> 'w \<Rightarrow> 'w) \<Rightarrow> int \<Rightarrow>
   global_variable_info list list \<Rightarrow> global_variable_info list \<Rightarrow> 'w \<Rightarrow> 'w result" where
  "sync_fortran_global_variables ibcast waitany waitall comm_size gathered vars w =
     assertE (comm_size > 1)
       (bindE (verify_fortran_global_variables_synced gathered vars) (\<lambda>u.
          bindE (sync_variables ibcast waitany vars ([], w)) (\<lambda>(buffer, w'). Inr (waitall buffer w'))))"

section \<open>The broadcast is \<open>sync_areas\<close> on the variables\<close>

text \<open>A variable of at most \<open>INT_MAX\<close> bytes is one request of \<^verbatim>\<open>sync_areas\<close>.\<close>

lemma sync_area_loop_single:
  assumes "0 < sz" "sz \<le> int_max"
  shows "sync_area_loop ibcast waitany a sz 0 bw =
    (case ibcast a (uint sz) (snd bw) of (request, w1) \<Rightarrow> Some (async_wait_request waitany request (fst bw, w1)))"
proof -
  have nxt: "sync_area_loop ibcast waitany a sz int_max bw' = Some (Inr bw')" for bw'
  proof -
    have "(int_max < sz) = False" using assms(2) leD by blast
    then show ?thesis by (subst sync_area_loop.simps) simp
  qed
  have "min int_max sz = sz" using assms(2) by (simp add: min_def)
  then show ?thesis
    using assms(1) by (subst sync_area_loop.simps) (auto simp: nxt split: sum.splits prod.splits)
qed

definition var_ok :: "global_variable_info \<Rightarrow> bool" where
  "var_ok i \<longleftrightarrow> 0 < ma_size (gv_area i) \<and> ma_size (gv_area i) \<le> int_max"

lemma sync_variables_areas:
  assumes "\<forall>i \<in> set is. var_ok i"
  shows "sync_areas_loop ibcast waitany (map gv_area is) bw = Some (sync_variables ibcast waitany is bw)"
  using assms
proof (induction "is" arbitrary: bw)
  case (Cons i "is")
  then show ?case
    by (auto simp: sync_area_loop_single var_ok_def bindE_def split: prod.splits sum.splits)
qed simp


lemma verify_same:
  "\<forall>infos \<in> set gathered. infos = vars \<Longrightarrow> verify_fortran_global_variables_synced gathered vars = Inr ()"
  by (simp add: verify_fortran_global_variables_synced_def list_all_iff)

text \<open>
  C6. When all ranks have found the same variables, the broadcast ends with no request outstanding and
  leaves the root's bytes in every Fortran module variable and all other bytes unchanged, whatever
  request \<^verbatim>\<open>MPI_Waitany\<close> picks.
\<close>

theorem fortran_variables_synced:
  assumes "mpi_requests_ok outstanding settled root_mem ibcast waitany waitall"
    and "1 < comm_size" "\<forall>infos \<in> set gathered. infos = vars" "\<forall>i \<in> set vars. var_ok i" "outstanding w = {#}"
  shows "\<exists>w'. sync_fortran_global_variables ibcast waitany waitall comm_size gathered vars w = Inr w' \<and>
    outstanding w' = {#} \<and> settled w' = overwrite root_mem (areas_block (map gv_area vars)) (settled w)"
proof -
  have "\<forall>a \<in> set (map gv_area vars). unat (ma_size a) + INT_MAX \<le> 2 ^ 64"
    using assms(4) by (auto simp: var_ok_def word_le_nat_alt INT_MAX_def)
  then obtain w' where w': "sync_areas ibcast waitany waitall (map gv_area vars) w = Some (Inr w')"
    "outstanding w' = {#}" "settled w' = overwrite root_mem (areas_block (map gv_area vars)) (settled w)"
    using sync_areas_ok [OF assms(1) _ assms(5)] by blast
  moreover have "sync_areas ibcast waitany waitall (map gv_area vars) w
      = Some (sync_fortran_global_variables ibcast waitany waitall comm_size gathered vars w)"
    using assms(2,3) sync_variables_areas [OF assms(4), of ibcast waitany "([], w)"]
    by (simp add: sync_areas_def sync_fortran_global_variables_def verify_same)
  ultimately show ?thesis by simp
qed

theorem fortran_variables_synced_witness:
  "\<exists>w'. sync_fortran_global_variables (demo_ibcast (\<lambda>_. 7)) demo_waitany demo_waitall 2
      [[\<lparr>gv_data = 0x500, gv_text = ''__m_MOD_x'', gv_area = \<lparr>ma_data = 4096, ma_size = 8\<rparr>\<rparr>]]
      [\<lparr>gv_data = 0x500, gv_text = ''__m_MOD_x'', gv_area = \<lparr>ma_data = 4096, ma_size = 8\<rparr>\<rparr>] ({#}, 0, \<lambda>_. 0) = Inr w' \<and>
    fst w' = {#} \<and> snd (snd w') = overwrite (\<lambda>_. 7) (areas_block [\<lparr>ma_data = 4096, ma_size = 8\<rparr>]) (\<lambda>_. 0)"
  using fortran_variables_synced [OF demo_requests_ok [of "\<lambda>_. 7"], of 2
      "[[\<lparr>gv_data = 0x500, gv_text = ''__m_MOD_x'', gv_area = \<lparr>ma_data = 4096, ma_size = 8\<rparr>\<rparr>]]"
      "[\<lparr>gv_data = 0x500, gv_text = ''__m_MOD_x'', gv_area = \<lparr>ma_data = 4096, ma_size = 8\<rparr>\<rparr>]" "({#}, 0, \<lambda>_. 0)"]
  by (simp add: var_ok_def int_max_def)

section \<open>Exactly the module variables are collected\<close>

definition symbol_text :: "memory \<Rightarrow> u64 \<Rightarrow> elf_sym \<Rightarrow> string" where
  "symbol_text mem strtab e = the (c_string mem (strtab + ucast (st_name e)))"

definition candidate :: "16 word list \<Rightarrow> elf_sym \<Rightarrow> bool" where
  "candidate shndx e \<longleftrightarrow> is_global_variable e \<and> st_shndx e \<in> set shndx"

definition module_variables ::
  "linker \<Rightarrow> memory \<Rightarrow> 16 word list \<Rightarrow> u64 \<Rightarrow> elf_sym list \<Rightarrow> global_variable_info list" where
  "module_variables le mem shndx strtab syms =
     map (\<lambda>e. \<lparr>gv_data = strtab + ucast (st_name e), gv_text = symbol_text mem strtab e,
         gv_area = \<lparr>ma_data = the (symbol_name_2_addr le (symbol_text mem strtab e)), ma_size = st_size e\<rparr>\<rparr>)
       (filter (\<lambda>e. candidate shndx e \<and> is_fortran_global_variable (le_full_match le) (symbol_text mem strtab e)) syms)"

text \<open>The candidates have names, and the dynamic linker finds the ones that look like module variables.\<close>

definition symbols_ok :: "linker \<Rightarrow> memory \<Rightarrow> 16 word list \<Rightarrow> u64 \<Rightarrow> elf_sym list \<Rightarrow> bool" where
  "symbols_ok le mem shndx strtab syms \<longleftrightarrow>
     (\<forall>e \<in> set syms. candidate shndx e \<longrightarrow> st_name e \<noteq> 0 \<and> c_string mem (strtab + ucast (st_name e)) \<noteq> None \<and>
        (is_fortran_global_variable (le_full_match le) (symbol_text mem strtab e) \<longrightarrow>
           symbol_name_2_addr le (symbol_text mem strtab e) \<noteq> None))"

lemma scan_symbols_exact:
  assumes "symbols_ok le mem shndx strtab syms"
  shows "scan_symbols le mem shndx strtab (filter is_global_variable syms) vec
    = Some (Inr (vec @ module_variables le mem shndx strtab syms))"
  using assms
proof (induction syms arbitrary: vec)
  case Nil
  then show ?case by (simp add: module_variables_def)
next
  case (Cons e syms)
  have ih: "scan_symbols le mem shndx strtab (filter is_global_variable syms) v
      = Some (Inr (v @ module_variables le mem shndx strtab syms))" for v
    using Cons by (simp add: symbols_ok_def)
  show ?case
  proof (cases "candidate shndx e")
    case False
    then show ?thesis using ih by (auto simp: candidate_def module_variables_def)
  next
    case True
    then obtain name where name: "c_string mem (strtab + ucast (st_name e)) = Some name" "st_name e \<noteq> 0"
      "symbol_text mem strtab e = name"
      "is_fortran_global_variable (le_full_match le) name \<Longrightarrow> \<exists>addr. symbol_name_2_addr le name = Some addr"
      using Cons.prems by (auto simp: symbols_ok_def symbol_text_def)
    have c: "is_global_variable e" "st_shndx e \<in> set shndx" using True by (simp_all add: candidate_def)
    show ?thesis
    proof (cases "is_fortran_global_variable (le_full_match le) name")
      case False
      then show ?thesis using ih name c by (simp add: module_variables_def)
    next
      case fortran: True
      obtain addr where "symbol_name_2_addr le name = Some addr" using name(4) [OF fortran] ..
      then show ?thesis using ih name c True fortran by (simp add: module_variables_def)
    qed
  qed
qed

text \<open>The tables a dynamic segment points to.\<close>

definition segment_ok :: "linker \<Rightarrow> memory \<Rightarrow> 16 word list \<Rightarrow> u64 \<Rightarrow> dyn list \<Rightarrow> u32 \<Rightarrow> u64 \<Rightarrow> u64 \<Rightarrow> bool" where
  "segment_ok le mem shndx a tags n symtab strtab \<longleftrightarrow>
     read_dyns mem a = Some tags \<and> get_sym_cnt mem tags = Some (Inr n) \<and>
     map_option d_ptr (find_tag DT_SYMTAB tags) = Some symtab \<and> get_strtab tags = Inr strtab \<and>
     symbols_ok le mem shndx strtab (read_symtab mem symtab n)"

text \<open>What the code collects from one object, as a relation to its segments.\<close>

definition skipped :: "dl_object \<Rightarrow> bool" where
  "skipped info \<longleftrightarrow> dlpi_name info = ''linux-vdso.so.1'' \<or> contains ''/libgfortran.so'' (dlpi_name info)"

definition dynamic_headers :: "dl_object \<Rightarrow> (int \<times> u64) list" where
  "dynamic_headers info = (if skipped info then [] else filter (\<lambda>h. fst h = PT_DYNAMIC) (dlpi_phdr info))"

definition segment_variables :: "linker \<Rightarrow> memory \<Rightarrow> 16 word list \<Rightarrow> u64 \<Rightarrow> global_variable_info list \<Rightarrow> bool" where
  "segment_variables le mem shndx a vars \<longleftrightarrow>
     (\<exists>tags n symtab strtab. segment_ok le mem shndx a tags n symtab strtab \<and>
        vars = module_variables le mem shndx strtab (read_symtab mem symtab n))"

lemma scan_headers_exact:
  assumes "get_desired_section_num le = Inr shndx"
    and "list_all2 (\<lambda>h vs. segment_variables le mem shndx (base + snd h) vs) hs vss"
  shows "scan_headers le mem base hs vec = Some (Inr (vec @ concat vss))"
  using assms(2)
proof (induction arbitrary: vec rule: list_all2_induct)
  case Nil
  then show ?case by simp
next
  case (Cons h hs vs vss)
  obtain p_type p_vaddr where h: "h = (p_type, p_vaddr)" by fastforce
  obtain tags n symtab strtab where s: "segment_ok le mem shndx (base + p_vaddr) tags n symtab strtab"
    "vs = module_variables le mem shndx strtab (read_symtab mem symtab n)"
    using Cons.hyps(1) h by (auto simp: segment_variables_def)
  then have "get_symbol_from_dynamic_tags le mem tags vec = Some (Inr (vec @ vs))" for vec
    by (auto simp: segment_ok_def get_symbol_from_dynamic_tags_def get_symbol_from_symtab_def assms(1)
        scan_symbols_exact)
  then show ?case using s(1) Cons.IH h by (simp add: segment_ok_def)
qed

lemma retrieve_exact:
  assumes "get_desired_section_num le = Inr shndx"
    and "list_all2 (\<lambda>h vs. segment_variables le mem shndx (dlpi_addr info + snd h) vs) (dynamic_headers info) vss"
  shows "retrieve_symbolnames le mem info vec = Some (Inr (vec @ concat vss))"
  using assms(2) scan_headers_exact [OF assms(1), of mem "dlpi_addr info"]
  by (auto simp: retrieve_symbolnames_def dynamic_headers_def skipped_def split: if_splits)

lemma iterate_exact:
  assumes "get_desired_section_num le = Inr shndx"
    and "list_all2 (\<lambda>info vss. list_all2 (\<lambda>h vs. segment_variables le mem shndx (dlpi_addr info + snd h) vs)
           (dynamic_headers info) vss) objects vsss"
  shows "iterate_objects le mem objects vec = Some (Inr (vec @ concat (map concat vsss)))"
  using assms(2)
  by (induction arbitrary: vec rule: list_all2_induct) (simp_all add: retrieve_exact [OF assms(1)])



text \<open>
  A concrete object for the witness: a dynamic segment at \<open>0x2000\<close> with a hash table at \<open>0x3000\<close>, two
  symbols at \<open>0x4000\<close> and the string table at \<open>0x5000\<close>.
\<close>

definition demo_elf :: memory where
  "demo_elf x = (case map_of
     [(0x2000, 4), (0x2009, 0x30), (0x2010, 6), (0x2019, 0x40), (0x2020, 5), (0x2029, 0x50), (0x3004, 2),
      (0x4018, 1), (0x401c, 0x11), (0x401e, 5), (0x4028, 8),
      (0x5001, 0x5f), (0x5002, 0x5f), (0x5003, 0x6d), (0x5004, 0x5f), (0x5005, 0x4d), (0x5006, 0x4f), (0x5007, 0x44),
      (0x5008, 0x5f), (0x5009, 0x78)] x of None \<Rightarrow> 0 | Some b \<Rightarrow> b)"

definition demo_linker :: linker where
  "demo_linker = \<lparr>le_full_match = matches, le_dlsym = (\<lambda>name. 0x9000), le_dlerror = (\<lambda>name. False),
     le_version_ok = True, le_open_ok = True, le_begin_ok = True, le_kind_elf = True, le_shstrndx_ok = True,
     le_sections = [(4, True, Some ''.text''), (5, True, Some ''.data'')]\<rparr>"

definition demo_object :: dl_object where
  "demo_object = \<lparr>dlpi_name = ''a.out'', dlpi_addr = 0x1000, dlpi_phdr = [(1, 0), (2, 0x1000)]\<rparr>"

lemma load64_two:
  assumes "mem (a + 2) = 0" "mem (a + 3) = 0" "mem (a + 4) = 0" "mem (a + 5) = 0" "mem (a + 6) = 0" "mem (a + 7) = 0"
  shows "load64 mem a = ucast (mem a) OR push_bit 8 (ucast (mem (a + 1)))"
  using assms by (simp add: load64_def numeral_eq_Suc add.assoc)

lemma demo_dyns: "read_dyns demo_elf 0x2000 = Some [\<lparr>d_tag = 4, d_ptr = 0x3000\<rparr>, \<lparr>d_tag = 6, d_ptr = 0x4000\<rparr>,
    \<lparr>d_tag = 5, d_ptr = 0x5000\<rparr>]"
proof -
  have l: "load64 demo_elf 0x2000 = 4" "load64 demo_elf 0x2008 = 0x3000" "load64 demo_elf 0x2010 = 6"
    "load64 demo_elf 0x2018 = 0x4000" "load64 demo_elf 0x2020 = 5" "load64 demo_elf 0x2028 = 0x5000"
    "load64 demo_elf 0x2030 = 0"
    by (simp_all add: load64_two demo_elf_def)
  have d: "read_dyn demo_elf 0x2000 = \<lparr>d_tag = 4, d_ptr = 0x3000\<rparr>" "read_dyn demo_elf 0x2010 = \<lparr>d_tag = 6, d_ptr = 0x4000\<rparr>"
    "read_dyn demo_elf 0x2020 = \<lparr>d_tag = 5, d_ptr = 0x5000\<rparr>" "d_tag (read_dyn demo_elf 0x2030) = 0"
    by (simp_all add: read_dyn_def l)
  have "read_dyns demo_elf 0x2030 = Some []" by (subst read_dyns.simps) (simp add: d DT_NULL_def)
  then have "read_dyns demo_elf 0x2020 = Some [\<lparr>d_tag = 5, d_ptr = 0x5000\<rparr>]"
    by (subst read_dyns.simps) (simp add: d DT_NULL_def)
  then have "read_dyns demo_elf 0x2010 = Some [\<lparr>d_tag = 6, d_ptr = 0x4000\<rparr>, \<lparr>d_tag = 5, d_ptr = 0x5000\<rparr>]"
    by (subst read_dyns.simps) (simp add: d DT_NULL_def)
  then show ?thesis by (subst read_dyns.simps) (simp add: d DT_NULL_def)
qed


lemma load_le_two: "load_le mem a 2 = ucast (mem a) OR push_bit 8 (ucast (mem (a + 1)))"
  by (simp add: numeral_2_eq_2)

lemma demo_symtab: "read_symtab demo_elf 0x4000 2 =
    [\<lparr>st_name = 0, st_info = 0, st_shndx = 0, st_size = 0\<rparr>, \<lparr>st_name = 1, st_info = 0x11, st_shndx = 5, st_size = 8\<rparr>]"
proof -
  have "[0 ..< unat (2 :: u32)] = [0, 1]" by (simp add: upt_rec)
  moreover have "read_sym demo_elf 0x4000 = \<lparr>st_name = 0, st_info = 0, st_shndx = 0, st_size = 0\<rparr>"
    "read_sym demo_elf 0x4018 = \<lparr>st_name = 1, st_info = 0x11, st_shndx = 5, st_size = 8\<rparr>"
    by (simp_all add: read_sym_def load32_bytes load64_two load_le_two demo_elf_def)
  ultimately show ?thesis by (simp add: read_symtab_def)
qed

lemma c_string_Cons: "mem a = b \<Longrightarrow> b \<noteq> 0 \<Longrightarrow> c_string mem (a + 1) = Some s \<Longrightarrow>
    c_string mem a = Some (char_of (unat b) # s)"
  by (subst c_string.simps) simp

lemma c_string_Nil: "mem a = 0 \<Longrightarrow> c_string mem a = Some []"
  by (subst c_string.simps) simp

lemma demo_name: "c_string demo_elf 0x5001 = Some ''__m_MOD_x''"
proof -
  have "c_string demo_elf 0x500a = Some []" by (rule c_string_Nil) (simp add: demo_elf_def)
  then have "c_string demo_elf 0x5009 = Some ''x''"
    by (subst c_string.simps) (simp add: demo_elf_def char_of_def bit_0)
  then have "c_string demo_elf 0x5008 = Some ''_x''"
    by (subst c_string.simps) (simp add: demo_elf_def char_of_def bit_0)
  then have "c_string demo_elf 0x5007 = Some ''D_x''"
    by (subst c_string.simps) (simp add: demo_elf_def char_of_def bit_0)
  then have "c_string demo_elf 0x5006 = Some ''OD_x''"
    by (subst c_string.simps) (simp add: demo_elf_def char_of_def bit_0)
  then have "c_string demo_elf 0x5005 = Some ''MOD_x''"
    by (subst c_string.simps) (simp add: demo_elf_def char_of_def bit_0)
  then have "c_string demo_elf 0x5004 = Some ''_MOD_x''"
    by (subst c_string.simps) (simp add: demo_elf_def char_of_def bit_0)
  then have "c_string demo_elf 0x5003 = Some ''m_MOD_x''"
    by (subst c_string.simps) (simp add: demo_elf_def char_of_def bit_0)
  then have "c_string demo_elf 0x5002 = Some ''_m_MOD_x''"
    by (subst c_string.simps) (simp add: demo_elf_def char_of_def bit_0)
  then show ?thesis
    by (subst c_string.simps) (simp add: demo_elf_def char_of_def bit_0)
qed

lemma demo_is_fortran: "is_fortran_global_variable matches ''__m_MOD_x''"
  by (simp add: is_fortran_global_variable_def gfort_global_var_sym_reg_def upper_def)

lemma demo_segment: "segment_variables demo_linker demo_elf [5] 0x2000
    [\<lparr>gv_data = 0x5001, gv_text = ''__m_MOD_x'', gv_area = \<lparr>ma_data = 0x9000, ma_size = 8\<rparr>\<rparr>]"
proof -
  let ?tags = "[\<lparr>d_tag = 4, d_ptr = 0x3000\<rparr>, \<lparr>d_tag = 6, d_ptr = 0x4000\<rparr>, \<lparr>d_tag = 5, d_ptr = 0x5000\<rparr>]"
  have cnt: "get_sym_cnt demo_elf ?tags = Some (Inr 2)"
    by (simp add: get_sym_cnt_def find_tag_def DT_HASH_def load32_bytes demo_elf_def)
  have tabs: "map_option d_ptr (find_tag DT_SYMTAB ?tags) = Some 0x4000" "get_strtab ?tags = Inr 0x5000"
    by (simp_all add: find_tag_def get_strtab_def DT_SYMTAB_def DT_STRTAB_def)
  have nm: "symbol_text demo_elf 0x5000 \<lparr>st_name = 1, st_info = 0x11, st_shndx = 5, st_size = 8\<rparr> = ''__m_MOD_x''"
    by (simp add: symbol_text_def demo_name)
  have sym: "symbol_name_2_addr demo_linker name = Some 0x9000" for name
    by (simp add: symbol_name_2_addr_def demo_linker_def Let_def)
  have fm: "le_full_match demo_linker = matches" by (simp add: demo_linker_def)
  have "segment_ok demo_linker demo_elf [5] 0x2000 ?tags 2 0x4000 0x5000"
    using demo_dyns cnt tabs sym
    by (simp add: segment_ok_def symbols_ok_def demo_symtab candidate_def is_global_variable_def demo_name)
  moreover have "module_variables demo_linker demo_elf [5] 0x5000 (read_symtab demo_elf 0x4000 2)
      = [\<lparr>gv_data = 0x5001, gv_text = ''__m_MOD_x'', gv_area = \<lparr>ma_data = 0x9000, ma_size = 8\<rparr>\<rparr>]"
    using demo_is_fortran
    by (simp add: module_variables_def demo_symtab candidate_def is_global_variable_def nm sym fm)
  ultimately show ?thesis unfolding segment_variables_def by metis
qed


end
