(* ===== verification/Fortran_Binding.thy ===== *)
theory Fortran_Binding
  imports Fortran_Globals
begin

text \<open>
  The Fortran binding (\<^verbatim>\<open>fortran_binding.cc\<close>): Fortran types as MPI types, the size of an array that is
  reduced, and the lookup of a module array by name. The type codes of \<^verbatim>\<open>ISO_Fortran_binding.h\<close> belong
  to the Fortran compiler and are an argument.
\<close>

section \<open>Types\<close>

datatype cfi_type =
    CFI_type_signed_char | CFI_type_short | CFI_type_int | CFI_type_long | CFI_type_long_long
  | CFI_type_size_t | CFI_type_int8_t | CFI_type_int16_t | CFI_type_int32_t | CFI_type_int64_t
  | CFI_type_int_least8_t | CFI_type_int_least16_t | CFI_type_int_least32_t | CFI_type_int_least64_t
  | CFI_type_int_fast8_t | CFI_type_int_fast16_t | CFI_type_int_fast32_t | CFI_type_int_fast64_t
  | CFI_type_intmax_t | CFI_type_intptr_t | CFI_type_ptrdiff_t | CFI_type_float | CFI_type_double
  | CFI_type_long_double | CFI_type_float_Complex | CFI_type_double_Complex
  | CFI_type_long_double_Complex | CFI_type_Bool | CFI_type_char | CFI_type_cptr | CFI_type_struct
  | CFI_type_other

text \<open>The two maps; of entries with equal codes \<^verbatim>\<open>std::map\<close> keeps the first.\<close>

definition cfi_type_2_mpi_type :: "(cfi_type \<times> mpi_datatype) list" where
  "cfi_type_2_mpi_type =
     [(CFI_type_int, MPI_INT), (CFI_type_int8_t, MPI_INT8_T), (CFI_type_int16_t, MPI_INT16_T),
      (CFI_type_int32_t, MPI_INT32_T), (CFI_type_int64_t, MPI_INT64_T), (CFI_type_float, MPI_FLOAT),
      (CFI_type_double, MPI_DOUBLE), (CFI_type_Bool, MPI_C_BOOL)]"

definition all_type_names :: "(cfi_type \<times> string) list" where
  "all_type_names =
     [(CFI_type_signed_char, ''CFI_type_signed_char''), (CFI_type_short, ''CFI_type_short''),
      (CFI_type_int, ''CFI_type_int''), (CFI_type_long, ''CFI_type_long''),
      (CFI_type_long_long, ''CFI_type_long_long''), (CFI_type_size_t, ''CFI_type_size_t''),
      (CFI_type_int8_t, ''CFI_type_int8_t''), (CFI_type_int16_t, ''CFI_type_int16_t''),
      (CFI_type_int32_t, ''CFI_type_int32_t''), (CFI_type_int64_t, ''CFI_type_int64_t''),
      (CFI_type_int_least8_t, ''CFI_type_int_least8_t''), (CFI_type_int_least16_t, ''CFI_type_int_least16_t''),
      (CFI_type_int_least32_t, ''CFI_type_int_least32_t''), (CFI_type_int_least64_t, ''CFI_type_int_least64_t''),
      (CFI_type_int_fast8_t, ''CFI_type_int_fast8_t''), (CFI_type_int_fast16_t, ''CFI_type_int_fast16_t''),
      (CFI_type_int_fast32_t, ''CFI_type_int_fast32_t''), (CFI_type_int_fast64_t, ''CFI_type_int_fast64_t''),
      (CFI_type_intmax_t, ''CFI_type_intmax_t''), (CFI_type_intptr_t, ''CFI_type_intptr_t''),
      (CFI_type_ptrdiff_t, ''CFI_type_ptrdiff_t''), (CFI_type_float, ''CFI_type_float''),
      (CFI_type_double, ''CFI_type_double''), (CFI_type_long_double, ''CFI_type_long_double''),
      (CFI_type_float_Complex, ''CFI_type_float_Complex''), (CFI_type_double_Complex, ''CFI_type_double_Complex''),
      (CFI_type_long_double_Complex, ''CFI_type_long_double_Complex''), (CFI_type_Bool, ''CFI_type_Bool''),
      (CFI_type_char, ''CFI_type_char''), (CFI_type_cptr, ''CFI_type_cptr''),
      (CFI_type_struct, ''CFI_type_struct''), (CFI_type_other, ''CFI_type_other'')]"

definition newline :: string where
  "newline = [CHR 0x0A]"

definition lookup_code :: "(cfi_type \<Rightarrow> int) \<Rightarrow> (cfi_type \<times> 'a) list \<Rightarrow> int \<Rightarrow> 'a option" where
  "lookup_code code entries ftype = map_of (map (\<lambda>(t, x). (code t, x)) entries) ftype"

text \<open>\<^verbatim>\<open>*name->second\<close> is the first character of the name.\<close>

definition ftype_2_mpi_type :: "(cfi_type \<Rightarrow> int) \<Rightarrow> int \<Rightarrow> mpi_datatype result" where
  "ftype_2_mpi_type code ftype =
     (case lookup_code code cfi_type_2_mpi_type ftype of
        Some mpi_type \<Rightarrow> Inr mpi_type
      | None \<Rightarrow>
          (case lookup_code code all_type_names ftype of
             Some name \<Rightarrow> Inl (Runtime (''Error: simple_parallel does not support Fortran type '' @ [hd name] @ newline))
           | None \<Rightarrow> Inl (Runtime (''Error: Unsupported Fortran type'' @ newline))))"

section \<open>Reduced arrays\<close>

text \<open>The parts of \<^verbatim>\<open>CFI_cdesc_t\<close> the code reads; extents are 64-bit signed and turn into \<^verbatim>\<open>size_t\<close>.\<close>

record cfi_cdesc =
  cd_base_addr :: u64
  cd_type :: int
  cd_rank :: int
  cd_extent :: "nat \<Rightarrow> int"

definition array_length :: "cfi_cdesc \<Rightarrow> u64" where
  "array_length array = fold (\<lambda>i len. len * word_of_int (cd_extent array i)) [0 ..< nat (cd_rank array)] 1"

text \<open>\<^verbatim>\<open>s_p_f_ctx_add_reduce_area\<close> up to the new list of areas, which the context keeps.\<close>

definition s_p_f_ctx_add_reduce_area ::
  "(cfi_type \<Rightarrow> int) \<Rightarrow> (mpi_datatype \<Rightarrow> int) \<Rightarrow> u64 \<Rightarrow> cfi_cdesc \<Rightarrow> mpi_op \<Rightarrow> reduce_area list \<Rightarrow>
   reduce_area list result" where
  "s_p_f_ctx_add_reduce_area code mpi_Type_size page_size array op reduces =
     assertE (cd_rank array \<ge> 0)
       (let len = array_length array
        in assertE (len > 0)
          (bindE (ftype_2_mpi_type code (cd_type array)) (\<lambda>type.
             bindE (reduce_area_of_type mpi_Type_size page_size type (cd_base_addr array) len op)
               (\<lambda>r. Inr (reduces @ [r])))))"

definition set_matrix_zero_impl :: "cfi_cdesc \<Rightarrow> u64 \<Rightarrow> memory \<Rightarrow> memory" where
  "set_matrix_zero_impl matrix n mem = memset mem (cd_base_addr matrix) 0 n"

definition get_matrix_mpi_datatype :: "(cfi_type \<Rightarrow> int) \<Rightarrow> cfi_cdesc \<Rightarrow> mpi_datatype result" where
  "get_matrix_mpi_datatype code matrix = ftype_2_mpi_type code (cd_type matrix)"

section \<open>Module arrays by name\<close>

definition get_gfortran_array_sym :: "string \<Rightarrow> string \<Rightarrow> string" where
  "get_gfortran_array_sym module array_name = ''__'' @ module @ ''_MOD_'' @ array_name"

definition get_ifx_array_sym :: "string \<Rightarrow> string \<Rightarrow> string" where
  "get_ifx_array_sym module array_name = module @ ''_mp_'' @ array_name @ ''_''"

definition get_flang_array_sym :: "string \<Rightarrow> string \<Rightarrow> string" where
  "get_flang_array_sym module array_name = ''_QM'' @ module @ ''E'' @ array_name"

text \<open>\<^verbatim>\<open>boost::to_lower\<close> in the C locale.\<close>

definition lower_char :: "char \<Rightarrow> char" where
  "lower_char c = (if c \<in> set upper then char_of (of_char c + 32 :: nat) else c)"

definition to_lower :: "string \<Rightarrow> string" where
  "to_lower s = map lower_char s"

definition get_array_addr :: "linker \<Rightarrow> string \<Rightarrow> string \<Rightarrow> u64 result" where
  "get_array_addr le module_name array_name =
     (let m = to_lower module_name; a = to_lower array_name
      in case symbol_name_2_addr le (get_gfortran_array_sym m a) of
           Some addr \<Rightarrow> Inr addr
         | None \<Rightarrow>
             (case symbol_name_2_addr le (get_ifx_array_sym m a) of
                Some addr \<Rightarrow> Inr addr
              | None \<Rightarrow>
                  (case symbol_name_2_addr le (get_flang_array_sym m a) of
                     Some addr \<Rightarrow> Inr addr
                   | None \<Rightarrow> Inl (Runtime ''dlerror''))))"

text \<open>The two C entry points: the function pointer they call comes from the compiler's side of the binding.\<close>

definition fortran_global_array_set_zero :: "linker \<Rightarrow> (u64 \<Rightarrow> 'w \<Rightarrow> 'w) \<Rightarrow> string \<Rightarrow> string \<Rightarrow> 'w \<Rightarrow> 'w result" where
  "fortran_global_array_set_zero le set_array_zero_func module_name array_name w =
     bindE (get_array_addr le module_name array_name) (\<lambda>matrix_addr. Inr (set_array_zero_func matrix_addr w))"

definition fortran_global_array_reduce ::
  "linker \<Rightarrow> (u64 \<Rightarrow> mpi_op \<Rightarrow> 'c \<Rightarrow> int \<Rightarrow> 'w \<Rightarrow> 'w) \<Rightarrow> string \<Rightarrow> string \<Rightarrow> mpi_op \<Rightarrow> 'c \<Rightarrow> int \<Rightarrow> 'w \<Rightarrow> 'w result" where
  "fortran_global_array_reduce le reduce_matrix_func module_name array_name op comm root_rank w =
     bindE (get_array_addr le module_name array_name)
       (\<lambda>matrix_addr. Inr (reduce_matrix_func matrix_addr op comm root_rank w))"

section \<open>Properties\<close>

lemma array_length_prod:
  "fold (\<lambda>i len. len * word_of_int (cd_extent array i)) [0 ..< n] 1
    = (word_of_int (\<Prod>i < n. cd_extent array i) :: u64)"
  by (induction n) (simp_all add: mult.commute)

text \<open>
  The number of elements of a reduced array is the product of its extents, given that the product
  fits \<^verbatim>\<open>size_t\<close>.
\<close>

theorem array_length_exact:
  assumes "\<forall>i < nat (cd_rank array). 0 \<le> cd_extent array i"
    and "(\<Prod>i < nat (cd_rank array). cd_extent array i) < 2 ^ 64"
  shows "uint (array_length array) = (\<Prod>i < nat (cd_rank array). cd_extent array i)"
proof -
  have "0 \<le> (\<Prod>i < nat (cd_rank array). cd_extent array i)" using assms(1) by (intro prod_nonneg) simp
  then show ?thesis
    using assms(2) unfolding array_length_def array_length_prod
    by (simp only: uint_word_of_int) (simp add: take_bit_int_eq_self)
qed

theorem array_length_exact_witness:
  "uint (array_length \<lparr>cd_base_addr = 0x1000, cd_type = 1, cd_rank = 2, cd_extent = (\<lambda>i. 100000)\<rparr>) = 10000000000"
  using array_length_exact [of "\<lparr>cd_base_addr = 0x1000, cd_type = 1, cd_rank = 2, cd_extent = (\<lambda>i. 100000)\<rparr>"]
  by simp

lemma type_name_letter:
  assumes "lookup_code code all_type_names ftype = Some name"
  shows "hd name = CHR ''C''"
proof -
  have "(ftype, name) \<in> set (map (\<lambda>(t, x). (code t, x)) all_type_names)"
    using assms unfolding lookup_code_def by (rule map_of_SomeD)
  then obtain t where "(t, name) \<in> set all_type_names" by auto
  moreover have "list_all (\<lambda>x. hd (snd x) = CHR ''C'') all_type_names" by (simp add: all_type_names_def)
  ultimately show ?thesis by (auto simp: list_all_iff)
qed

text \<open>
  The message for a Fortran type without an MPI counterpart names it \<^verbatim>\<open>C\<close>: the code prints the
  first character of the type's name, with which all names begin, in place of the name.
\<close>

theorem unsupported_type_message:
  assumes "lookup_code code cfi_type_2_mpi_type ftype = None"
    and "lookup_code code all_type_names ftype = Some name"
  shows "ftype_2_mpi_type code ftype
    = Inl (Runtime (''Error: simple_parallel does not support Fortran type C'' @ newline))"
  using type_name_letter [OF assms(2)] assms by (simp add: ftype_2_mpi_type_def)

theorem unsupported_type_message_witness:
  "ftype_2_mpi_type (\<lambda>t. if t = CFI_type_double_Complex then 5 else 0) 5
    = Inl (Runtime (''Error: simple_parallel does not support Fortran type C'' @ newline))"
  by (rule unsupported_type_message [of _ _ "''CFI_type_double_Complex''"])
    (simp_all add: lookup_code_def cfi_type_2_mpi_type_def all_type_names_def)

section \<open>Arrays found by name are synchronised\<close>

text \<open>Fortran identifiers.\<close>

definition lower_letters :: string where
  "lower_letters = ''abcdefghijklmnopqrstuvwxyz''"

definition fortran_name :: "string \<Rightarrow> bool" where
  "fortran_name s \<longleftrightarrow> s \<noteq> [] \<and> hd s \<in> set (upper @ lower_letters) \<and>
     set s \<subseteq> set (upper @ lower_letters @ ''0123456789_'')"

lemma matches_star:
  "set s \<inter> set cs = {} \<Longrightarrow> matches p rest \<Longrightarrow> matches (Star_not_in cs # p) (s @ rest)"
proof (induction s)
  case Nil
  then show ?case by (cases rest) simp_all
qed simp

lemma matches_lits: "matches (map Lit l @ p) (l @ rest) \<longleftrightarrow> matches p rest"
  by (induction l) simp_all

lemma matches_name:
  assumes "s \<noteq> []" "hd s \<noteq> CHR ''_''" "set s \<inter> set upper = {}" "matches p rest"
  shows "matches (Not_in (CHR ''_'' # upper) # Star_not_in upper # p) (s @ rest)"
  using assms by (cases s) (simp_all add: matches_star)

lemma lower_char_cases:
  assumes "c \<in> set (upper @ lower_letters @ ''0123456789_'')"
  shows "lower_char c \<in> set (lower_letters @ ''0123456789_'') \<and>
    (c \<in> set (upper @ lower_letters) \<longrightarrow> lower_char c \<in> set lower_letters)"
proof -
  have "list_all (\<lambda>c. lower_char c \<in> set (lower_letters @ ''0123456789_'') \<and>
      (c \<in> set (upper @ lower_letters) \<longrightarrow> lower_char c \<in> set lower_letters))
      (upper @ lower_letters @ ''0123456789_'')"
    by code_simp
  then show ?thesis using assms unfolding list_all_iff by blast
qed

lemma lower_name:
  assumes "fortran_name s"
  shows "to_lower s \<noteq> []" "hd (to_lower s) \<noteq> CHR ''_''" "set (to_lower s) \<inter> set upper = {}"
    "ascii (to_lower s)"
proof -
  have s: "s \<noteq> []" "hd s \<in> set (upper @ lower_letters)" "set s \<subseteq> set (upper @ lower_letters @ ''0123456789_'')"
    using assms by (simp_all add: fortran_name_def)
  show "to_lower s \<noteq> []" using s(1) by (simp add: to_lower_def)
  have "hd (to_lower s) = lower_char (hd s)" using s(1) by (simp add: to_lower_def hd_map)
  moreover have "lower_char (hd s) \<in> set lower_letters" using s lower_char_cases [of "hd s"] hd_in_set [OF s(1)] by blast
  moreover have "CHR ''_'' \<notin> set lower_letters" by (simp add: lower_letters_def)
  ultimately show "hd (to_lower s) \<noteq> CHR ''_''" by metis
  have low: "set (to_lower s) \<subseteq> set (lower_letters @ ''0123456789_'')"
    using s(3) lower_char_cases unfolding to_lower_def set_map by blast
  have "set (lower_letters @ ''0123456789_'') \<inter> set upper = {}" by (simp add: lower_letters_def upper_def)
  then show "set (to_lower s) \<inter> set upper = {}" using low by blast
  have "list_all (\<lambda>c. (of_char c :: nat) < 128) (lower_letters @ ''0123456789_'')" by code_simp
  then show "ascii (to_lower s)" using low unfolding ascii_def list_all_iff by blast
qed

lemma symbols_match:
  assumes "fortran_name m" "fortran_name a"
  shows "matches gfort_global_var_sym_reg (get_gfortran_array_sym (to_lower m) (to_lower a))"
    and "matches ifx_global_var_sym_reg (get_ifx_array_sym (to_lower m) (to_lower a))"
    and "matches flang_global_var_sym_reg (get_flang_array_sym (to_lower m) (to_lower a))"
proof -
  note m = matches_name [OF lower_name(1,2,3) [OF assms(1)]]
  note a = matches_name [OF lower_name(1,2,3) [OF assms(2)]]
  let ?n = "\<lambda>p. Not_in (CHR ''_'' # upper) # Star_not_in upper # p"
  have regs: "gfort_global_var_sym_reg = map Lit ''__'' @ ?n (map Lit ''_MOD_'' @ ?n [])"
    "ifx_global_var_sym_reg = ?n (map Lit ''_mp_'' @ ?n (map Lit ''_'' @ []))"
    "flang_global_var_sym_reg = map Lit ''_QM'' @ ?n (map Lit ''E'' @ ?n [])"
    by (simp_all add: gfort_global_var_sym_reg_def ifx_global_var_sym_reg_def flang_global_var_sym_reg_def)
  have end0: "matches [] []" by simp
  have a0: "matches (?n []) (to_lower a)" using a [OF end0] by (simp only: append_Nil2)
  have a1: "matches (?n (map Lit ''_'' @ [])) (to_lower a @ ''_'')"
    by (rule a) (simp only: matches_lits [of "''_''" "[]" "[]", unfolded append_Nil2] append_Nil2 end0)
  show "matches gfort_global_var_sym_reg (get_gfortran_array_sym (to_lower m) (to_lower a))"
    unfolding regs get_gfortran_array_sym_def matches_lits by (rule m) (simp only: matches_lits a0)
  show "matches ifx_global_var_sym_reg (get_ifx_array_sym (to_lower m) (to_lower a))"
    unfolding regs get_ifx_array_sym_def by (rule m) (simp only: matches_lits a1)
  show "matches flang_global_var_sym_reg (get_flang_array_sym (to_lower m) (to_lower a))"
    unfolding regs get_flang_array_sym_def matches_lits by (rule m) (simp only: matches_lits a0)
qed

lemma symbols_ascii:
  assumes "fortran_name m" "fortran_name a"
  shows "ascii (get_gfortran_array_sym (to_lower m) (to_lower a))"
    and "ascii (get_ifx_array_sym (to_lower m) (to_lower a))"
    and "ascii (get_flang_array_sym (to_lower m) (to_lower a))"
  using lower_name(4) [OF assms(1)] lower_name(4) [OF assms(2)]
  by (simp_all add: ascii_def get_gfortran_array_sym_def get_ifx_array_sym_def get_flang_array_sym_def of_char_def)

definition ieee_name :: "string \<Rightarrow> string \<Rightarrow> bool" where
  "ieee_name m a \<longleftrightarrow> to_lower m = ''ieee_exceptions'' \<and> to_lower a \<in> {''ieee_usual'', ''ieee_all''}"

lemma gfortran_ieee:
  assumes "fortran_name m"
    and "get_gfortran_array_sym (to_lower m) (to_lower a) = ''__ieee_exceptions_MOD_'' @ x"
  shows "to_lower m = ''ieee_exceptions'' \<and> to_lower a = x"
proof -
  let ?low = "\<lambda>c. c \<notin> set upper"
  have eq: "to_lower m @ ''_MOD_'' @ to_lower a = ''ieee_exceptions_MOD_'' @ x"
    using assms(2) by (simp add: get_gfortran_array_sym_def)
  have "takeWhile ?low (to_lower m @ ''_MOD_'' @ to_lower a) = to_lower m @ ''_''"
    using lower_name(3) [OF assms(1)] by (subst takeWhile_append2) (auto simp: upper_def)
  moreover have "takeWhile ?low (''ieee_exceptions_MOD_'' @ x) = ''ieee_exceptions'' @ ''_''"
    by (simp add: upper_def)
  ultimately have m: "to_lower m = ''ieee_exceptions''" unfolding eq by (simp only: append_same_eq)
  then show ?thesis using eq by simp
qed

lemma names_recognised:
  assumes "re2_ok fm" "fortran_name m" "fortran_name a" "\<not> ieee_name m a"
  shows "is_fortran_global_variable fm (get_gfortran_array_sym (to_lower m) (to_lower a))"
    and "is_fortran_global_variable fm (get_ifx_array_sym (to_lower m) (to_lower a))"
    and "is_fortran_global_variable fm (get_flang_array_sym (to_lower m) (to_lower a))"
proof -
  have fm: "ascii s \<Longrightarrow> fm p s = matches p s" for p s using assms(1) by (simp add: re2_ok_def)
  note reg = symbols_match [OF assms(2,3)] and asc = symbols_ascii [OF assms(2,3)]
  have u: "get_gfortran_array_sym (to_lower m) (to_lower a) \<noteq> ''__ieee_exceptions_MOD_'' @ x"
    if "x \<in> {''ieee_usual'', ''ieee_all''}" for x
    using gfortran_ieee [OF assms(2), of a x] assms(4) that by (auto simp: ieee_name_def)
  show "is_fortran_global_variable fm (get_gfortran_array_sym (to_lower m) (to_lower a))"
    using u [of "''ieee_usual''"] u [of "''ieee_all''"] fm [OF asc(1)] reg(1)
    by (simp add: is_fortran_global_variable_def)
  obtain c cs where c: "to_lower m = c # cs" "c \<noteq> CHR ''_''"
    using lower_name(1,2) [OF assms(2)] by (cases "to_lower m") auto
  have ne: "get_ifx_array_sym (to_lower m) (to_lower a) \<noteq> CHR ''_'' # x" for x
    using c by (simp add: get_ifx_array_sym_def)
  show "is_fortran_global_variable fm (get_ifx_array_sym (to_lower m) (to_lower a))"
    using fm [OF asc(2)] reg(2) ne by (simp add: is_fortran_global_variable_def)
  have nf: "get_flang_array_sym (to_lower m) (to_lower a) \<noteq> CHR ''_'' # CHR ''_'' # x" for x
    by (simp add: get_flang_array_sym_def)
  show "is_fortran_global_variable fm (get_flang_array_sym (to_lower m) (to_lower a))"
    using fm [OF asc(3)] reg(3) nf by (simp add: is_fortran_global_variable_def)
qed



end
