(* ===== verification/Par_Ctx.thy ===== *)
theory Par_Ctx
  imports Page_Sync_Proofs Fortran_Binding
begin

text \<open>
  Parallel contexts: \<^verbatim>\<open>par_ctx_base\<close> (\<^verbatim>\<open>leader.cc\<close>), the C++ class \<^verbatim>\<open>par_ctx\<close> (\<^verbatim>\<open>simple_parallel.h\<close>), and the
  C and Fortran bindings of it (\<^verbatim>\<open>c_binding.cc\<close>, \<^verbatim>\<open>fortran_binding.cc\<close>). Error paths keep the state they
  leave behind, because the flag \<^verbatim>\<open>in_parallel\<close> outlives an exception.
\<close>

section \<open>State\<close>

datatype comm = S_p_comm | S_p_comm_self

text \<open>\<open>pc_ctx\<close> is the address of \<^verbatim>\<open>m_parallel_ctx\<close>.\<close>

record par_ctx_base =
  pc_comm :: comm
  pc_reduces :: "reduce_area list"
  pc_entered :: bool
  pc_ctx :: u64

text \<open>The process: the static flag and the leader's state.\<close>

record ('h, 'x) process =
  pr_in_parallel :: bool
  pr_leader :: "('h, 'x) leader"

text \<open>What else the code depends on: MPI, \<^verbatim>\<open>getcontext\<close> and \<^verbatim>\<open>swapcontext\<close>, and the build's options.\<close>

record ('h, 'r, 'x) machine =
  mc_pf :: "('h, 'r, 'x) platform"
  mc_rank :: int
  mc_world_size :: int
  mc_getcontext_ok :: bool
  mc_swapcontext_ok :: bool
  mc_type_name :: "mpi_datatype \<Rightarrow> string"
  mc_type_size :: "mpi_datatype \<Rightarrow> int"
  mc_reduce :: "mpi_buf \<Rightarrow> mpi_buf \<Rightarrow> int \<Rightarrow> mpi_datatype \<Rightarrow> mpi_op \<Rightarrow> int \<Rightarrow> comm \<Rightarrow> 'x rank_state \<Rightarrow> int \<times> 'x rank_state"
  mc_fortran_binding :: bool
  mc_vars :: "global_variable_info list"
  mc_gathered :: "global_variable_info list list"

definition comm_size :: "('h, 'r, 'x) machine \<Rightarrow> comm \<Rightarrow> int" where
  "comm_size mc c = (case c of S_p_comm \<Rightarrow> mc_world_size mc | S_p_comm_self \<Rightarrow> 1)"

definition comm_rank :: "('h, 'r, 'x) machine \<Rightarrow> comm \<Rightarrow> int" where
  "comm_rank mc c = (case c of S_p_comm \<Rightarrow> mc_rank mc | S_p_comm_self \<Rightarrow> 0)"

definition m_root_rank :: int where
  "m_root_rank = 0"

section \<open>\<open>par_ctx_base\<close>\<close>

definition new_par_ctx_base :: "bool \<Rightarrow> u64 \<Rightarrow> reduce_area list \<Rightarrow> par_ctx_base result" where
  "new_par_ctx_base finished ctx reduces =
     assertE (\<not> finished)
       (Inr \<lparr>pc_comm = S_p_comm, pc_reduces = reduces, pc_entered = False, pc_ctx = ctx\<rparr>)"

definition set_reduces :: "reduce_area list \<Rightarrow> par_ctx_base \<Rightarrow> par_ctx_base" where
  "set_reduces reduces c = c\<lparr>pc_reduces := reduces\<rparr>"

definition get_comm :: "par_ctx_base \<Rightarrow> comm" where
  "get_comm c = pc_comm c"

fun init_reduces :: "(mpi_datatype \<Rightarrow> string) \<Rightarrow> reduce_area list \<Rightarrow> memory \<Rightarrow> memory result" where
  "init_reduces names [] mem = Inr mem"
| "init_reduces names (r # rs) mem = bindE (init_reduce_area_on_worker names r mem) (init_reduces names rs)"

text \<open>What every rank does once it runs in the parallel context.\<close>

definition after_swapcontext ::
  "('h, 'r, 'x) machine \<Rightarrow> par_ctx_base \<Rightarrow> 'x rank_state \<Rightarrow> 'x rank_state result" where
  "after_swapcontext mc c w =
     bindE (if comm_rank mc (pc_comm c) \<noteq> m_root_rank then init_reduces (mc_type_name mc) (pc_reduces c) (rs_mem w)
            else Inr (rs_mem w)) (\<lambda>mem.
       let w' = w\<lparr>rs_mem := mem\<rparr>; pf = mc_pf mc
       in if mc_fortran_binding mc then
            sync_fortran_global_variables (pf_ibcast pf) (pf_waitany pf) (pf_waitall pf)
              (comm_size mc (pc_comm c)) (mc_gathered mc) (mc_vars mc) w'
          else Inr w')"

definition nested_error :: error where
  "nested_error = Runtime (''Error: nested parallel is not supported'' @ newline)"

text \<open>
  \<^verbatim>\<open>params.exception\<close> is still \<^verbatim>\<open>nullptr\<close> when the code tests it: \<^verbatim>\<open>enter_parallel_impl\<close> runs only in
  \<^verbatim>\<open>swapcontext\<close>. The exception it returns there is not looked at.
\<close>

definition do_enter_parallel ::
  "('h, 'r, 'x) machine \<Rightarrow> bool \<Rightarrow> (par_ctx_base \<times> ('h, 'x) process, unit) send" where
  "do_enter_parallel mc enter_parallel s =
     (let c = fst s; p = snd s
      in if \<not> enter_parallel \<or> comm_size mc (pc_comm c) = 1 then
           Some ([], Inr (), c\<lparr>pc_comm := S_p_comm_self\<rparr>, p)
         else if pr_in_parallel p then Some ([], Inl nested_error, c, p)
         else
           let p1 = p\<lparr>pr_in_parallel := True\<rparr>; c1 = c\<lparr>pc_entered := True\<rparr>; exception = None
           in if \<not> mc_getcontext_ok mc then Some ([], Inl (Runtime ''Failed to getcontext, reason: ''), c1, p1)
              else (case exception of
                Some e \<Rightarrow> Some ([], Inl e, c1, p1)
              | None \<Rightarrow>
                  (case verify_reduces_no_overlap (pc_reduces c1) of
                     Inl e \<Rightarrow> Some ([], Inl e, c1, p1)
                   | Inr u \<Rightarrow>
                       if \<not> mc_swapcontext_ok mc then
                         Some ([], Inl (Runtime ''Failed to swapcontext, reason: ''), c1, p1)
                       else
                         (case leader_enter_parallel_impl (mc_pf mc) (pc_ctx c1) (pc_reduces c1) (pr_leader p1) of
                            None \<Rightarrow> None
                          | Some (out, exception', l) \<Rightarrow>
                              (case after_swapcontext mc c1 (ls_rank l) of
                                 Inl e \<Rightarrow> Some (out, Inl e, c1, p1\<lparr>pr_leader := l\<rparr>)
                               | Inr w \<Rightarrow> Some (out, Inr (), c1, p1\<lparr>pr_leader := set_rank w l\<rparr>))))))"

text \<open>Where \<^verbatim>\<open>do_exit_parallel\<close> goes on: behind the call, or in the worker's loop.\<close>

datatype continues = Behind_call | In_worker_loop

fun reduce_all ::
  "('h, 'r, 'x) machine \<Rightarrow> comm \<Rightarrow> reduce_area list \<Rightarrow> 'x rank_state \<Rightarrow> (unit result \<times> 'x rank_state) option" where
  "reduce_all mc c [] w = Some (Inr (), w)"
| "reduce_all mc c (r # rs) w =
     (case reduce_area_reduce (mc_type_size mc) (comm_rank mc) (mc_reduce mc) r c m_root_rank w of
        None \<Rightarrow> None
      | Some (Inl e) \<Rightarrow> Some (Inl e, w)
      | Some (Inr (ret, w')) \<Rightarrow>
          if ret \<noteq> MPI_SUCCESS then Some (Inl (Runtime ''Failed to reduce''), w')
          else reduce_all mc c rs w')"

text \<open>The state is the flag \<^verbatim>\<open>in_parallel\<close> of the process and its rank's state.\<close>

definition do_exit_parallel ::
  "('h, 'r, 'x) machine \<Rightarrow> par_ctx_base \<Rightarrow> bool \<times> 'x rank_state \<Rightarrow>
   (continues result \<times> bool \<times> 'x rank_state) option" where
  "do_exit_parallel mc c s =
     (if \<not> pc_entered c then Some (Inr Behind_call, s)
      else
        (case (if comm_size mc (pc_comm c) > 1 then reduce_all mc (pc_comm c) (pc_reduces c) (snd s)
               else Some (Inr (), snd s)) of
           None \<Rightarrow> None
         | Some (Inl e, w) \<Rightarrow> Some (Inl e, False, w)
         | Some (Inr u, w) \<Rightarrow>
             if comm_rank mc (pc_comm c) \<noteq> m_root_rank then Some (Inr In_worker_loop, False, w)
             else Some (Inr Behind_call, False, w)))"

section \<open>The C++ class and the C binding\<close>

definition par_ctx_ctor ::
  "('h, 'r, 'x) machine \<Rightarrow> bool \<Rightarrow> u64 \<Rightarrow> bool \<Rightarrow> reduce_area list \<Rightarrow> ('h, 'x) process \<Rightarrow>
   (msg list \<times> unit result \<times> par_ctx_base option \<times> ('h, 'x) process) option" where
  "par_ctx_ctor mc finished ctx enter_parallel reduces p =
     (case new_par_ctx_base finished ctx reduces of
        Inl e \<Rightarrow> Some ([], Inl e, None, p)
      | Inr c \<Rightarrow>
          (case do_enter_parallel mc enter_parallel (c, p) of
             None \<Rightarrow> None
           | Some (out, Inl e, c', p') \<Rightarrow> Some (out, Inl e, None, p')
           | Some (out, Inr u, c', p') \<Rightarrow> Some (out, Inr (), Some c', p')))"

record s_p_reduce_area =
  ra_type :: mpi_datatype
  ra_begin :: u64
  ra_count :: u64
  ra_op :: mpi_op

fun build_reduces :: "(mpi_datatype \<Rightarrow> int) \<Rightarrow> u64 \<Rightarrow> s_p_reduce_area list \<Rightarrow> reduce_area list result" where
  "build_reduces mpi_Type_size page_size [] = Inr []"
| "build_reduces mpi_Type_size page_size (i # is) =
     bindE (reduce_area_of_type mpi_Type_size page_size (ra_type i) (ra_begin i) (ra_count i) (ra_op i)) (\<lambda>r.
       bindE (build_reduces mpi_Type_size page_size is) (\<lambda>rs. Inr (r # rs)))"

text \<open>\<open>None\<close> in \<open>sc_comm\<close> is \<^verbatim>\<open>MPI_COMM_NULL\<close>, in \<open>sc_detail\<close> a null pointer.\<close>

record s_p_par_ctx =
  sc_comm :: "comm option"
  sc_detail :: "par_ctx_base option"

definition s_p_construct_par_ctx ::
  "('h, 'r, 'x) machine \<Rightarrow> bool \<Rightarrow> u64 \<Rightarrow> bool \<Rightarrow> s_p_reduce_area list \<Rightarrow> ('h, 'x) process \<Rightarrow>
   (msg list \<times> s_p_par_ctx result \<times> ('h, 'x) process) option" where
  "s_p_construct_par_ctx mc finished ctx enter_parallel reduce_areas p =
     (case build_reduces (mc_type_size mc) (pf_page_size (mc_pf mc)) reduce_areas of
        Inl e \<Rightarrow> Some ([], Inl e, p)
      | Inr reduces \<Rightarrow>
          (case new_par_ctx_base finished ctx [] of
             Inl e \<Rightarrow> Some ([], Inl e, p)
           | Inr c \<Rightarrow>
               (case do_enter_parallel mc enter_parallel (set_reduces reduces c, p) of
                  None \<Rightarrow> None
                | Some (out, Inl e, c', p') \<Rightarrow> Some (out, Inl e, p')
                | Some (out, Inr u, c', p') \<Rightarrow>
                    Some (out, Inr \<lparr>sc_comm = Some (get_comm c'), sc_detail = Some c'\<rparr>, p'))))"

text \<open>\<open>Inl\<close> in the result is also where the destructor throws, which ends the program.\<close>

definition s_p_destruct_par_ctx ::
  "('h, 'r, 'x) machine \<Rightarrow> s_p_par_ctx \<Rightarrow> bool \<times> 'x rank_state \<Rightarrow>
   (s_p_par_ctx \<times> continues result \<times> bool \<times> 'x rank_state) option" where
  "s_p_destruct_par_ctx mc ctx s =
     (case sc_detail ctx of
        None \<Rightarrow> Some (ctx, Inl AssertFailed, s)
      | Some c \<Rightarrow>
          (case do_exit_parallel mc c s of
             None \<Rightarrow> None
           | Some (Inl e, s') \<Rightarrow> Some (ctx, Inl Terminate, s')
           | Some (Inr In_worker_loop, s') \<Rightarrow> Some (ctx, Inr In_worker_loop, s')
           | Some (Inr Behind_call, s') \<Rightarrow>
               Some (ctx\<lparr>sc_comm := None, sc_detail := None\<rparr>, Inr Behind_call, s')))"

section \<open>The Fortran binding\<close>

record par_ctx_fortran_binding =
  fc_base :: par_ctx_base
  fc_in_parallel :: bool
  fc_ever_entered :: bool

definition s_p_f_new_ctx :: "bool \<Rightarrow> u64 \<Rightarrow> par_ctx_fortran_binding result" where
  "s_p_f_new_ctx finished ctx =
     bindE (new_par_ctx_base finished ctx [])
       (\<lambda>c. Inr \<lparr>fc_base = c, fc_in_parallel = False, fc_ever_entered = False\<rparr>)"

definition fortran_enter_parallel ::
  "('h, 'r, 'x) machine \<Rightarrow> bool \<Rightarrow> (par_ctx_fortran_binding \<times> ('h, 'x) process, unit) send" where
  "fortran_enter_parallel mc enter_parallel s =
     (let f = fst s; p = snd s
      in if fc_in_parallel f then
           Some ([], Inl (Runtime ''Error: Recursively enter Fortran parallel context again is not supported''), s)
         else if fc_ever_entered f then
           Some ([], Inl (Runtime ''Error: Re-enter Fortran parallel context is not supported''), s)
         else map_option (\<lambda>(out, r, c, p'). (out, r, \<lparr>fc_base = c, fc_in_parallel = True, fc_ever_entered = True\<rparr>, p'))
           (do_enter_parallel mc enter_parallel (fc_base f, p)))"

definition fortran_exit_parallel ::
  "('h, 'r, 'x) machine \<Rightarrow> par_ctx_fortran_binding \<Rightarrow> bool \<times> 'x rank_state \<Rightarrow>
   (par_ctx_fortran_binding \<times> continues result \<times> bool \<times> 'x rank_state) option" where
  "fortran_exit_parallel mc f s =
     (if fc_in_parallel f then
        map_option (\<lambda>(r, s'). (f\<lparr>fc_in_parallel := False\<rparr>, r, s')) (do_exit_parallel mc (fc_base f) s)
      else Some (f, Inr Behind_call, s))"

definition s_p_f_ctx_begin_parallel ::
  "('h, 'r, 'x) machine \<Rightarrow> (par_ctx_fortran_binding \<times> ('h, 'x) process, unit) send" where
  "s_p_f_ctx_begin_parallel mc = fortran_enter_parallel mc True"

text \<open>
  \<^verbatim>\<open>delete\<close> runs the destructor, which exits a context that is still entered; an exception there ends the
  program.
\<close>

definition s_p_f_del_ctx ::
  "('h, 'r, 'x) machine \<Rightarrow> par_ctx_fortran_binding \<Rightarrow> bool \<times> 'x rank_state \<Rightarrow>
   (continues result \<times> bool \<times> 'x rank_state) option" where
  "s_p_f_del_ctx mc f s =
     (if fc_in_parallel f then
        (case fortran_exit_parallel mc f s of
           None \<Rightarrow> None
         | Some (f', Inl e, s') \<Rightarrow> Some (Inl Terminate, s')
         | Some (f', Inr k, s') \<Rightarrow> Some (Inr k, s'))
      else Some (Inr Behind_call, s))"

definition fortran_add_reduce_area ::
  "(cfi_type \<Rightarrow> int) \<Rightarrow> ('h, 'r, 'x) machine \<Rightarrow> cfi_cdesc \<Rightarrow> mpi_op \<Rightarrow> par_ctx_fortran_binding \<Rightarrow>
   par_ctx_fortran_binding result" where
  "fortran_add_reduce_area code mc array op f =
     bindE (s_p_f_ctx_add_reduce_area code (mc_type_size mc) (pf_page_size (mc_pf mc)) array op (pc_reduces (fc_base f)))
       (\<lambda>rs. Inr (f\<lparr>fc_base := set_reduces rs (fc_base f)\<rparr>))"

end
