(* ===== verification/Par_Ctx_Proofs.thy ===== *)
theory Par_Ctx_Proofs
  imports Par_Ctx Protocol
begin

text \<open>
  What parallel contexts promise: at most one is entered at a time, an inactive one does nothing, and
  what is left behind when entering fails.
\<close>

section \<open>Entering\<close>

lemma do_enter_inactive:
  "\<not> e \<or> comm_size mc (pc_comm c) = 1 \<Longrightarrow> do_enter_parallel mc e (c, p) = Some ([], Inr (), c\<lparr>pc_comm := S_p_comm_self\<rparr>, p)"
  by (auto simp: do_enter_parallel_def Let_def)

lemma do_enter_nested:
  "e \<Longrightarrow> comm_size mc (pc_comm c) \<noteq> 1 \<Longrightarrow> pr_in_parallel p \<Longrightarrow>
   do_enter_parallel mc e (c, p) = Some ([], Inl nested_error, c, p)"
  by (simp add: do_enter_parallel_def)

lemma do_enter_flag:
  assumes "do_enter_parallel mc e (c, p) = Some (out, r, c', p')" "\<not> pc_entered c"
  shows "pc_entered c' \<longrightarrow> \<not> pr_in_parallel p \<and> pr_in_parallel p'"
    and "pr_in_parallel p \<longrightarrow> pr_in_parallel p'"
  using assms
  by (auto simp: do_enter_parallel_def Let_def split: if_splits sum.splits option.splits prod.splits)

text \<open>The way into a parallel context, up to what the leader's side of it did.\<close>

definition can_enter :: "('h, 'r, 'x) machine \<Rightarrow> ('h, 'x) process \<Rightarrow> bool" where
  "can_enter mc p \<longleftrightarrow> mc_world_size mc \<noteq> 1 \<and> \<not> pr_in_parallel p \<and> mc_getcontext_ok mc"

abbreviation fresh_ctx :: "u64 \<Rightarrow> reduce_area list \<Rightarrow> par_ctx_base" where
  "fresh_ctx ctx reduces \<equiv> \<lparr>pc_comm = S_p_comm, pc_reduces = reduces, pc_entered = False, pc_ctx = ctx\<rparr>"

lemma do_enter_reduces_overlap:
  assumes "can_enter mc p" "verify_reduces_no_overlap reduces = Inl e"
  shows "do_enter_parallel mc True (fresh_ctx ctx reduces, p)
    = Some ([], Inl e, (fresh_ctx ctx reduces)\<lparr>pc_entered := True\<rparr>, p\<lparr>pr_in_parallel := True\<rparr>)"
  using assms by (simp add: do_enter_parallel_def can_enter_def comm_size_def Let_def)

lemma do_enter_switches:
  assumes "can_enter mc p" "verify_reduces_no_overlap reduces = Inr ()" "mc_swapcontext_ok mc"
    and "leader_enter_parallel_impl (mc_pf mc) ctx reduces (pr_leader p) = Some (out, exception, l)"
    and "mc_rank mc = 0" "\<not> mc_fortran_binding mc"
  shows "do_enter_parallel mc True (fresh_ctx ctx reduces, p)
    = Some (out, Inr (), (fresh_ctx ctx reduces)\<lparr>pc_entered := True\<rparr>,
        p\<lparr>pr_in_parallel := True, pr_leader := set_rank (ls_rank l) l\<rparr>)"
  using assms
  by (simp add: do_enter_parallel_def can_enter_def comm_size_def Let_def after_swapcontext_def comm_rank_def m_root_rank_def)

section \<open>At most one context is entered\<close>

text \<open>
  The root's program as steps: it constructs contexts (an exception of the constructor leaves none
  behind), destroys any live one, and runs its own code, which changes the leader's state at will.
\<close>

inductive ctx_step ::
  "('h, 'r, 'x) machine \<Rightarrow> par_ctx_base list \<times> ('h, 'x) process \<Rightarrow> bool \<Rightarrow> par_ctx_base list \<times> ('h, 'x) process \<Rightarrow> bool"
  for mc :: "('h, 'r, 'x) machine" where
  Construct:
    "par_ctx_ctor mc finished ctx e reduces p = Some (out, r, new, p') \<Longrightarrow>
     ctx_step mc (cs, p) True ((case new of None \<Rightarrow> cs | Some c \<Rightarrow> c # cs), p')"
| Destroy:
    "do_exit_parallel mc c (pr_in_parallel p, ls_rank (pr_leader p)) = Some (Inr Behind_call, flag, w) \<Longrightarrow>
     ctx_step mc (cs1 @ c # cs2, p) True
       (cs1 @ cs2, p\<lparr>pr_in_parallel := flag, pr_leader := set_rank w (pr_leader p)\<rparr>)"
| User_code: "ctx_step mc (cs, p) False (cs, p\<lparr>pr_leader := l\<rparr>)"

inductive_cases ctx_stepE: "ctx_step mc s b t"

definition ctx_inv :: "par_ctx_base list \<times> ('h, 'x) process \<Rightarrow> bool" where
  "ctx_inv s \<longleftrightarrow> length (filter pc_entered (fst s)) \<le> 1 \<and>
     (filter pc_entered (fst s) \<noteq> [] \<longrightarrow> pr_in_parallel (snd s))"

lemma ctor_inv:
  assumes "ctx_inv (cs, p)" "par_ctx_ctor mc finished ctx e reduces p = Some (out, r, new, p')"
  shows "ctx_inv ((case new of None \<Rightarrow> cs | Some c \<Rightarrow> c # cs), p')"
proof (cases finished)
  case True
  then show ?thesis using assms by (auto simp: par_ctx_ctor_def new_par_ctx_base_def)
next
  case False
  then obtain c' where d: "do_enter_parallel mc e (fresh_ctx ctx reduces, p) = Some (out, r, c', p')"
    "new = (case r of Inl e \<Rightarrow> None | Inr u \<Rightarrow> Some c')"
    using assms(2) by (auto simp: par_ctx_ctor_def new_par_ctx_base_def split: option.splits sum.splits)
  have f: "pc_entered c' \<longrightarrow> \<not> pr_in_parallel p \<and> pr_in_parallel p'" "pr_in_parallel p \<longrightarrow> pr_in_parallel p'"
    using do_enter_flag [OF d(1)] by simp_all
  show ?thesis
    using assms(1) f by (cases r; cases "pc_entered c'") (auto simp: ctx_inv_def d(2))
qed

lemma exit_flag:
  assumes "do_exit_parallel mc c s = Some (r, flag, w)"
  shows "flag = (if pc_entered c then False else fst s)"
  using assms
  by (auto simp: do_exit_parallel_def split: if_splits option.splits sum.splits prod.splits)

lemma ctx_step_inv: "ctx_inv s \<Longrightarrow> ctx_step mc s b t \<Longrightarrow> ctx_inv t"
proof (elim ctx_stepE)
  fix finished ctx e reduces p out r new p' cs
  assume i: "ctx_inv s" and eq: "s = (cs, p)" "t = ((case new of None \<Rightarrow> cs | Some c \<Rightarrow> c # cs), p')"
    and c: "par_ctx_ctor mc finished ctx e reduces p = Some (out, r, new, p')"
  show "ctx_inv t" unfolding eq(2) by (rule ctor_inv [OF i [unfolded eq(1)] c])
next
  fix c p flag w cs1 cs2
  assume i: "ctx_inv s" and eq: "s = (cs1 @ c # cs2, p)"
      "t = (cs1 @ cs2, p\<lparr>pr_in_parallel := flag, pr_leader := set_rank w (pr_leader p)\<rparr>)"
    and x: "do_exit_parallel mc c (pr_in_parallel p, ls_rank (pr_leader p)) = Some (Inr Behind_call, flag, w)"
  show "ctx_inv t" using i exit_flag [OF x] by (auto simp: ctx_inv_def eq split: if_splits)
qed (auto simp: ctx_inv_def)

interpretation contexts: transition_invariant "\<lambda>s. fst s = []" "ctx_step mc" ctx_inv for mc
  by unfold_locales (simp add: ctx_inv_def, erule (1) ctx_step_inv)

text \<open>
  C18. On the root at most one parallel context is entered at any time, through any sequence of
  constructions, failed ones included, and destructions in any order; and while one is entered, every
  attempt to enter another throws the nested error, sends nothing and changes nothing.
\<close>

theorem contexts_exclusive:
  assumes "reachable (ctx_step mc) ([], p0) (cs, p)"
  shows "length (filter pc_entered cs) \<le> 1 \<and>
    (filter pc_entered cs \<noteq> [] \<and> mc_world_size mc \<noteq> 1 \<longrightarrow>
       par_ctx_ctor mc False ctx True reduces p = Some ([], Inl nested_error, None, p))"
proof -
  have "ctx_inv (cs, p)" by (rule contexts.reachable_inv [OF _ assms]) simp
  then show ?thesis
    by (auto simp: ctx_inv_def par_ctx_ctor_def new_par_ctx_base_def do_enter_nested comm_size_def)
qed

section \<open>An inactive context\<close>

text \<open>
  A context that is not to enter, or runs on a single rank, sends nothing and changes nothing but
  its communicator, which is that of the rank alone; leaving it does nothing either.
\<close>

theorem inactive_context:
  assumes "\<not> e \<or> mc_world_size mc = 1"
  shows "\<exists>c. par_ctx_ctor mc False ctx e reduces p = Some ([], Inr (), Some c, p) \<and> get_comm c = S_p_comm_self \<and>
    do_exit_parallel mc c s = Some (Inr Behind_call, s)"
proof -
  have "do_enter_parallel mc e (fresh_ctx ctx reduces, p)
      = Some ([], Inr (), (fresh_ctx ctx reduces)\<lparr>pc_comm := S_p_comm_self\<rparr>, p)"
    using assms by (intro do_enter_inactive) (simp add: comm_size_def)
  then show ?thesis
    by (simp add: par_ctx_ctor_def new_par_ctx_base_def get_comm_def do_exit_parallel_def)
qed

section \<open>Failures on the way in\<close>

text \<open>
  C20. When reduce areas overlap, the constructor throws after it has set \<^verbatim>\<open>in_parallel\<close>, and no destructor
  resets the flag: from then on every attempt to enter a parallel context throws the nested error,
  although none is entered.
\<close>

theorem overlap_blocks_later_contexts:
  assumes "can_enter mc p" "verify_reduces_no_overlap reduces = Inl e"
  shows "\<exists>p'. par_ctx_ctor mc False ctx True reduces p = Some ([], Inl e, None, p') \<and>
    (\<forall>ctx' reduces'. par_ctx_ctor mc False ctx' True reduces' p' = Some ([], Inl nested_error, None, p'))"
proof -
  have "par_ctx_ctor mc False ctx True reduces p = Some ([], Inl e, None, p\<lparr>pr_in_parallel := True\<rparr>)"
    using do_enter_reduces_overlap [OF assms] by (simp add: par_ctx_ctor_def new_par_ctx_base_def)
  moreover have "par_ctx_ctor mc False ctx' True reduces' (p\<lparr>pr_in_parallel := True\<rparr>)
      = Some ([], Inl nested_error, None, p\<lparr>pr_in_parallel := True\<rparr>)" for ctx' reduces'
    using assms(1) by (simp add: par_ctx_ctor_def new_par_ctx_base_def do_enter_nested comm_size_def can_enter_def)
  ultimately show ?thesis by blast
qed

lemma failing_selection:
  assumes "select_pages pf reduces (use_mpi_heap pf st) = Some ([], Inl e, use_mpi_heap pf st)"
  shows "\<exists>st'. leader_enter_parallel_impl pf ctx reduces st =
    Some ([Tag_msg (tag_value Tag_enter_parallel), Size_msg (of_nat (length (memory_operations (ls_mem (use_mpi_heap pf st))))),
        Ops_msg (ucast (sizeof_mem_ops_t * of_nat (length (memory_operations (ls_mem (use_mpi_heap pf st))))))
          (memory_operations (ls_mem (use_mpi_heap pf st))),
        Stack_msg (ucast (ma_size (pf_fake_stack pf)))
          (load_bytes (rs_mem (ls_rank (use_mpi_heap pf st))) (ma_data (pf_fake_stack pf)) (unat (ma_size (pf_fake_stack pf))))],
      Inl e, st')"
proof -
  let ?st = "use_mpi_heap pf st"
  let ?st1 = "?st\<lparr>ls_mem := (ls_mem ?st)\<lparr>memory_operations := []\<rparr>\<rparr>"
  have "select_pages pf reduces ?st1 = Some ([], Inl e, ?st1)"
    using assms(1) by (simp add: select_pages_def)
  then have "thenS (send_heap pf reduces) (thenS (send [Ctx_msg ctx]) (leader_clear_soft_dirty pf)) ?st1
      = Some ([], Inl e, ?st1)"
    by (simp add: thenS_def send_heap_def bindS_def)
  then show ?thesis
    by (simp add: leader_enter_parallel_impl_def thenS_eq send_rpc_tag_def send_def send_mem_ops_def send_stack_def Let_def)
qed


lemma stranded_worker:
  assumes "48 * length ops < INT_MAX" "perform_mem_ops (pf_ndebug pf) (pf_kernel pf) ops w = Inr w1"
    and "pf_fake_stack pf = stack"
  shows "worker_loop pf [Tag_msg (tag_value Tag_enter_parallel), Size_msg (of_nat (length ops)),
    Ops_msg (ucast (sizeof_mem_ops_t * of_nat (length ops))) ops, Stack_msg (ucast (ma_size stack)) bs] w = None"
proof -
  have len: "unat (of_nat (length ops) :: u64) = length ops"
    using assms(1) by (intro unat_of_nat_64) (simp add: INT_MAX_def)
  have "unat (sizeof_mem_ops_t * of_nat (length ops)) = 48 * length ops"
    using assms(1) len by (subst unat_mult_nw) (simp_all add: sizeof_mem_ops_t_def INT_MAX_def)
  then have small: "sizeof_mem_ops_t * of_nat (length ops) < int_max"
    using assms(1) by (simp add: word_less_nat_alt)
  have ops: "recv_and_perform_mem_ops pf (Size_msg (of_nat (length ops)) #
      Ops_msg (ucast (sizeof_mem_ops_t * of_nat (length ops))) ops # rest) w = Some (Inr (), rest, w1)" for rest
    using small len assms(2) by (simp add: recv_and_perform_mem_ops_def bindR_eq receive_eq lift_result_def)
  have stk: "\<exists>w2. recv_stack pf [Stack_msg (ucast (ma_size stack)) bs] w1 = Some (Inr (), [], w2)"
    using assms(3) by (simp add: recv_stack_def bindR_eq receive_eq Let_def)
  have "recv_heap pf [] w2 = None" for w2 by (simp add: recv_heap_def recv_dirty_page_def bindR_def receive_blocks)
  then have "worker_receive pf (Size_msg (of_nat (length ops)) #
      Ops_msg (ucast (sizeof_mem_ops_t * of_nat (length ops))) ops # [Stack_msg (ucast (ma_size stack)) bs]) w = None"
    using stk ops unfolding worker_receive_def bindR_def by auto
  then show ?thesis by (subst worker_loop_tag) (simp add: worker_enter_parallel_impl_def bindR_def)
qed

text \<open>
  C19. An exception in the leader's synchronisation is lost, and the workers are stranded: when the
  selection of the pages throws (the page map cannot be read, say), the constructor returns as if the
  context were entered, with what it has sent until then, and a worker that receives that waits for
  ever.
\<close>

theorem lost_exception_strands_worker:
  assumes "can_enter mc p" "verify_reduces_no_overlap reduces = Inr ()" "mc_swapcontext_ok mc"
    and "mc_rank mc = 0" "\<not> mc_fortran_binding mc"
    and "select_pages (mc_pf mc) reduces (use_mpi_heap (mc_pf mc) (pr_leader p))
      = Some ([], Inl e, use_mpi_heap (mc_pf mc) (pr_leader p))"
    and "pf_fake_stack pf = pf_fake_stack (mc_pf mc)"
    and "48 * length (memory_operations (ls_mem (use_mpi_heap (mc_pf mc) (pr_leader p)))) < INT_MAX"
    and "perform_mem_ops (pf_ndebug pf) (pf_kernel pf)
      (memory_operations (ls_mem (use_mpi_heap (mc_pf mc) (pr_leader p)))) w = Inr w1"
  shows "\<exists>out c p'. par_ctx_ctor mc False ctx True reduces p = Some (out, Inr (), Some c, p') \<and>
    pc_entered c \<and> worker_loop pf out w = None"
proof -
  obtain out l where out: "leader_enter_parallel_impl (mc_pf mc) ctx reduces (pr_leader p) = Some (out, Inl e, l)"
    "worker_loop pf out w = None"
    using failing_selection [OF assms(6), of ctx] stranded_worker [OF assms(8,9,7)] by auto
  show ?thesis
    using do_enter_switches [OF assms(1-3) out(1) assms(4,5)] out(2)
    by (simp add: par_ctx_ctor_def new_par_ctx_base_def)
qed

section \<open>Fortran contexts\<close>

text \<open>
  A Fortran context enters at most once: whether or not the first attempt succeeded, any later
  attempt, before or after an exit, throws, sends nothing and changes nothing.
\<close>

theorem fortran_context_enters_once:
  assumes "fortran_enter_parallel mc e (f, p) = Some (out, r, f', p')" "\<not> fc_in_parallel f" "\<not> fc_ever_entered f"
    and "fortran_exit_parallel mc f' s = Some (f'', r', s')"
  shows "\<exists>msg. fortran_enter_parallel mc e' (f', q) = Some ([], Inl (Runtime msg), f', q) \<and>
    (\<exists>msg. fortran_enter_parallel mc e' (f'', q) = Some ([], Inl (Runtime msg), f'', q))"
proof -
  have f: "fc_in_parallel f'" "fc_ever_entered f'"
    using assms(1-3) by (auto simp: fortran_enter_parallel_def)
  then have "\<not> fc_in_parallel f''" "fc_ever_entered f''"
    using assms(4) by (auto simp: fortran_exit_parallel_def)
  then show ?thesis using f by (simp add: fortran_enter_parallel_def)
qed


section \<open>Witnesses\<close>

definition demo_mc :: "(unit, nat, nat multiset \<times> nat) platform \<Rightarrow> (unit, nat, nat multiset \<times> nat) machine" where
  "demo_mc pf = \<lparr>mc_pf = pf, mc_rank = 0, mc_world_size = 2, mc_getcontext_ok = True,
     mc_swapcontext_ok = True, mc_type_name = (\<lambda>t. []), mc_type_size = (\<lambda>t. 8),
     mc_reduce = (\<lambda>a b n t op root c w. (0, w)), mc_fortran_binding = False, mc_vars = [], mc_gathered = []\<rparr>"

definition demo_process :: "(unit, nat multiset \<times> nat) process" where
  "demo_process = \<lparr>pr_in_parallel = False, pr_leader = demo_leader\<rparr>"

lemma demo_mc_simps [simp]:
  "mc_pf (demo_mc pf) = pf" "mc_rank (demo_mc pf) = 0" "mc_world_size (demo_mc pf) = 2"
  "mc_getcontext_ok (demo_mc pf)" "mc_swapcontext_ok (demo_mc pf)" "\<not> mc_fortran_binding (demo_mc pf)"
  "\<not> pr_in_parallel demo_process" "pr_leader demo_process = demo_leader"
  by (simp_all add: demo_mc_def demo_process_def)

lemma demo_can_enter: "can_enter (demo_mc pf) demo_process"
  by (simp add: can_enter_def)

lemma no_reduces: "verify_reduces_no_overlap [] = Inr ()"
  by (simp add: verify_reduces_no_overlap_def verify_outer.simps)

lemma demo_entered:
  "\<exists>out c p. par_ctx_ctor (demo_mc (demo_pf (\<lambda>a. 7))) False 9 True [] demo_process = Some (out, Inr (), Some c, p) \<and> pc_entered c"
proof -
  have "leader_ok demo_outstanding rs_mem demo_entry (demo_pf (\<lambda>a. 7)) [] (use_mpi_heap (demo_pf (\<lambda>a. 7)) demo_leader)"
    using demo_leader_ok by (simp add: demo_use_heap)
  then obtain out l where "leader_enter_parallel_impl (demo_pf (\<lambda>a. 7)) 9 [] demo_leader = Some (out, Inr (), l)"
    using leader_sends [of demo_outstanding rs_mem demo_entry "demo_pf (\<lambda>a. 7)" "[]" demo_leader 9] by blast
  then show ?thesis
    using do_enter_switches [OF demo_can_enter [of "demo_pf (\<lambda>a. 7)"] no_reduces, of 9 out "Inr ()" l]
    by (simp add: par_ctx_ctor_def new_par_ctx_base_def)
qed

theorem contexts_exclusive_witness:
  "\<exists>c p. reachable (ctx_step (demo_mc (demo_pf (\<lambda>a. 7)))) ([], demo_process) ([c], p) \<and> pc_entered c \<and>
    par_ctx_ctor (demo_mc (demo_pf (\<lambda>a. 7))) False 10 True [] p = Some ([], Inl nested_error, None, p)"
proof -
  let ?mc = "demo_mc (demo_pf (\<lambda>a. 7))"
  obtain out c p where c: "par_ctx_ctor ?mc False 9 True [] demo_process = Some (out, Inr (), Some c, p)" "pc_entered c"
    using demo_entered by blast
  have "ctx_step ?mc ([], demo_process) True ([c], p)" using Construct [OF c(1), of "[]"] by simp
  then have r: "reachable (ctx_step ?mc) ([], demo_process) ([c], p)" using run_here run_work by metis
  have "par_ctx_ctor ?mc False 10 True [] p = Some ([], Inl nested_error, None, p)"
    using contexts_exclusive [OF r, of 10 "[]"] c(2) by simp
  then show ?thesis using r c(2) by blast
qed

theorem inactive_context_witness:
  "\<exists>c. par_ctx_ctor (demo_mc (demo_pf (\<lambda>a. 7))) False 9 False [] demo_process = Some ([], Inr (), Some c, demo_process) \<and>
    get_comm c = S_p_comm_self \<and>
    do_exit_parallel (demo_mc (demo_pf (\<lambda>a. 7))) c (False, demo_rank (\<lambda>a. 7)) = Some (Inr Behind_call, False, demo_rank (\<lambda>a. 7))"
  by (rule inactive_context) simp

lemma demo_overlap: "\<exists>e. verify_reduces_no_overlap [demo_reduce 0x1000 64, demo_reduce 0x1008 64] = Inl e"
  by (simp add: verify_reduces_no_overlap_def verify_outer.simps verify_inner.simps demo_reduce_def reduce_mem_area_def
      mem_area_overlap_def ma_back_def)

theorem overlap_blocks_later_contexts_witness:
  "\<exists>e p'. par_ctx_ctor (demo_mc (demo_pf (\<lambda>a. 7))) False 9 True [demo_reduce 0x1000 64, demo_reduce 0x1008 64] demo_process
      = Some ([], Inl e, None, p') \<and>
    par_ctx_ctor (demo_mc (demo_pf (\<lambda>a. 7))) False 9 True [] p' = Some ([], Inl nested_error, None, p')"
  using overlap_blocks_later_contexts [OF demo_can_enter] demo_overlap by metis

definition blind_pf :: "(unit, nat, nat multiset \<times> nat) platform" where
  "blind_pf = (demo_pf (\<lambda>a. 7))\<lparr>pf_pread := (\<lambda>w off n. None)\<rparr>"

lemma blind_selects: "\<exists>e. select_pages blind_pf [] demo_leader = Some ([], Inl e, demo_leader)"
proof -
  have b: "\<forall>h \<in> set [()]. \<forall>b \<in> set (one_block h). block_ok 4096 b"
    using demo_scan_ok by (simp add: scan_ok_def)
  have "get_zero_and_dirty_pages 4096 8 mem (\<lambda>off n. None) one_block demo_intervals [()] []
      = Inl (Runtime ''Failed to read /proc/self/pagemap, reason: '')" for mem
    using visit_heaps_ok [OF b, of "{}"]
    by (simp add: get_zero_and_dirty_pages_def one_block_pages demo_intervals_def scan_range_def get_pte_range_def
        pagemap_read_def)
  then show ?thesis by (simp add: select_pages_def blind_pf_def)
qed

theorem lost_exception_strands_worker_witness:
  "\<exists>out c p'. par_ctx_ctor (demo_mc blind_pf) False 9 True [] demo_process = Some (out, Inr (), Some c, p') \<and>
    pc_entered c \<and> worker_loop blind_pf out (demo_rank (\<lambda>a. 0)) = None"
proof -
  have h: "use_mpi_heap blind_pf demo_leader = demo_leader" by (simp add: use_mpi_heap_def demo_leader_def)
  obtain e where "select_pages blind_pf [] demo_leader = Some ([], Inl e, demo_leader)" using blind_selects by blast
  then show ?thesis
    using lost_exception_strands_worker [OF demo_can_enter [of blind_pf] no_reduces, of e blind_pf
        "demo_rank (\<lambda>a. 0)" "demo_rank (\<lambda>a. 0)" 9]
    by (simp add: h)
qed

theorem fortran_context_enters_once_witness:
  "\<exists>f'. fortran_enter_parallel (demo_mc (demo_pf (\<lambda>a. 7))) False
      (\<lparr>fc_base = fresh_ctx 9 [], fc_in_parallel = False, fc_ever_entered = False\<rparr>, demo_process)
      = Some ([], Inr (), f', demo_process) \<and>
    (\<exists>msg. fortran_enter_parallel (demo_mc (demo_pf (\<lambda>a. 7))) True (f', demo_process)
      = Some ([], Inl (Runtime msg), f', demo_process))"
proof -
  let ?mc = "demo_mc (demo_pf (\<lambda>a. 7))"
  let ?f = "\<lparr>fc_base = fresh_ctx 9 [], fc_in_parallel = False, fc_ever_entered = False\<rparr>"
  let ?f' = "\<lparr>fc_base = (fresh_ctx 9 [])\<lparr>pc_comm := S_p_comm_self\<rparr>, fc_in_parallel = True, fc_ever_entered = True\<rparr>"
  have e: "fortran_enter_parallel ?mc False (?f, demo_process) = Some ([], Inr (), ?f', demo_process)"
    by (simp add: fortran_enter_parallel_def do_enter_inactive)
  have x: "fortran_exit_parallel ?mc ?f' (False, demo_rank (\<lambda>a. 7))
      = Some (?f'\<lparr>fc_in_parallel := False\<rparr>, Inr Behind_call, False, demo_rank (\<lambda>a. 7))"
    by (simp add: fortran_exit_parallel_def do_exit_parallel_def)
  have "\<exists>msg. fortran_enter_parallel ?mc True (?f', demo_process) = Some ([], Inl (Runtime msg), ?f', demo_process)"
    using fortran_context_enters_once [OF e _ _ x, of True demo_process] by auto
  then show ?thesis using e by blast
qed

end
