(* ===== verification/Reduce_Region.thy ===== *)
theory Reduce_Region
  imports Par_Ctx_Proofs
begin

text \<open>
  What the reduce areas of a parallel context hold when it ends: \<^verbatim>\<open>bigmpi::Reduce\<close> with counts beyond \<^verbatim>\<open>int\<close>,
  the loop over the areas in \<^verbatim>\<open>do_exit_parallel\<close>, and the two together with the identity the workers
  started from.
\<close>

section \<open>Elements in memory\<close>

text \<open>\<open>val m a\<close> is the element at address \<open>a\<close>: a function of its \<open>es\<close> bytes.\<close>

locale element_view =
  fixes es :: nat and val :: "memory \<Rightarrow> u64 \<Rightarrow> 'e"
  assumes val_local: "(\<And>x. x \<in> block a es \<Longrightarrow> m x = m' x) \<Longrightarrow> val m a = val m' a"

text \<open>
  The effect of a reduction on \<open>n\<close> elements at \<open>buf\<close>: each becomes the combination of the own one with
  those of the other ranks, in the order of the ranks, and no other byte changes.
\<close>

definition combined :: "('e \<Rightarrow> 'e \<Rightarrow> 'e) \<Rightarrow> (memory \<Rightarrow> u64 \<Rightarrow> 'e) \<Rightarrow> memory list \<Rightarrow> memory \<Rightarrow> u64 \<Rightarrow> 'e" where
  "combined f val others mem a = foldl f (val mem a) (map (\<lambda>m. val m a) others)"

definition reduced ::
  "nat \<Rightarrow> ('e \<Rightarrow> 'e \<Rightarrow> 'e) \<Rightarrow> (memory \<Rightarrow> u64 \<Rightarrow> 'e) \<Rightarrow> memory list \<Rightarrow> u64 \<Rightarrow> nat \<Rightarrow> memory \<Rightarrow> memory \<Rightarrow> bool" where
  "reduced es f val others buf n mem mem' \<longleftrightarrow>
     (\<forall>i < n. val mem' (buf + of_nat (i * es)) = combined f val others mem (buf + of_nat (i * es))) \<and>
     (\<forall>x. x \<notin> block buf (n * es) \<longrightarrow> mem' x = mem x)"

lemma block_in: "i < n \<Longrightarrow> block (buf + of_nat (i * es)) es \<subseteq> block buf (n * es)"
proof
  fix x
  assume i: "i < n" and "x \<in> block (buf + of_nat (i * es)) es"
  then obtain j where j: "x = buf + of_nat (i * es) + of_nat j" "j < es" by (auto simp: block_def)
  have "Suc i * es \<le> n * es" using i by (intro mult_le_mono1) simp
  then have "i * es + j < n * es" using j(2) by simp
  then show "x \<in> block buf (n * es)" unfolding block_def using j(1) by (intro CollectI exI [of _ "i * es + j"]) simp
qed

lemma block_apart:
  assumes "m + n \<le> 2 ^ 64"
  shows "block buf m \<inter> block (buf + of_nat m) n = {}"
proof (rule equals0I)
  fix x
  assume x: "x \<in> block buf m \<inter> block (buf + of_nat m) n"
  obtain i where i: "x = buf + of_nat i" "i < m" using x by (auto simp: block_def)
  obtain j where j: "x = buf + of_nat m + of_nat j" "j < n" using x by (auto simp: block_def)
  note ij = i j
  have "(of_nat i :: u64) = of_nat (m + j)" using i(1) j(1) by (simp add: add.assoc)
  then have "i = m + j" using ij assms unat_of_nat_64 [of i] unat_of_nat_64 [of "m + j"] by simp
  then show False using ij(2) by simp
qed

context element_view
begin

lemma val_outside:
  assumes "\<And>x. x \<notin> S \<Longrightarrow> m' x = m x" "block a es \<inter> S = {}"
  shows "val m' a = val m a"
  using assms by (intro val_local) blast

lemma combined_outside:
  assumes "\<And>x. x \<notin> S \<Longrightarrow> m' x = m x" "block a es \<inter> S = {}"
  shows "combined f val others m' a = combined f val others m a"
  using val_outside [OF assms] by (simp add: combined_def)

lemma reduced_append:
  assumes "reduced es f val others buf m mem mem1" "reduced es f val others (buf + of_nat (m * es)) n mem1 mem2"
    and "(m + n) * es \<le> 2 ^ 64"
  shows "reduced es f val others buf (m + n) mem mem2"
  unfolding reduced_def
proof (intro conjI allI impI)
  let ?first = "block buf (m * es)" and ?second = "block (buf + of_nat (m * es)) (n * es)"
  have apart: "?first \<inter> ?second = {}" using assms(3) by (intro block_apart) (simp add: add_mult_distrib)
  have out: "x \<notin> ?first \<Longrightarrow> mem1 x = mem x" "x \<notin> ?second \<Longrightarrow> mem2 x = mem1 x" for x
    using assms(1,2) by (auto simp: reduced_def)
  show "mem2 x = mem x" if "x \<notin> block buf ((m + n) * es)" for x
    using that out by (simp add: add_mult_distrib block_split)
  fix i
  assume "i < m + n"
  let ?a = "buf + of_nat (i * es)"
  show "val mem2 ?a = combined f val others mem ?a"
  proof (cases "i < m")
    case True
    then have "block ?a es \<inter> ?second = {}" using block_in [OF True, of buf es] apart by blast
    then show ?thesis using val_outside [of ?second mem2 mem1 ?a] out assms(1) True by (simp add: reduced_def)
  next
    case False
    then obtain j where j: "i = m + j" "j < n" using \<open>i < m + n\<close> by (metis add_less_cancel_left le_Suc_ex not_less)
    have a: "?a = buf + of_nat (m * es) + of_nat (j * es)" by (simp add: j(1) algebra_simps)
    have "block ?a es \<inter> ?first = {}" using block_in [OF j(2), of "buf + of_nat (m * es)" es] apart unfolding a by blast
    then show ?thesis using combined_outside [of ?first mem1 mem ?a] out assms(2) j(2) unfolding a by (simp add: reduced_def)
  qed
qed

end

section \<open>\<open>bigmpi::Reduce\<close>\<close>

text \<open>
  What \<^verbatim>\<open>MPI_Reduce\<close> promises the root, whose result is combined with what the other ranks pass (\<open>others\<close>
  are their memories), and a rank that is not the root.
\<close>

type_synonym 'x mpi_reduce =
  "mpi_buf \<Rightarrow> mpi_buf \<Rightarrow> int \<Rightarrow> mpi_datatype \<Rightarrow> mpi_op \<Rightarrow> int \<Rightarrow> comm \<Rightarrow> 'x rank_state \<Rightarrow> int \<times> 'x rank_state"

definition reduces_at_root ::
  "'x mpi_reduce \<Rightarrow> nat \<Rightarrow> ('e \<Rightarrow> 'e \<Rightarrow> 'e) \<Rightarrow> (memory \<Rightarrow> u64 \<Rightarrow> 'e) \<Rightarrow> memory list \<Rightarrow> mpi_datatype \<Rightarrow> mpi_op \<Rightarrow> int \<Rightarrow>
   comm \<Rightarrow> bool" where
  "reduces_at_root mpi_Reduce es f val others dt op root c \<longleftrightarrow>
     (\<forall>buf n w. 0 < n \<longrightarrow> n \<le> INT_MAX \<longrightarrow> n * es \<le> 2 ^ 64 \<longrightarrow>
        (\<exists>w'. mpi_Reduce In_Place (Buf buf) (int n) dt op root c w = (MPI_SUCCESS, w') \<and>
           reduced es f val others buf n (rs_mem w) (rs_mem w')))"

definition sends_to_root :: "'x mpi_reduce \<Rightarrow> mpi_datatype \<Rightarrow> mpi_op \<Rightarrow> int \<Rightarrow> comm \<Rightarrow> bool" where
  "sends_to_root mpi_Reduce dt op root c \<longleftrightarrow>
     (\<forall>buf n w. 0 < n \<longrightarrow> n \<le> INT_MAX \<longrightarrow>
        (\<exists>w'. mpi_Reduce (Buf buf) Null_Buf (int n) dt op root c w = (MPI_SUCCESS, w') \<and> rs_mem w' = rs_mem w))"

lemma int_piece_bounds: "0 < r \<Longrightarrow> 0 < int_piece r \<and> int_piece r \<le> INT_MAX \<and> int_piece r \<le> r"
  by (auto simp: int_piece_def)

lemma run_calls_send:
  assumes "\<And>buf n w. 0 < n \<Longrightarrow> n \<le> INT_MAX \<Longrightarrow> \<exists>w'. call buf (int n) w = (MPI_SUCCESS, w') \<and> rs_mem w' = rs_mem w"
  shows "\<exists>w'. run_calls call (chunk_calls buf es (tiles int_piece off left)) w = (MPI_SUCCESS, w') \<and> rs_mem w' = rs_mem w"
proof (induction off left arbitrary: w rule: int_pieces.tiles_induct)
  case (empty off)
  then show ?case by simp
next
  case (more off left)
  obtain w1 where "call (buf + of_nat off * es) (int (int_piece left)) w = (MPI_SUCCESS, w1)" "rs_mem w1 = rs_mem w"
    using assms [of "int_piece left" "buf + of_nat off * es" w] int_piece_bounds [OF more.hyps] by auto
  then show ?case using more.IH [of w1] more.hyps by (simp add: int_pieces.tiles_Cons)
qed

context element_view
begin

lemma run_calls_reduce:
  assumes "\<And>buf n w. 0 < n \<Longrightarrow> n \<le> INT_MAX \<Longrightarrow> n * es \<le> 2 ^ 64 \<Longrightarrow>
      \<exists>w'. call buf (int n) w = (MPI_SUCCESS, w') \<and> reduced es f val others buf n (rs_mem w) (rs_mem w')"
    and "left * es \<le> 2 ^ 64" "es = unat ew"
  shows "\<exists>w'. run_calls call (chunk_calls buf ew (tiles int_piece off left)) w = (MPI_SUCCESS, w') \<and>
    reduced es f val others (buf + of_nat off * ew) left (rs_mem w) (rs_mem w')"
  using assms(2)
proof (induction off left arbitrary: w rule: int_pieces.tiles_induct)
  case (empty off)
  then show ?case by (simp add: reduced_def)
next
  case (more off left)
  let ?n = "int_piece left" and ?buf = "buf + of_nat off * ew"
  have n: "0 < ?n" "?n \<le> INT_MAX" "?n \<le> left" using int_piece_bounds [OF more.hyps] by auto
  have le: "?n * es \<le> 2 ^ 64" "(left - ?n) * es \<le> 2 ^ 64"
    using more.prems n(3) mult_le_mono1 [of ?n left es] mult_le_mono1 [of "left - ?n" left es] by linarith+
  have next_buf: "?buf + of_nat (?n * es) = buf + of_nat (off + ?n) * ew"
    by (simp add: assms(3) algebra_simps)
  obtain w1 where w1: "call ?buf (int ?n) w = (MPI_SUCCESS, w1)"
    "reduced es f val others ?buf ?n (rs_mem w) (rs_mem w1)"
    using assms(1) [OF n(1,2) le(1)] by blast
  obtain w2 where w2: "run_calls call (chunk_calls buf ew (tiles int_piece (off + ?n) (left - ?n))) w1 = (MPI_SUCCESS, w2)"
    "reduced es f val others (?buf + of_nat (?n * es)) (left - ?n) (rs_mem w1) (rs_mem w2)"
    using more.IH [OF le(2), of w1] unfolding next_buf by blast
  have "reduced es f val others ?buf (?n + (left - ?n)) (rs_mem w) (rs_mem w2)"
    using more.prems n(3) by (intro reduced_append [OF w1(2) w2(2)]) simp
  then show ?case using w1(1) w2(1) n(3) by (simp add: int_pieces.tiles_Cons more.hyps)
qed

end

text \<open>
  \<^verbatim>\<open>bigmpi::AllReduce\<close> is \<^verbatim>\<open>MPI_Allreduce\<close> for any count: every element becomes the combination of all ranks'.
  \<open>reduces_everywhere\<close> is what \<^verbatim>\<open>MPI_Allreduce\<close> promises.
\<close>

definition reduces_everywhere ::
  "(mpi_buf \<Rightarrow> u64 \<Rightarrow> int \<Rightarrow> mpi_datatype \<Rightarrow> mpi_op \<Rightarrow> 'c \<Rightarrow> 'x rank_state \<Rightarrow> int \<times> 'x rank_state) \<Rightarrow> nat \<Rightarrow>
   ('e \<Rightarrow> 'e \<Rightarrow> 'e) \<Rightarrow> (memory \<Rightarrow> u64 \<Rightarrow> 'e) \<Rightarrow> memory list \<Rightarrow> mpi_datatype \<Rightarrow> mpi_op \<Rightarrow> 'c \<Rightarrow> bool" where
  "reduces_everywhere mpi_Allreduce es f val others dt op c \<longleftrightarrow>
     (\<forall>buf n w. 0 < n \<longrightarrow> n \<le> INT_MAX \<longrightarrow> n * es \<le> 2 ^ 64 \<longrightarrow>
        (\<exists>w'. mpi_Allreduce In_Place buf (int n) dt op c w = (MPI_SUCCESS, w') \<and>
           reduced es f val others buf n (rs_mem w) (rs_mem w')))"

theorem AllReduce_combines:
  assumes "unat cnt + INT_MAX \<le> 2 ^ 64" "get_mpi_type_size tsize dt = Inr ew" "0 < ew" "unat cnt * unat ew \<le> 2 ^ 64"
    and "element_view (unat ew) val" "reduces_everywhere mpi_Allreduce (unat ew) f val others dt op c"
  shows "\<exists>w'. AllReduce tsize mpi_Allreduce buf cnt dt op c w = Some (Inr (MPI_SUCCESS, w')) \<and>
    reduced (unat ew) f val others buf (unat cnt) (rs_mem w) (rs_mem w')"
proof -
  let ?call = "\<lambda>b n. mpi_Allreduce In_Place b n dt op c"
  have loop: "chunk_loop ?call buf ew cnt 0 w = Some (run_calls ?call (chunk_calls buf ew (tiles int_piece 0 (unat cnt))) w)"
    by (rule chunk_loop_tiles [OF assms(1)]) auto
  have "\<exists>w'. run_calls ?call (chunk_calls buf ew (tiles int_piece 0 (unat cnt))) w = (MPI_SUCCESS, w') \<and>
      reduced (unat ew) f val others (buf + of_nat 0 * ew) (unat cnt) (rs_mem w) (rs_mem w')"
    by (rule element_view.run_calls_reduce [OF assms(5) _ assms(4) refl]) (use assms(6) in \<open>auto simp: reduces_everywhere_def\<close>)
  then show ?thesis using assms(2,3) by (auto simp: AllReduce_def with_elem_size_def loop)
qed

section \<open>The reduce areas of a context\<close>

text \<open>
  What a reduce area has to satisfy: it was built with the size MPI reports for its type, \<open>es r\<close>, and lies
  in the address space. \<open>val r\<close> and \<open>f r\<close> are the elements and the operation its type and operation stand for.
\<close>

definition reduce_area_ok :: "('h, 'r, 'x) machine \<Rightarrow> (reduce_area \<Rightarrow> nat) \<Rightarrow> reduce_area \<Rightarrow> bool" where
  "reduce_area_ok mc es r \<longleftrightarrow>
     (\<exists>ew. get_mpi_type_size (mc_type_size mc) (m_type r) = Inr ew \<and> es r = unat ew \<and> 0 < ew \<and>
        word_of_int (m_sizeof_type r) = ew) \<and>
     unat (m_count r) + INT_MAX \<le> 2 ^ 64 \<and> unat (m_count r) * es r < 2 ^ 64 \<and> area_fits (reduce_mem_area r)"

definition area_block :: "(reduce_area \<Rightarrow> nat) \<Rightarrow> reduce_area \<Rightarrow> u64 set" where
  "area_block es r = block (m_begin r) (unat (m_count r) * es r)"

definition root_reduces ::
  "('h, 'r, 'x) machine \<Rightarrow> (reduce_area \<Rightarrow> nat) \<Rightarrow> (reduce_area \<Rightarrow> 'e \<Rightarrow> 'e \<Rightarrow> 'e) \<Rightarrow>
   (reduce_area \<Rightarrow> memory \<Rightarrow> u64 \<Rightarrow> 'e) \<Rightarrow> memory list \<Rightarrow> reduce_area \<Rightarrow> bool" where
  "root_reduces mc es f val others r \<longleftrightarrow>
     element_view (es r) (val r) \<and>
     reduces_at_root (mc_reduce mc) (es r) (f r) (val r) others (m_type r) (m_op r) m_root_rank S_p_comm"

lemma Reduce_chunks:
  assumes "reduce_area_ok mc es r"
  obtains ew where "es r = unat ew" "0 < ew"
    "reduce_area_reduce (mc_type_size mc) rank_of mpi_Reduce r c root w
      = Some (Inr (run_calls (\<lambda>buf n.
          if rank_of c = root then mpi_Reduce In_Place (Buf buf) n (m_type r) (m_op r) root c
          else mpi_Reduce (Buf buf) Null_Buf n (m_type r) (m_op r) root c)
          (chunk_calls (m_begin r) ew (tiles int_piece 0 (unat (m_count r)))) w))"
proof -
  obtain ew where e: "get_mpi_type_size (mc_type_size mc) (m_type r) = Inr ew" "es r = unat ew" "0 < ew"
    using assms by (auto simp: reduce_area_ok_def)
  have "unat (m_count r) + INT_MAX \<le> 2 ^ 64" using assms by (simp add: reduce_area_ok_def)
  from chunk_loop_tiles [OF this, of "unat (m_count r)" 0 0]
  have loop: "chunk_loop call b es' (m_count r) 0 w = Some (run_calls call (chunk_calls b es' (tiles int_piece 0 (unat (m_count r)))) w)"
    for call :: "u64 \<Rightarrow> int \<Rightarrow> 'd \<Rightarrow> int \<times> 'd" and b es' by simp
  show thesis
    by (rule that [OF e(2,3)]) (simp add: reduce_area_reduce_def Reduce_def with_elem_size_def Let_def e loop)
qed

lemma reduce_area_root:
  assumes "reduce_area_ok mc es r" "root_reduces mc es f val others r" "mc_rank mc = 0"
  shows "\<exists>w'. reduce_area_reduce (mc_type_size mc) (comm_rank mc) (mc_reduce mc) r S_p_comm m_root_rank w
      = Some (Inr (MPI_SUCCESS, w')) \<and>
    reduced (es r) (f r) (val r) others (m_begin r) (unat (m_count r)) (rs_mem w) (rs_mem w')"
proof -
  have v: "element_view (es r) (val r)"
    and law: "reduces_at_root (mc_reduce mc) (es r) (f r) (val r) others (m_type r) (m_op r) m_root_rank S_p_comm"
    using assms(2) by (simp_all add: root_reduces_def)
  let ?call = "\<lambda>buf n. mc_reduce mc In_Place (Buf buf) n (m_type r) (m_op r) m_root_rank S_p_comm"
  have root: "(comm_rank mc S_p_comm = m_root_rank) = True" using assms(3) by (simp add: comm_rank_def m_root_rank_def)
  obtain ew where e: "es r = unat ew" "reduce_area_reduce (mc_type_size mc) (comm_rank mc) (mc_reduce mc) r S_p_comm m_root_rank w
      = Some (Inr (run_calls ?call (chunk_calls (m_begin r) ew (tiles int_piece 0 (unat (m_count r)))) w))"
    by (rule Reduce_chunks [OF assms(1), of "comm_rank mc" "mc_reduce mc" S_p_comm m_root_rank w]) (simp only: root if_True)
  have le: "unat (m_count r) * es r \<le> 2 ^ 64" using assms(1) unfolding reduce_area_ok_def by linarith
  have "\<exists>w'. run_calls ?call (chunk_calls (m_begin r) ew (tiles int_piece 0 (unat (m_count r)))) w = (MPI_SUCCESS, w') \<and>
      reduced (es r) (f r) (val r) others (m_begin r + of_nat 0 * ew) (unat (m_count r)) (rs_mem w) (rs_mem w')"
    by (rule element_view.run_calls_reduce [OF v _ le e(1)]) (use law in \<open>auto simp: reduces_at_root_def\<close>)
  then show ?thesis using e(2) by auto
qed

lemma reduce_area_worker:
  assumes "reduce_area_ok mc es r" "sends_to_root (mc_reduce mc) (m_type r) (m_op r) m_root_rank S_p_comm" "mc_rank mc \<noteq> 0"
  shows "\<exists>w'. reduce_area_reduce (mc_type_size mc) (comm_rank mc) (mc_reduce mc) r S_p_comm m_root_rank w
      = Some (Inr (MPI_SUCCESS, w')) \<and> rs_mem w' = rs_mem w"
proof -
  let ?call = "\<lambda>buf n. mc_reduce mc (Buf buf) Null_Buf n (m_type r) (m_op r) m_root_rank S_p_comm"
  have root: "(comm_rank mc S_p_comm = m_root_rank) = False" using assms(3) by (simp add: comm_rank_def m_root_rank_def)
  obtain ew where e: "reduce_area_reduce (mc_type_size mc) (comm_rank mc) (mc_reduce mc) r S_p_comm m_root_rank w
      = Some (Inr (run_calls ?call (chunk_calls (m_begin r) ew (tiles int_piece 0 (unat (m_count r)))) w))"
    by (rule Reduce_chunks [OF assms(1), of "comm_rank mc" "mc_reduce mc" S_p_comm m_root_rank w]) (simp only: root if_False)
  have "\<exists>w'. run_calls ?call (chunk_calls (m_begin r) ew (tiles int_piece 0 (unat (m_count r)))) w = (MPI_SUCCESS, w') \<and>
      rs_mem w' = rs_mem w"
    by (rule run_calls_send) (use assms(2) in \<open>simp add: sends_to_root_def\<close>)
  then show ?thesis using e by auto
qed

text \<open>One area after the other: the areas are disjoint, so each sees its own bytes as they were.\<close>

lemma reduce_all_root:
  assumes "\<forall>r \<in> set rs. reduce_area_ok mc es r \<and> root_reduces mc es f val others r"
    and "sorted_wrt (\<lambda>r s. area_block es r \<inter> area_block es s = {}) rs" "mc_rank mc = 0"
  shows "\<exists>w'. reduce_all mc S_p_comm rs w = Some (Inr (), w') \<and>
    (\<forall>r \<in> set rs. \<forall>i < unat (m_count r). val r (rs_mem w') (m_begin r + of_nat (i * es r))
      = combined (f r) (val r) others (rs_mem w) (m_begin r + of_nat (i * es r))) \<and>
    (\<forall>x. x \<notin> (\<Union>r \<in> set rs. area_block es r) \<longrightarrow> rs_mem w' x = rs_mem w x)"
  using assms(1,2)
proof (induction rs arbitrary: w)
  case (Cons r rs)
  obtain w1 where w1: "reduce_area_reduce (mc_type_size mc) (comm_rank mc) (mc_reduce mc) r S_p_comm m_root_rank w
      = Some (Inr (MPI_SUCCESS, w1))"
    "reduced (es r) (f r) (val r) others (m_begin r) (unat (m_count r)) (rs_mem w) (rs_mem w1)"
    using reduce_area_root [of mc es r f val others w] Cons.prems(1) assms(3) by auto
  obtain w' where w': "reduce_all mc S_p_comm rs w1 = Some (Inr (), w')"
    "\<forall>s \<in> set rs. \<forall>i < unat (m_count s). val s (rs_mem w') (m_begin s + of_nat (i * es s))
      = combined (f s) (val s) others (rs_mem w1) (m_begin s + of_nat (i * es s))"
    "\<forall>x. x \<notin> (\<Union>s \<in> set rs. area_block es s) \<longrightarrow> rs_mem w' x = rs_mem w1 x"
    using Cons.IH [of w1] Cons.prems by auto
  have out: "x \<notin> area_block es r \<Longrightarrow> rs_mem w1 x = rs_mem w x" for x
    using w1(2) by (simp add: reduced_def area_block_def)
  have view: "element_view (es s) (val s)" if "s \<in> set (r # rs)" for s
    using Cons.prems(1) that by (auto simp: root_reduces_def)
  have sub: "block (m_begin s + of_nat (i * es s)) (es s) \<subseteq> area_block es s" if "i < unat (m_count s)" for s i
    unfolding area_block_def by (rule block_in [OF that])
  have first: "val r (rs_mem w') a = val r (rs_mem w1) a" if "block a (es r) \<subseteq> area_block es r" for a
    by (rule element_view.val_outside [OF view [of r], of "\<Union>s \<in> set rs. area_block es s"])
      (use w'(3) that Cons.prems(2) in auto)
  have rest: "combined (f s) (val s) others (rs_mem w1) a = combined (f s) (val s) others (rs_mem w) a"
    if "s \<in> set rs" "block a (es s) \<subseteq> area_block es s" for s a
    by (rule element_view.combined_outside [OF view [of s], of "area_block es r"]) (use out that Cons.prems(2) in auto)
  have "\<forall>s \<in> set (r # rs). \<forall>i < unat (m_count s). val s (rs_mem w') (m_begin s + of_nat (i * es s))
      = combined (f s) (val s) others (rs_mem w) (m_begin s + of_nat (i * es s))"
    using w1(2) w'(2) first rest sub by (auto simp: reduced_def)
  moreover have "\<forall>x. x \<notin> (\<Union>s \<in> set (r # rs). area_block es s) \<longrightarrow> rs_mem w' x = rs_mem w x"
    using w'(3) out by auto
  moreover have "reduce_all mc S_p_comm (r # rs) w = Some (Inr (), w')" using w1(1) w'(1) by simp
  ultimately show ?case by blast
qed simp

lemma reduce_all_worker:
  assumes "\<forall>r \<in> set rs. reduce_area_ok mc es r \<and> sends_to_root (mc_reduce mc) (m_type r) (m_op r) m_root_rank S_p_comm"
    and "mc_rank mc \<noteq> 0"
  shows "\<exists>w'. reduce_all mc S_p_comm rs w = Some (Inr (), w') \<and> rs_mem w' = rs_mem w"
  using assms(1)
proof (induction rs arbitrary: w)
  case (Cons r rs)
  obtain w1 where "reduce_area_reduce (mc_type_size mc) (comm_rank mc) (mc_reduce mc) r S_p_comm m_root_rank w
      = Some (Inr (MPI_SUCCESS, w1))" "rs_mem w1 = rs_mem w"
    using reduce_area_worker [of mc es r w] Cons.prems assms(2) by auto
  then show ?case using Cons.IH [of w1] Cons.prems by simp
qed simp

lemma area_block_bytes:
  assumes "reduce_area_ok mc es r"
  shows "x \<in> area_block es r \<Longrightarrow> unat x \<in> area_bytes (reduce_mem_area r)"
proof -
  let ?n = "unat (m_count r) * es r"
  obtain ew :: u64 where ew: "es r = unat ew" "word_of_int (m_sizeof_type r) = ew" and fits: "area_fits (reduce_mem_area r)"
    using assms unfolding reduce_area_ok_def by metis
  have "?n < 2 ^ 64" using assms unfolding reduce_area_ok_def by blast
  then have sz: "unat (ma_size (reduce_mem_area r)) = ?n"
    using unat_mult_nw [of "m_count r" ew] by (simp add: reduce_mem_area_def ew)
  assume "x \<in> area_block es r"
  then obtain i where i: "x = m_begin r + of_nat i" "i < ?n" by (auto simp: area_block_def block_def)
  have lt: "unat (m_begin r) + ?n \<le> 2 ^ 64" using fits sz by (simp add: area_fits_def reduce_mem_area_def)
  then have ui: "unat (of_nat i :: u64) = i" using i(2) by (intro unat_of_nat_64) linarith
  then have "unat x = unat (m_begin r) + i"
    using i lt unat_add_nw [of "m_begin r" "of_nat i"] by simp
  then show "unat x \<in> area_bytes (reduce_mem_area r)" using i(2) sz by (simp add: area_bytes_def reduce_mem_area_def)
qed

lemma verified_blocks:
  assumes "\<forall>r \<in> set rs. reduce_area_ok mc es r" "verify_reduces_no_overlap rs = Inr ()"
  shows "sorted_wrt (\<lambda>r s. area_block es r \<inter> area_block es s = {}) rs"
  unfolding sorted_wrt_iff_nth_less
proof (intro allI impI)
  fix i j
  assume ij: "i < j" "j < length rs"
  have "\<forall>r \<in> set rs. area_fits (reduce_mem_area r)" using assms(1) by (simp add: reduce_area_ok_def)
  from verified_disjoint [OF this assms(2) ij]
  show "area_block es (rs ! i) \<inter> area_block es (rs ! j) = {}"
    using area_block_bytes [of mc es "rs ! i"] area_block_bytes [of mc es "rs ! j"] assms(1) ij by fastforce
qed

section \<open>The end of a parallel region\<close>

lemma region_end_root:
  assumes "pc_entered c" "pc_comm c = S_p_comm" "1 < mc_world_size mc" "mc_rank mc = 0"
    and "verify_reduces_no_overlap (pc_reduces c) = Inr ()"
    and "\<forall>r \<in> set (pc_reduces c). reduce_area_ok mc es r \<and> root_reduces mc es f val others r"
  shows "\<exists>w'. do_exit_parallel mc c (True, w) = Some (Inr Behind_call, False, w') \<and>
    (\<forall>r \<in> set (pc_reduces c). \<forall>i < unat (m_count r). val r (rs_mem w') (m_begin r + of_nat (i * es r))
      = combined (f r) (val r) others (rs_mem w) (m_begin r + of_nat (i * es r))) \<and>
    (\<forall>x. x \<notin> (\<Union>r \<in> set (pc_reduces c). area_block es r) \<longrightarrow> rs_mem w' x = rs_mem w x)"
proof -
  have "sorted_wrt (\<lambda>r s. area_block es r \<inter> area_block es s = {}) (pc_reduces c)"
    using verified_blocks [of "pc_reduces c" mc es] assms(5,6) by blast
  from reduce_all_root [OF assms(6) this assms(4), of w]
  show ?thesis using assms(1-4) by (auto simp: do_exit_parallel_def comm_size_def comm_rank_def m_root_rank_def)
qed

lemma region_end_worker:
  assumes "pc_entered c" "pc_comm c = S_p_comm" "1 < mc_world_size mc" "mc_rank mc \<noteq> 0"
    and "\<forall>r \<in> set (pc_reduces c). reduce_area_ok mc es r \<and>
      sends_to_root (mc_reduce mc) (m_type r) (m_op r) m_root_rank S_p_comm"
  shows "\<exists>w'. do_exit_parallel mc c (True, w) = Some (Inr In_worker_loop, False, w') \<and> rs_mem w' = rs_mem w"
  using reduce_all_worker [OF assms(5,4), of w] assms(1-4)
  by (auto simp: do_exit_parallel_def comm_size_def comm_rank_def m_root_rank_def)

section \<open>Sums\<close>

text \<open>
  Elements that can be summed, of which the one whose bytes are all zero is the identity: what a worker starts from.
\<close>

locale sum_view = element_view es val
  for es :: nat and val :: "memory \<Rightarrow> u64 \<Rightarrow> 'e :: comm_monoid_add" +
  assumes val_zero: "(\<And>x. x \<in> block a es \<Longrightarrow> m x = 0) \<Longrightarrow> val m a = 0"
    and es_bounds: "0 < es" "es < 2 ^ 64"

text \<open>An area of such elements.\<close>

definition sum_area :: "nat \<Rightarrow> reduce_area \<Rightarrow> bool" where
  "sum_area es r \<longleftrightarrow> m_type r \<in> set zero_init_types \<and> m_op r = MPI_SUM \<and> m_sizeof_type r = int es"

definition element_at :: "nat \<Rightarrow> reduce_area \<Rightarrow> nat \<Rightarrow> u64" where
  "element_at es r i = m_begin r + of_nat (i * es)"

lemma sum_area_cleared:
  assumes "sum_area es r" "es < 2 ^ 64" "unat (m_count r) * es < 2 ^ 64" "init_reduce_area_on_worker names r mem = Inr mem'"
  shows "mem' = overwrite (\<lambda>a. 0) (block (m_begin r) (unat (m_count r) * es)) mem"
proof -
  have "unat (word_of_int (int es) :: u64) = es" using assms(2) by (simp add: unat_of_nat_64)
  then have "unat (m_count r * word_of_int (m_sizeof_type r)) = unat (m_count r) * es"
    using assms(1,3) unat_mult_nw [of "m_count r" "word_of_int (int es)"] by (simp add: sum_area_def)
  moreover have "m_type r \<noteq> MPI_C_BOOL" using assms(1) by (auto simp: sum_area_def zero_init_types_def)
  ultimately show ?thesis
    using assms(1,4) by (auto simp: sum_area_def init_reduce_area_on_worker_def memset_def list_ex_iff)
qed

lemma sum_areas_cleared:
  assumes "\<forall>r \<in> set rs. sum_area es r \<and> unat (m_count r) * es < 2 ^ 64" "es < 2 ^ 64" "init_reduces names rs mem = Inr mem'"
  shows "(\<forall>x. mem x = 0 \<longrightarrow> mem' x = 0) \<and>
    (\<forall>r \<in> set rs. \<forall>x \<in> block (m_begin r) (unat (m_count r) * es). mem' x = 0)"
  using assms(1,3)
proof (induction rs arbitrary: mem)
  case (Cons r rs)
  obtain mem1 where m: "init_reduce_area_on_worker names r mem = Inr mem1" "init_reduces names rs mem1 = Inr mem'"
    using Cons.prems(2) by (cases "init_reduce_area_on_worker names r mem") auto
  have "mem1 = overwrite (\<lambda>a. 0) (block (m_begin r) (unat (m_count r) * es)) mem"
    by (rule sum_area_cleared [OF _ assms(2) _ m(1)]) (use Cons.prems(1) in auto)
  then have "mem x = 0 \<Longrightarrow> mem1 x = 0" "x \<in> block (m_begin r) (unat (m_count r) * es) \<Longrightarrow> mem1 x = 0" for x
    by (auto simp: overwrite_def)
  then show ?case using Cons.IH [OF _ m(2)] Cons.prems(1) by auto
qed simp

lemma sum_list_contributions:
  assumes "\<forall>k < length ms. val (ms ! k) a = e k"
  shows "sum_list (map (\<lambda>m. val m a) ms) = (\<Sum>k < length ms. e k)"
  using assms by (simp add: sum_list_sum_nth atLeast0LessThan)

lemma foldl_sum: "foldl (+) x ys = x + sum_list ys" for x :: "'a :: comm_monoid_add"
  by (induction ys arbitrary: x) (simp_all add: add.assoc)

lemma combined_sum: "combined (+) val others mem a = val mem a + sum_list (map (\<lambda>m. val m a) others)"
  for val :: "memory \<Rightarrow> u64 \<Rightarrow> 'e :: comm_monoid_add"
  by (simp add: combined_def foldl_sum)

context sum_view
begin

lemma sum_areas_start:
  assumes "\<forall>r \<in> set rs. sum_area es r \<and> unat (m_count r) * es < 2 ^ 64" "init_reduces names rs mem = Inr mem'"
    and "r \<in> set rs" "i < unat (m_count r)"
  shows "val mem' (element_at es r i) = 0"
proof (rule val_zero)
  fix x
  assume "x \<in> block (element_at es r i) es"
  then have "x \<in> block (m_begin r) (unat (m_count r) * es)" using block_in [OF assms(4)] unfolding element_at_def by blast
  then show "mem' x = 0" using sum_areas_cleared [OF assms(1) es_bounds(2) assms(2)] assms(3) by blast
qed

lemma region_end_sum:
  assumes "pc_entered c" "pc_comm c = S_p_comm" "1 < mc_world_size mc" "mc_rank mc = 0"
    and "verify_reduces_no_overlap (pc_reduces c) = Inr ()"
    and areas: "\<forall>r \<in> set (pc_reduces c). sum_area es r \<and> reduce_area_ok mc (\<lambda>r. es) r"
    and mpi: "\<forall>r \<in> set (pc_reduces c). reduces_at_root (mc_reduce mc) es (+) val others (m_type r) MPI_SUM m_root_rank S_p_comm"
    and starts: "\<forall>k < length others. \<exists>mem. init_reduces names (pc_reduces c) mem = Inr (start k)"
    and adds: "\<forall>k < length others. \<forall>r \<in> set (pc_reduces c). \<forall>i < unat (m_count r).
      val (others ! k) (element_at es r i) = val (start k) (element_at es r i) + d (Suc k) r i"
    and root: "\<forall>r \<in> set (pc_reduces c). \<forall>i < unat (m_count r).
      val (rs_mem w) (element_at es r i) = val mem0 (element_at es r i) + d 0 r i"
  shows "\<exists>w'. do_exit_parallel mc c (True, w) = Some (Inr Behind_call, False, w') \<and>
    (\<forall>r \<in> set (pc_reduces c). \<forall>i < unat (m_count r).
      val (rs_mem w') (element_at es r i) = val mem0 (element_at es r i) + (\<Sum>k \<le> length others. d k r i)) \<and>
    (\<forall>x. x \<notin> (\<Union>r \<in> set (pc_reduces c). area_block (\<lambda>r. es) r) \<longrightarrow> rs_mem w' x = rs_mem w x)"
proof -
  have ok: "\<forall>r \<in> set (pc_reduces c). reduce_area_ok mc (\<lambda>r. es) r \<and>
      root_reduces mc (\<lambda>r. es) (\<lambda>r. (+)) (\<lambda>r. val) others r"
    using areas mpi element_view_axioms by (simp add: root_reduces_def sum_area_def)
  have size: "\<forall>r \<in> set (pc_reduces c). sum_area es r \<and> unat (m_count r) * es < 2 ^ 64"
    using areas unfolding reduce_area_ok_def by blast
  have total: "combined (+) val others (rs_mem w) (element_at es r i)
      = val mem0 (element_at es r i) + (\<Sum>k \<le> length others. d k r i)"
    if r: "r \<in> set (pc_reduces c)" "i < unat (m_count r)" for r i
  proof -
    have "\<forall>k < length others. val (others ! k) (element_at es r i) = d (Suc k) r i"
      using adds starts sum_areas_start [OF size _ r] r by fastforce
    then have "sum_list (map (\<lambda>m. val m (element_at es r i)) others) = (\<Sum>k < length others. d (Suc k) r i)"
      by (rule sum_list_contributions)
    then show ?thesis
      using root r by (simp add: combined_sum sum.atMost_shift add.assoc)
  qed
  obtain w' where w': "do_exit_parallel mc c (True, w) = Some (Inr Behind_call, False, w')"
    "\<forall>r \<in> set (pc_reduces c). \<forall>i < unat (m_count r). val (rs_mem w') (element_at es r i)
      = combined (+) val others (rs_mem w) (element_at es r i)"
    "\<forall>x. x \<notin> (\<Union>r \<in> set (pc_reduces c). area_block (\<lambda>r. es) r) \<longrightarrow> rs_mem w' x = rs_mem w x"
    using region_end_root [OF assms(1-5) ok, of w] unfolding element_at_def by auto
  then show ?thesis using total by (intro exI [of _ w']) simp
qed

end

lemma load_le_cong: "(\<And>i. i < n \<Longrightarrow> m (a + of_nat i) = m' (a + of_nat i)) \<Longrightarrow> load_le m a n = load_le m' a n"
  by (induction n) simp_all

text \<open>64-bit integers and 32-bit integers, in little-endian bytes; signed ones by their bit patterns.\<close>

interpretation u64_view: sum_view 8 load64
proof
  fix a and m m' :: memory
  show "load64 m a = load64 m' a" if "\<And>x. x \<in> block a 8 \<Longrightarrow> m x = m' x"
    using that unfolding load64_def by (intro load_le_cong) (auto simp: block_def)
  show "load64 m a = 0" if "\<And>x. x \<in> block a 8 \<Longrightarrow> m x = 0"
    unfolding load64_eq_0 using that by (auto simp: block_def)
qed simp_all

interpretation u32_view: sum_view 4 load32
proof
  fix a and m m' :: memory
  show "load32 m a = load32 m' a" if "\<And>x. x \<in> block a 4 \<Longrightarrow> m x = m' x"
    using that unfolding load32_def by (intro arg_cong [of _ _ ucast] load_le_cong) (auto simp: block_def)
  show "load32 m a = 0" if "\<And>x. x \<in> block a 4 \<Longrightarrow> m x = 0"
  proof -
    have "load_le m a 4 = 0" using that load_le_eq_0 [of 4 m a] by (auto simp: block_def)
    then show ?thesis by (simp add: load32_def)
  qed
qed simp_all

text \<open>
  C14. When the root's code leaves a parallel context, each element of each reduce area has been combined
  with those of all other ranks, in the order of the ranks, and no other byte of the root's memory has
  changed, however long the areas are: \<^verbatim>\<open>bigmpi::Reduce\<close> cuts them into pieces of at most \<^verbatim>\<open>INT_MAX\<close> elements,
  and areas that \<^verbatim>\<open>verify_reduces_no_overlap\<close> accepted do not disturb each other. (A worker's memory stays
  as it is, \<open>region_end_worker\<close>, so \<open>others\<close> are the memories at the end of the region for all areas.)
\<close>

theorem region_end_reduces:
  assumes "pc_entered c" "pc_comm c = S_p_comm" "1 < mc_world_size mc" "mc_rank mc = 0"
    and "verify_reduces_no_overlap (pc_reduces c) = Inr ()"
    and "\<forall>r \<in> set (pc_reduces c). reduce_area_ok mc es r \<and> root_reduces mc es f val others r"
  shows "\<exists>w'. do_exit_parallel mc c (True, w) = Some (Inr Behind_call, False, w') \<and>
    (\<forall>r \<in> set (pc_reduces c). \<forall>i < unat (m_count r). val r (rs_mem w') (m_begin r + of_nat (i * es r))
      = combined (f r) (val r) others (rs_mem w) (m_begin r + of_nat (i * es r))) \<and>
    (\<forall>x. x \<notin> (\<Union>r \<in> set (pc_reduces c). area_block es r) \<longrightarrow> rs_mem w' x = rs_mem w x)"
  using assms by (rule region_end_root)


section \<open>Witnesses\<close>

text \<open>Two ranks: \<^verbatim>\<open>MPI_Reduce\<close> on the root adds the worker's elements to its own.\<close>

definition to_byte :: "u64 \<Rightarrow> nat \<Rightarrow> 8 word" where
  "to_byte v j = ucast (drop_bit (8 * j) v)"

lemma load_le_bytes: "n \<le> 8 \<Longrightarrow> (\<forall>j < n. mem (a + of_nat j) = to_byte v j) \<Longrightarrow> load_le mem a n = take_bit (8 * n) v"
proof (induction n)
  case (Suc n)
  have "load_le mem a (Suc n) = take_bit (8 * n) v OR push_bit (8 * n) (ucast (to_byte v n))"
    using Suc by simp
  also have "\<dots> = take_bit (8 * Suc n) v"
    by (rule bit_word_eqI) (use Suc.prems(1) in \<open>auto simp: to_byte_def bit_simps\<close>)
  finally show ?case .
qed simp

definition add_elements :: "memory \<Rightarrow> u64 \<Rightarrow> nat \<Rightarrow> memory \<Rightarrow> memory" where
  "add_elements other buf n mem = (\<lambda>x.
     let k = unat (x - buf); a = buf + of_nat (k div 8 * 8)
     in if k < n * 8 then to_byte (load64 mem a + load64 other a) (k mod 8) else mem x)"

lemma load_added:
  assumes "i < n" "n * 8 \<le> 2 ^ 64"
  shows "load64 (add_elements other buf n mem) (buf + of_nat (i * 8)) =
    load64 mem (buf + of_nat (i * 8)) + load64 other (buf + of_nat (i * 8))"
proof -
  let ?a = "buf + of_nat (i * 8)"
  let ?v = "load64 mem ?a + load64 other ?a"
  have "add_elements other buf n mem (?a + of_nat j) = to_byte ?v j" if "j < 8" for j
  proof -
    have "?a + of_nat j - buf = of_nat (i * 8 + j)" by simp
    moreover have "unat (of_nat (i * 8 + j) :: u64) = i * 8 + j"
      using assms that by (intro unat_of_nat_64) linarith
    ultimately have k: "unat (?a + of_nat j - buf) = i * 8 + j" by simp
    show ?thesis using assms(1) that unfolding add_elements_def Let_def k by simp
  qed
  then have "load64 (add_elements other buf n mem) ?a = take_bit (8 * 8) ?v"
    unfolding load64_def [of "add_elements other buf n mem"] by (intro load_le_bytes) auto
  then show ?thesis by (simp add: take_bit_word_eq_self)
qed

definition poke :: "u64 \<Rightarrow> 8 word \<Rightarrow> memory" where
  "poke a v = (\<lambda>x. if x = a then v else 0)"

lemma to_byte_ucast: "to_byte (ucast (v :: 8 word)) i = (if i = 0 then v else 0)"
proof (cases "i = 0")
  case False
  have "\<not> bit v (8 * i + n)" for n
    using bit_imp_le_length [of v "8 * i + n"] False by auto
  then have "to_byte (ucast v) i = 0" by (intro bit_word_eqI) (simp add: to_byte_def bit_simps)
  then show ?thesis using False by simp
next
  case True
  then show ?thesis by (auto simp: to_byte_def bit_simps intro!: bit_word_eqI)
qed

lemma load_poke: "load64 (poke 0x1008 v) 0x1000 = 0" "load64 (poke 0x1008 v) 0x1008 = ucast v"
proof -
  have j: "j = 0 \<or> j = 1 \<or> j = 2 \<or> j = 3 \<or> j = 4 \<or> j = 5 \<or> j = 6 \<or> j = 7" if "j < 8" for j :: nat
    using that by linarith
  show "load64 (poke 0x1008 v) 0x1000 = 0" unfolding load64_eq_0 by (auto simp: poke_def dest: j)
  have "poke 0x1008 v (0x1008 + of_nat i) = to_byte (ucast v) i" if "i < 8" for i
    using j [OF that] by (elim disjE) (simp_all add: poke_def to_byte_ucast)
  then have "load64 (poke 0x1008 v) 0x1008 = take_bit (8 * 8) (ucast v)"
    unfolding load64_def by (intro load_le_bytes) auto
  then show "load64 (poke 0x1008 v) 0x1008 = ucast v" by (simp add: take_bit_word_eq_self)
qed

lemma load_zero: "load64 (\<lambda>a. 0) a = 0"
  by (simp add: load64_eq_0)

definition demo_sum_area :: reduce_area where
  "demo_sum_area = \<lparr>m_begin = 0x1000, m_count = 2, m_type = MPI_UINT64_T, m_op = MPI_SUM, m_sizeof_type = 8,
     m_inner_pages = None\<rparr>"

definition demo_sum_mc :: "memory \<Rightarrow> (unit, nat, nat multiset \<times> nat) machine" where
  "demo_sum_mc other = (demo_mc (demo_pf (\<lambda>a. 7)))\<lparr>mc_reduce := (\<lambda>a b n t op root c w.
     case b of Buf buf \<Rightarrow> (0, w\<lparr>rs_mem := add_elements other buf (nat n) (rs_mem w)\<rparr>) | _ \<Rightarrow> (0, w))\<rparr>"

abbreviation demo_sum_ctx :: par_ctx_base where
  "demo_sum_ctx \<equiv> (fresh_ctx 9 [demo_sum_area])\<lparr>pc_entered := True\<rparr>"

lemma demo_sum_area_ok: "sum_area 8 demo_sum_area \<and> reduce_area_ok (demo_sum_mc other) (\<lambda>r. 8) demo_sum_area"
  by (simp add: sum_area_def zero_init_types_def reduce_area_ok_def demo_sum_area_def demo_sum_mc_def demo_mc_def get_mpi_type_size_def
      get_mpi_type_size_fallback_def reduce_mem_area_def area_fits_def INT_MAX_def)

lemma demo_sum_verified: "verify_reduces_no_overlap (pc_reduces demo_sum_ctx) = Inr ()"
  by (simp add: verify_reduces_no_overlap_def verify_outer.simps verify_inner.simps)

lemma demo_sum_reduces:
  "reduces_at_root (mc_reduce (demo_sum_mc other)) 8 (+) load64 [other] dt MPI_SUM m_root_rank S_p_comm"
  unfolding reduces_at_root_def
proof (intro allI impI)
  fix buf and n :: nat and w :: demo_state
  assume n: "0 < n" "n \<le> INT_MAX" "n * 8 \<le> 2 ^ 64"
  have "add_elements other buf n (rs_mem w) x = rs_mem w x" if "x \<notin> block buf (n * 8)" for x
  proof -
    have "x = buf + of_nat (unat (x - buf))" by simp
    then have "\<not> unat (x - buf) < n * 8" using that unfolding block_def by blast
    then show ?thesis by (simp add: add_elements_def Let_def)
  qed
  then have "reduced 8 (+) load64 [other] buf n (rs_mem w) (add_elements other buf n (rs_mem w))"
    using load_added [OF _ n(3), of _ other buf "rs_mem w"] by (simp add: reduced_def combined_sum del: of_nat_mult)
  then show "\<exists>w'. mc_reduce (demo_sum_mc other) In_Place (Buf buf) (int n) dt MPI_SUM m_root_rank S_p_comm w
      = (MPI_SUCCESS, w') \<and> reduced 8 (+) load64 [other] buf n (rs_mem w) (rs_mem w')"
    by (simp add: demo_sum_mc_def MPI_SUCCESS_def)
qed

theorem region_end_reduces_witness:
  "\<exists>w'. do_exit_parallel (demo_sum_mc (poke 0x1008 5)) demo_sum_ctx (True, demo_rank (poke 0x1008 3))
      = Some (Inr Behind_call, False, w') \<and>
    load64 (rs_mem w') 0x1000 = 0 \<and> load64 (rs_mem w') 0x1008 = 8 \<and> rs_mem w' 0x1010 = 0"
proof -
  let ?mc = "demo_sum_mc (poke 0x1008 5)"
  have "root_reduces ?mc (\<lambda>r. 8) (\<lambda>r. (+)) (\<lambda>r. load64) [poke 0x1008 5] demo_sum_area"
    using demo_sum_reduces u64_view.element_view_axioms by (simp add: root_reduces_def demo_sum_area_def)
  then have ok: "\<forall>r \<in> set (pc_reduces demo_sum_ctx). reduce_area_ok ?mc (\<lambda>r. 8) r \<and>
      root_reduces ?mc (\<lambda>r. 8) (\<lambda>r. (+)) (\<lambda>r. load64) [poke 0x1008 5] r"
    using demo_sum_area_ok by simp
  have mc: "1 < mc_world_size ?mc" "mc_rank ?mc = 0" by (simp_all add: demo_sum_mc_def)
  have far: "0x1010 \<notin> area_block (\<lambda>r. 8) demo_sum_area"
  proof
    assume "0x1010 \<in> area_block (\<lambda>r. 8) demo_sum_area"
    then have "unat (0x1010 :: u64) \<in> area_bytes (reduce_mem_area demo_sum_area)"
      using area_block_bytes demo_sum_area_ok by blast
    then show False by (simp add: area_bytes_def reduce_mem_area_def demo_sum_area_def)
  qed
  obtain w' where w': "do_exit_parallel ?mc demo_sum_ctx (True, demo_rank (poke 0x1008 3)) = Some (Inr Behind_call, False, w')"
    "\<forall>i < unat (m_count demo_sum_area). load64 (rs_mem w') (element_at 8 demo_sum_area i)
      = combined (+) load64 [poke 0x1008 5] (poke 0x1008 3) (element_at 8 demo_sum_area i)"
    "rs_mem w' 0x1010 = poke 0x1008 3 0x1010"
    using region_end_reduces [OF _ _ mc demo_sum_verified ok, of "demo_rank (poke 0x1008 3)"] far unfolding element_at_def by auto
  have "load64 (rs_mem w') 0x1000 = 0" "load64 (rs_mem w') 0x1008 = 8"
    using w'(2) [rule_format, of 0] w'(2) [rule_format, of 1]
    by (simp_all add: demo_sum_area_def element_at_def combined_sum load_poke)
  then show ?thesis using w'(1,3) by (auto simp: poke_def)
qed


end
