(* ===== verification/Fortran_Region.thy ===== *)
theory Fortran_Region
  imports Par_Ctx_Proofs
begin

text \<open>
  Parallel regions of a Fortran program: the derived type \<^verbatim>\<open>par_ctx\<close> of \<^verbatim>\<open>fortran_binding.f90\<close> and the
  statements that \<^verbatim>\<open>parallel_begin.h\<close> and \<^verbatim>\<open>parallel_end.h\<close> put around a region. A Fortran region does
  what the C++ class does, except for a region that is not entered.
\<close>

section \<open>The type \<open>par_ctx\<close>\<close>

text \<open>A null pointer is \<open>None\<close>; the object behind the pointer is kept in its place.\<close>

record f_par_ctx =
  fp_ctx :: "par_ctx_fortran_binding option"
  fp_is_in_parallel :: bool
  fp_exited_parallel :: bool

definition default_f_par_ctx :: f_par_ctx where
  "default_f_par_ctx = \<lparr>fp_ctx = None, fp_is_in_parallel = False, fp_exited_parallel = False\<rparr>"

definition f_init :: "bool \<Rightarrow> u64 \<Rightarrow> f_par_ctx \<Rightarrow> f_par_ctx result" where
  "f_init finished ctx self = bindE (s_p_f_new_ctx finished ctx) (\<lambda>f. Inr (self\<lparr>fp_ctx := Some f\<rparr>))"

definition f_add_reduce ::
  "(cfi_type \<Rightarrow> int) \<Rightarrow> ('h, 'r, 'x) machine \<Rightarrow> cfi_cdesc \<times> mpi_op \<Rightarrow> f_par_ctx \<Rightarrow> f_par_ctx result" where
  "f_add_reduce code mc reduce self =
     (if fp_is_in_parallel self then Inl (ErrorStop ''Error: cannot add reduce area while in parallel'')
      else if fp_exited_parallel self then Inl (ErrorStop ''Error: cannot add reduce area after exiting parallel'')
      else (case fp_ctx self of
        None \<Rightarrow> Inl NullAccess
      | Some f \<Rightarrow>
          bindE (fortran_add_reduce_area code mc (fst reduce) (snd reduce) f) (\<lambda>f'. Inr (self\<lparr>fp_ctx := Some f'\<rparr>))))"

definition f_enter_parallel :: "('h, 'r, 'x) machine \<Rightarrow> (f_par_ctx \<times> ('h, 'x) process, unit) send" where
  "f_enter_parallel mc s =
     (let self = fst s; p = snd s
      in if fp_is_in_parallel self then Some ([], Inl (ErrorStop ''Error: already in parallel''), s)
         else if fp_exited_parallel self then
           Some ([], Inl (ErrorStop ''Error: cannot re-enter parallel after exiting''), s)
         else
           let self1 = self\<lparr>fp_is_in_parallel := True\<rparr>
           in (case fp_ctx self1 of
                 None \<Rightarrow> Some ([], Inl NullAccess, self1, p)
               | Some f \<Rightarrow>
                   map_option (\<lambda>(out, r, f', p'). (out, r, self1\<lparr>fp_ctx := Some f'\<rparr>, p'))
                     (s_p_f_ctx_begin_parallel mc (f, p))))"

definition f_exit_parallel ::
  "('h, 'r, 'x) machine \<Rightarrow> f_par_ctx \<Rightarrow> bool \<times> 'x rank_state \<Rightarrow>
   (f_par_ctx \<times> continues result \<times> bool \<times> 'x rank_state) option" where
  "f_exit_parallel mc self s =
     (let self1 = self\<lparr>fp_is_in_parallel := False, fp_exited_parallel := True\<rparr>
      in (case fp_ctx self1 of
            None \<Rightarrow> Some (self1, Inl NullAccess, s)
          | Some f \<Rightarrow> map_option (\<lambda>(f', r, s'). (self1\<lparr>fp_ctx := Some f'\<rparr>, r, s')) (fortran_exit_parallel mc f s)))"

definition s_p_get_comm_from_ctx :: "par_ctx_fortran_binding \<Rightarrow> comm" where
  "s_p_get_comm_from_ctx f = get_comm (fc_base f)"

definition f_get_comm :: "f_par_ctx \<Rightarrow> comm result" where
  "f_get_comm self = (case fp_ctx self of None \<Rightarrow> Inl NullAccess | Some f \<Rightarrow> Inr (s_p_get_comm_from_ctx f))"

text \<open>\<^verbatim>\<open>delete\<close> does nothing for a null pointer.\<close>

definition f_delete ::
  "('h, 'r, 'x) machine \<Rightarrow> f_par_ctx \<Rightarrow> bool \<times> 'x rank_state \<Rightarrow> (continues result \<times> bool \<times> 'x rank_state) option" where
  "f_delete mc self s = (case fp_ctx self of None \<Rightarrow> Some (Inr Behind_call, s) | Some f \<Rightarrow> s_p_f_del_ctx mc f s)"

definition f_finalize ::
  "('h, 'r, 'x) machine \<Rightarrow> f_par_ctx \<Rightarrow> bool \<times> 'x rank_state \<Rightarrow> (continues result \<times> bool \<times> 'x rank_state) option" where
  "f_finalize mc self s =
     (if fp_is_in_parallel self then
        (case f_exit_parallel mc self s of
           None \<Rightarrow> None
         | Some (self', Inr Behind_call, s') \<Rightarrow> f_delete mc self' s'
         | Some (self', r, s') \<Rightarrow> Some (r, s'))
      else f_delete mc self s)"

section \<open>The statements around a region\<close>

text \<open>
  \<open>reduces\<close> are the parameters \<^verbatim>\<open>s_p_reduce_1\<close> to \<^verbatim>\<open>s_p_reduce_64\<close>: an array with an operation each, \<open>None\<close>
  where the macro is not defined. A parameter beyond the 64th is not looked at.
\<close>

definition max_reduces :: nat where
  "max_reduces = 64"

fun add_reduces ::
  "(cfi_type \<Rightarrow> int) \<Rightarrow> ('h, 'r, 'x) machine \<Rightarrow> (cfi_cdesc \<times> mpi_op) option list \<Rightarrow> f_par_ctx \<Rightarrow> f_par_ctx result" where
  "add_reduces code mc [] self = Inr self"
| "add_reduces code mc (None # reduces) self = add_reduces code mc reduces self"
| "add_reduces code mc (Some r # reduces) self = bindE (f_add_reduce code mc r self) (add_reduces code mc reduces)"

definition parallel_begin ::
  "(cfi_type \<Rightarrow> int) \<Rightarrow> ('h, 'r, 'x) machine \<Rightarrow> bool \<Rightarrow> u64 \<Rightarrow> (cfi_cdesc \<times> mpi_op) option list \<Rightarrow> bool \<Rightarrow>
   ('h, 'x) process \<Rightarrow> (msg list \<times> unit result \<times> f_par_ctx \<times> ('h, 'x) process) option" where
  "parallel_begin code mc finished ctx reduces enter_parallel p =
     (case f_init finished ctx default_f_par_ctx of
        Inl e \<Rightarrow> Some ([], Inl e, default_f_par_ctx, p)
      | Inr self \<Rightarrow>
          (case add_reduces code mc (take max_reduces reduces) self of
             Inl e \<Rightarrow> Some ([], Inl e, self, p)
           | Inr self' \<Rightarrow>
               if enter_parallel then f_enter_parallel mc (self', p) else Some ([], Inr (), self', p)))"

text \<open>The end of the block finalizes the variable.\<close>

definition parallel_end ::
  "('h, 'r, 'x) machine \<Rightarrow> f_par_ctx \<Rightarrow> bool \<times> 'x rank_state \<Rightarrow> (continues result \<times> bool \<times> 'x rank_state) option" where
  "parallel_end mc self s =
     (case f_exit_parallel mc self s of
        None \<Rightarrow> None
      | Some (self', Inr Behind_call, s') \<Rightarrow> f_finalize mc self' s'
      | Some (self', r, s') \<Rightarrow> Some (r, s'))"

section \<open>Against the C++ class\<close>

text \<open>The areas of the defined parameters, in their order, after those the context has.\<close>

fun fortran_areas ::
  "(cfi_type \<Rightarrow> int) \<Rightarrow> ('h, 'r, 'x) machine \<Rightarrow> (cfi_cdesc \<times> mpi_op) option list \<Rightarrow> reduce_area list \<Rightarrow> reduce_area list result" where
  "fortran_areas code mc [] areas = Inr areas"
| "fortran_areas code mc (None # reduces) areas = fortran_areas code mc reduces areas"
| "fortran_areas code mc (Some r # reduces) areas =
     bindE (s_p_f_ctx_add_reduce_area code (mc_type_size mc) (pf_page_size (mc_pf mc)) (fst r) (snd r) areas)
       (fortran_areas code mc reduces)"

abbreviation waiting :: "u64 \<Rightarrow> reduce_area list \<Rightarrow> f_par_ctx" where
  "waiting ctx areas \<equiv>
     \<lparr>fp_ctx = Some \<lparr>fc_base = fresh_ctx ctx areas, fc_in_parallel = False, fc_ever_entered = False\<rparr>,
      fp_is_in_parallel = False, fp_exited_parallel = False\<rparr>"

abbreviation entered :: "par_ctx_base \<Rightarrow> f_par_ctx" where
  "entered c \<equiv>
     \<lparr>fp_ctx = Some \<lparr>fc_base = c, fc_in_parallel = True, fc_ever_entered = True\<rparr>,
      fp_is_in_parallel = True, fp_exited_parallel = False\<rparr>"

lemma add_reduces_areas:
  "add_reduces code mc reduces (waiting ctx areas) = bindE (fortran_areas code mc reduces areas) (\<lambda>as. Inr (waiting ctx as))"
proof (induction code mc reduces areas rule: fortran_areas.induct)
  case (3 code mc r reduces areas)
  then show ?case
    by (cases "s_p_f_ctx_add_reduce_area code (mc_type_size mc) (pf_page_size (mc_pf mc)) (fst r) (snd r) areas")
      (simp_all add: f_add_reduce_def fortran_add_reduce_area_def set_reduces_def)
qed simp_all

lemma parallel_begin_areas:
  assumes "fortran_areas code mc (take max_reduces reduces) [] = Inr areas"
  shows "parallel_begin code mc False ctx reduces e p
    = (if e then f_enter_parallel mc (waiting ctx areas, p) else Some ([], Inr (), waiting ctx areas, p))"
proof -
  have "f_init False ctx default_f_par_ctx = Inr (waiting ctx [])"
    by (simp add: f_init_def s_p_f_new_ctx_def new_par_ctx_base_def default_f_par_ctx_def)
  then show ?thesis using assms by (simp add: parallel_begin_def add_reduces_areas)
qed

lemma f_enter_waiting:
  "f_enter_parallel mc (waiting ctx areas, p) =
     map_option (\<lambda>(out, r, c, p'). (out, r, entered c, p')) (do_enter_parallel mc True (fresh_ctx ctx areas, p))"
  by (cases "do_enter_parallel mc True (fresh_ctx ctx areas, p)")
    (auto simp: f_enter_parallel_def s_p_f_ctx_begin_parallel_def fortran_enter_parallel_def)

lemma ctor_enters:
  assumes "par_ctx_ctor mc False ctx e areas p = Some (out, Inr (), Some c, p')"
  shows "do_enter_parallel mc e (fresh_ctx ctx areas, p) = Some (out, Inr (), c, p')"
  using assms by (auto simp: par_ctx_ctor_def new_par_ctx_base_def split: option.splits sum.splits prod.splits)

lemma parallel_end_entered: "parallel_end mc (entered c) s = do_exit_parallel mc c s"
proof (cases "do_exit_parallel mc c s")
  case None
  then show ?thesis by (simp add: parallel_end_def f_exit_parallel_def fortran_exit_parallel_def)
next
  case (Some x)
  obtain r flag w where x: "x = (r, flag, w)" by (cases x) auto
  show ?thesis
    using Some unfolding x
    by (cases r)
      (auto simp: parallel_end_def f_exit_parallel_def fortran_exit_parallel_def f_finalize_def f_delete_def
        s_p_f_del_ctx_def split: continues.splits)
qed

text \<open>
  C21. A Fortran region that is entered is the C++ region with the areas of its reduction parameters: when
  \<^verbatim>\<open>parallel_begin.h\<close> can build the areas and the C++ class enters with them, it sends the same messages
  and leaves the process in the same state, the region sees the same communicator, and \<^verbatim>\<open>parallel_end.h\<close>
  with the finalization behind it does exactly one \<^verbatim>\<open>do_exit_parallel\<close>.
\<close>

theorem fortran_region_is_cxx:
  assumes "fortran_areas code mc (take max_reduces reduces) [] = Inr areas"
    and "par_ctx_ctor mc False ctx True areas p = Some (out, Inr (), Some c, p')"
  shows "\<exists>self. parallel_begin code mc False ctx reduces True p = Some (out, Inr (), self, p') \<and>
    f_get_comm self = Inr (get_comm c) \<and> (\<forall>s. parallel_end mc self s = do_exit_parallel mc c s)"
  using ctor_enters [OF assms(2)]
  by (simp add: parallel_begin_areas [OF assms(1)] f_enter_waiting parallel_end_entered f_get_comm_def
      s_p_get_comm_from_ctx_def)

text \<open>
  C22. A Fortran region whose condition is false is not told so: \<^verbatim>\<open>parallel_begin.h\<close> then makes no call, so
  that \<^verbatim>\<open>get_comm\<close> returns the communicator of all ranks although only this rank runs the region, and a
  collective call in it waits for ranks that do not come. The C++ class switches to the communicator of
  this rank alone. Leaving the region does nothing in both.
\<close>

theorem fortran_skipped_region:
  assumes "fortran_areas code mc (take max_reduces reduces) [] = Inr areas"
  shows "\<exists>self c. parallel_begin code mc False ctx reduces False p = Some ([], Inr (), self, p) \<and>
    par_ctx_ctor mc False ctx False areas p = Some ([], Inr (), Some c, p) \<and>
    f_get_comm self = Inr S_p_comm \<and> get_comm c = S_p_comm_self \<and>
    (\<forall>s. parallel_end mc self s = Some (Inr Behind_call, s) \<and> do_exit_parallel mc c s = Some (Inr Behind_call, s))"
  by (simp add: parallel_begin_areas [OF assms] par_ctx_ctor_def new_par_ctx_base_def do_enter_inactive get_comm_def
      f_get_comm_def s_p_get_comm_from_ctx_def parallel_end_def f_exit_parallel_def fortran_exit_parallel_def
      f_finalize_def f_delete_def s_p_f_del_ctx_def do_exit_parallel_def)

section \<open>Witnesses\<close>

text \<open>One reduction parameter that is defined: a variable of 8 bytes.\<close>

definition demo_code :: "cfi_type \<Rightarrow> int" where
  "demo_code t = (if t = CFI_type_double then 1 else 0)"

definition demo_reduces :: "(cfi_cdesc \<times> mpi_op) option list" where
  "demo_reduces = [None, Some (\<lparr>cd_base_addr = 0x1000, cd_type = 1, cd_rank = 0, cd_extent = (\<lambda>i. 0)\<rparr>, MPI_SUM)]"

abbreviation demo_area :: reduce_area where
  "demo_area \<equiv> demo_reduce 0x1000 1"

lemma demo_fortran_areas:
  "fortran_areas demo_code (demo_mc (demo_pf m)) (take max_reduces demo_reduces) [] = Inr [demo_area]"
proof -
  have "ftype_2_mpi_type demo_code 1 = Inr MPI_DOUBLE"
    by (simp add: ftype_2_mpi_type_def lookup_code_def cfi_type_2_mpi_type_def demo_code_def)
  then show ?thesis
    by (simp add: max_reduces_def demo_reduces_def s_p_f_ctx_add_reduce_area_def array_length_def
        reduce_area_of_type_def init_inner_pages_def memarea2innerpgrng_def demo_reduce_def demo_mc_def assertE_def
        bindE_def Let_def addr2pgnum_def ma_end_def)
qed

lemma demo_area_verified: "verify_reduces_no_overlap [demo_area] = Inr ()"
  by (simp add: verify_reduces_no_overlap_def verify_outer.simps verify_inner.simps)

lemma demo_area_entered:
  "\<exists>out c p. par_ctx_ctor (demo_mc (demo_pf (\<lambda>a. 7))) False 9 True [demo_area] demo_process = Some (out, Inr (), Some c, p) \<and>
    pc_entered c \<and> get_comm c = S_p_comm"
proof -
  have "scan_ok 4096 8 demo_pread demo_entry one_block demo_intervals [()] [demo_area]"
    using demo_scan_ok by (simp add: scan_ok_def reduces_ok_def demo_reduce_def get_inner_pages_def)
  then have "leader_ok demo_outstanding rs_mem demo_entry (demo_pf (\<lambda>a. 7)) [demo_area] demo_leader"
    using demo_leader_ok by (simp add: leader_ok_def)
  then obtain out l where "leader_enter_parallel_impl (demo_pf (\<lambda>a. 7)) 9 [demo_area] demo_leader = Some (out, Inr (), l)"
    using leader_sends [of demo_outstanding rs_mem demo_entry "demo_pf (\<lambda>a. 7)" "[demo_area]" demo_leader 9]
    by (auto simp: demo_use_heap)
  then show ?thesis
    using do_enter_switches [OF demo_can_enter [of "demo_pf (\<lambda>a. 7)"] demo_area_verified, of 9 out "Inr ()" l]
    by (simp add: par_ctx_ctor_def new_par_ctx_base_def get_comm_def)
qed

theorem fortran_region_is_cxx_witness:
  "\<exists>out self p. parallel_begin demo_code (demo_mc (demo_pf (\<lambda>a. 7))) False 9 demo_reduces True demo_process
      = Some (out, Inr (), self, p) \<and> f_get_comm self = Inr S_p_comm"
proof -
  obtain out c p where "par_ctx_ctor (demo_mc (demo_pf (\<lambda>a. 7))) False 9 True [demo_area] demo_process = Some (out, Inr (), Some c, p)"
    "get_comm c = S_p_comm"
    using demo_area_entered by blast
  then show ?thesis using fortran_region_is_cxx [OF demo_fortran_areas [of "\<lambda>a. 7"]] by metis
qed

theorem fortran_skipped_region_witness:
  "\<exists>self. parallel_begin demo_code (demo_mc (demo_pf (\<lambda>a. 7))) False 9 demo_reduces False demo_process
      = Some ([], Inr (), self, demo_process) \<and> f_get_comm self = Inr S_p_comm"
proof -
  from fortran_skipped_region [OF demo_fortran_areas [of "\<lambda>a. 7"], of 9 demo_process] show ?thesis by blast
qed

end
