(* ===== verification/Init.thy ===== *)
theory Init
  imports Par_Ctx
begin

text \<open>
  Program start (\<^verbatim>\<open>init.cc\<close>, \<^verbatim>\<open>override_main.cc\<close>): the settings from the environment, the checks, and
  \<^verbatim>\<open>fake_main\<close>, which runs the program's \<^verbatim>\<open>main\<close> on rank 0 and the worker loop on the others. What the
  process meets outside is collected in a record; what it does to the outside is a list of events.
\<close>

section \<open>Numbers in strings\<close>

text \<open>The standard library's \<^verbatim>\<open>stoi\<close> and \<^verbatim>\<open>stoull\<close>; \<open>None\<close> is a thrown exception.\<close>

definition is_space :: "char \<Rightarrow> bool" where
  "is_space c \<longleftrightarrow> c \<in> set [CHR 0x20, CHR 0x09, CHR 0x0A, CHR 0x0B, CHR 0x0C, CHR 0x0D]"

definition digit_value :: "char \<Rightarrow> nat option" where
  "digit_value c =
     (let n = of_char c
      in if 48 \<le> n \<and> n \<le> 57 then Some (n - 48)
         else if 97 \<le> n \<and> n \<le> 122 then Some (n - 87)
         else if 65 \<le> n \<and> n \<le> 90 then Some (n - 55)
         else None)"

definition is_digit :: "nat \<Rightarrow> char \<Rightarrow> bool" where
  "is_digit base c \<longleftrightarrow> (case digit_value c of None \<Rightarrow> False | Some d \<Rightarrow> d < base)"

fun read_digits :: "nat \<Rightarrow> string \<Rightarrow> nat \<Rightarrow> nat" where
  "read_digits base [] acc = acc"
| "read_digits base (c # s) acc =
     (if is_digit base c then read_digits base s (acc * base + the (digit_value c)) else acc)"

definition split_sign :: "string \<Rightarrow> bool \<times> string" where
  "split_sign s = (case s of [] \<Rightarrow> (False, [])
     | c # s' \<Rightarrow> if c = CHR ''-'' then (True, s') else if c = CHR ''+'' then (False, s') else (False, s))"

text \<open>The prefix of hexadecimal numbers counts only when a digit follows it.\<close>

definition strip_0x :: "string \<Rightarrow> string" where
  "strip_0x s =
     (if take 1 s = ''0'' \<and> (take 1 (drop 1 s) = ''x'' \<or> take 1 (drop 1 s) = ''X'') \<and>
         (case drop 2 s of [] \<Rightarrow> False | c # _ \<Rightarrow> is_digit 16 c)
      then drop 2 s else s)"

definition starts_digit :: "nat \<Rightarrow> string \<Rightarrow> bool" where
  "starts_digit base s \<longleftrightarrow> (case s of [] \<Rightarrow> False | c # _ \<Rightarrow> is_digit base c)"

definition stoull_16 :: "string \<Rightarrow> u64 option" where
  "stoull_16 str =
     (case split_sign (dropWhile is_space str) of (neg, s) \<Rightarrow>
        let digits = strip_0x s; n = read_digits 16 digits 0
        in if \<not> starts_digit 16 digits then None
           else if n \<ge> 2 ^ 64 then None
           else Some (if neg then - of_nat n else of_nat n))"

definition stoi :: "string \<Rightarrow> int option" where
  "stoi str =
     (case split_sign (dropWhile is_space str) of (neg, s) \<Rightarrow>
        let n = (if neg then - int (read_digits 10 s 0) else int (read_digits 10 s 0))
        in if \<not> starts_digit 10 s then None
           else if n < - (2 ^ 31) \<or> n \<ge> 2 ^ 31 then None
           else Some n)"

section \<open>Settings\<close>

type_synonym environment = "string \<Rightarrow> string option"

definition debug :: "environment \<Rightarrow> bool" where
  "debug env \<longleftrightarrow> env ''SIMPLE_PARALLEL_DEBUG'' \<noteq> None"

definition print_timing :: "environment \<Rightarrow> bool" where
  "print_timing env \<longleftrightarrow> env ''SIMPLE_PARALLEL_PRINT_TIMING'' \<noteq> None"

record mpi_info =
  world_size :: int
  world_rank :: int

text \<open>The static variables of \<^verbatim>\<open>get_mpi_info_from_env\<close> and their first values.\<close>

record mpi_info_statics =
  mi_initialized :: bool
  mi_world_size :: int
  mi_world_rank :: int

definition mpi_info_start :: mpi_info_statics where
  "mpi_info_start = \<lparr>mi_initialized = False, mi_world_size = 1, mi_world_rank = 0\<rparr>"

definition ret_single_rank :: "mpi_info_statics \<Rightarrow> mpi_info \<times> mpi_info_statics" where
  "ret_single_rank st = (\<lparr>world_size = 1, world_rank = 0\<rparr>, st\<lparr>mi_world_size := 1, mi_world_rank := 0\<rparr>)"

definition get_mpi_info_from_env :: "environment \<Rightarrow> mpi_info_statics \<Rightarrow> mpi_info \<times> mpi_info_statics" where
  "get_mpi_info_from_env env st =
     (let return_statics = (\<lambda>st. (\<lparr>world_size = mi_world_size st, world_rank = mi_world_rank st\<rparr>, st))
      in if \<not> mi_initialized st then
           let st1 = st\<lparr>mi_initialized := True\<rparr>
           in (case (env ''OMPI_COMM_WORLD_SIZE'', env ''OMPI_COMM_WORLD_RANK'') of
                 (Some world_size_char, Some world_rank_char) \<Rightarrow>
                   (case stoi world_size_char of
                      None \<Rightarrow> ret_single_rank st1
                    | Some sz \<Rightarrow>
                        (let st2 = st1\<lparr>mi_world_size := sz\<rparr>
                         in case stoi world_rank_char of
                              None \<Rightarrow> ret_single_rank st2
                            | Some rank \<Rightarrow> return_statics (st2\<lparr>mi_world_rank := rank\<rparr>)))
               | _ \<Rightarrow> ret_single_rank st1)
         else return_statics st)"

definition parse_setting :: "string option \<Rightarrow> u64 \<Rightarrow> string \<Rightarrow> u64 result" where
  "parse_setting value dflt msg =
     (case value of
        None \<Rightarrow> Inr dflt
      | Some s \<Rightarrow> (case stoull_16 s of None \<Rightarrow> Inl (Runtime msg) | Some n \<Rightarrow> Inr n))"

definition get_reserved_heap :: "environment \<Rightarrow> mpi_info \<Rightarrow> mem_area result" where
  "get_reserved_heap env info =
     assertE (world_size info \<noteq> 1)
       (bindE (parse_setting (env ''SIMPLE_PARALLEL_RESERVED_HEAP_ADDR'') 0x410000000000
            ''Failed to parse SIMPLE_PARALLEL_RESERVED_HEAP_ADDR'') (\<lambda>start.
          bindE (parse_setting (env ''SIMPLE_PARALLEL_RESERVED_HEAP_SIZE'') 0x100000000000
            ''Failed to parse SIMPLE_PARALLEL_RESERVED_HEAP_SIZE'') (\<lambda>sz.
            Inr \<lparr>ma_data = start, ma_size = sz\<rparr>)))"

datatype thread_level = Single | Funneled | Serialized | Multiple

definition parse_thread_level :: "environment \<Rightarrow> thread_level result" where
  "parse_thread_level env =
     (case env ''SIMPLE_PARALLEL_MPI_THREAD_LEVEL'' of
        None \<Rightarrow> Inr Serialized
      | Some l \<Rightarrow>
          if l = ''single'' then Inr Single
          else if l = ''funneled'' then Inr Funneled
          else if l = ''serialized'' then Inr Serialized
          else if l = ''multiple'' then Inr Multiple
          else Inl (Runtime (''Invalid SIMPLE_PARALLEL_MPI_THREAD_LEVEL: '' @ l @ newline)))"

section \<open>Checks\<close>

definition check_pagesize :: "u64 \<Rightarrow> u64 \<Rightarrow> unit result" where
  "check_pagesize page_size actual_pagesize =
     (if page_size \<noteq> actual_pagesize then Inl (Runtime ''Error: page size mismatch'') else Inr ())"

text \<open>\<open>affinity\<close> is the number of processors in the set \<^verbatim>\<open>sched_getaffinity\<close> returns, \<open>None\<close> when it fails.\<close>

definition get_avail_cpu_count :: "nat option \<Rightarrow> nat result" where
  "get_avail_cpu_count affinity =
     (case affinity of None \<Rightarrow> Inl (Runtime ''Failed to get CPU affinity, reason: '') | Some n \<Rightarrow> Inr n)"

definition check_cpu_binding :: "environment \<Rightarrow> nat option \<Rightarrow> nat \<Rightarrow> int \<Rightarrow> unit result" where
  "check_cpu_binding env affinity hardware_concurrency rank =
     (if env ''SIMPLE_PARALLEL_SKIP_CORE_BIND_CHECK'' \<noteq> None then Inr ()
      else bindE (get_avail_cpu_count affinity) (\<lambda>n.
        if n \<le> 2 \<and> hardware_concurrency > 2 then Inl (Runtime ''Error: CPU avaliable to rank is restricted.'')
        else Inr ()))"

definition ADDR_NO_RANDOMIZE :: u64 where
  "ADDR_NO_RANDOMIZE = 0x0040000"

text \<open>The first line of \<^verbatim>\<open>/proc/self/personality\<close>; \<open>None\<close> when the file cannot be opened.\<close>

definition aslr_disabled :: "string option \<Rightarrow> bool result" where
  "aslr_disabled line =
     (case line of
        None \<Rightarrow> Inl (Runtime ''Failed to open /proc/self/personality'')
      | Some l \<Rightarrow>
          (case stoull_16 l of
             None \<Rightarrow> Inl (Runtime (''Failed to parse /proc/self/personality, str: '' @ l @ newline))
           | Some personality \<Rightarrow> Inr (personality AND ADDR_NO_RANDOMIZE \<noteq> 0)))"

text \<open>
  The rest of \<^verbatim>\<open>check_aslr_disabled\<close> on one rank: \<open>all_disabled\<close> is what \<^verbatim>\<open>all_reduce\<close> returns. \<open>Inl\<close> is the end
  of the program by \<^verbatim>\<open>MPI_Abort\<close>, with what this rank prints before it.
\<close>

datatype aslr_message = Not_disabled_on_all_ranks | Not_disabled_on_rank int

definition check_aslr :: "bool \<Rightarrow> bool \<Rightarrow> int \<Rightarrow> aslr_message list + unit" where
  "check_aslr all_disabled disabled rank =
     (if \<not> all_disabled then
        Inl ((if rank = 0 then [Not_disabled_on_all_ranks] else []) @ (if disabled then [Not_disabled_on_rank rank] else []))
      else Inr ())"

section \<open>\<open>fake_main\<close>\<close>

text \<open>How the program's \<^verbatim>\<open>main\<close> ends.\<close>

datatype main_end = Main_returns int | Main_throws error | Main_exits int

text \<open>
  What one process meets: \<open>st_personality\<close> and \<open>st_all_disabled\<close> for the check of address space
  randomisation, \<open>st_main\<close> for the program and \<open>st_worker\<close> for the result of \<^verbatim>\<open>worker\<close>, \<open>None\<close> when it
  does not return.
\<close>

record launch =
  st_env :: environment
  st_statics :: mpi_info_statics
  st_size :: int
  st_rank :: int
  st_page_size :: u64
  st_actual_pagesize :: u64
  st_affinity :: "nat option"
  st_hardware_concurrency :: nat
  st_personality :: "string option"
  st_all_disabled :: bool
  st_refs_opened :: bool
  st_getcontext_ok :: bool
  st_swapcontext_ok :: bool
  st_main :: main_end
  st_worker :: "int result option"

datatype event =
    Sent rpc_tag | Main_ran | Worker_ran | Heap_registered | Soft_dirty_cleared | Finished_set
  | Mpi_finalized | Printed

text \<open>
  How the inner \<^verbatim>\<open>try\<close> block ends: by \<^verbatim>\<open>return\<close>, by an exception, by \<^verbatim>\<open>exit()\<close> in the program, by
  \<^verbatim>\<open>MPI_Abort\<close>, or never.
\<close>

datatype block_end = Returned int | Thrown error | Exited int | Aborted | Never_ends

definition main_wrap :: "launch \<Rightarrow> event list \<times> block_end" where
  "main_wrap s =
     (if \<not> st_swapcontext_ok s then ([Finished_set], Thrown (Runtime ''Failed to swapcontext, reason: ''))
      else (case st_main s of
          Main_exits n \<Rightarrow> ([Main_ran], Exited n)
        | Main_throws e \<Rightarrow> ([Main_ran, Finished_set], Thrown e)
        | Main_returns n \<Rightarrow> ([Main_ran, Finished_set, Sent Tag_exit], Returned n)))"

definition run_leader :: "launch \<Rightarrow> event list \<times> block_end" where
  "run_leader s =
     (if \<not> st_refs_opened s then ([Heap_registered], Thrown (Runtime ''Failed to open /proc/self/clear_refs''))
      else if \<not> st_getcontext_ok s then
        ([Heap_registered, Soft_dirty_cleared], Thrown (Runtime ''Failed to getcontext, reason: ''))
      else (case main_wrap s of (ev, r) \<Rightarrow> ([Heap_registered, Soft_dirty_cleared] @ ev, r)))"

definition run_worker :: "launch \<Rightarrow> event list \<times> block_end" where
  "run_worker s =
     (case st_worker s of
        None \<Rightarrow> ([Worker_ran], Never_ends)
      | Some (Inl e) \<Rightarrow> ([Worker_ran], Thrown e)
      | Some (Inr n) \<Rightarrow> ([Worker_ran], Returned n))"

definition run_single :: "launch \<Rightarrow> event list \<times> block_end" where
  "run_single s =
     (case st_main s of
        Main_exits n \<Rightarrow> ([Printed, Main_ran], Exited n)
      | Main_throws e \<Rightarrow> ([Printed, Main_ran], Thrown e)
      | Main_returns n \<Rightarrow> ([Printed, Main_ran], Returned n))"

text \<open>The inner \<^verbatim>\<open>try\<close> block from \<^verbatim>\<open>check_pagesize\<close> on.\<close>

definition run_block :: "launch \<Rightarrow> mpi_info \<Rightarrow> event list \<times> block_end" where
  "run_block s info =
     (case check_pagesize (st_page_size s) (st_actual_pagesize s) of
        Inl e \<Rightarrow> ([], Thrown e)
      | Inr u \<Rightarrow>
        (case check_cpu_binding (st_env s) (st_affinity s) (st_hardware_concurrency s) (st_rank s) of
           Inl e \<Rightarrow> ([], Thrown e)
         | Inr u \<Rightarrow>
           if st_env s ''OMPI_COMM_WORLD_SIZE'' = None \<or> st_env s ''OMPI_COMM_WORLD_RANK'' = None then
             if st_size s > 1 then ([Printed], Returned 1) else run_single s
           else if st_size s \<noteq> world_size info \<or> st_rank s \<noteq> world_rank info then ([], Aborted)
           else
             (case (if st_size s > 1 then
                      (case aslr_disabled (st_personality s) of
                         Inl e \<Rightarrow> Inl (Thrown e)
                       | Inr d \<Rightarrow> (case check_aslr (st_all_disabled s) d (st_rank s) of Inl ms \<Rightarrow> Inl Aborted | Inr u \<Rightarrow> Inr ()))
                    else Inr ()) of
                Inl r \<Rightarrow> ([], r)
              | Inr u \<Rightarrow> if world_rank info = 0 then run_leader s else run_worker s)))"

text \<open>
  The process as a whole: \<open>(status, events)\<close>. On a return or an exception \<^verbatim>\<open>del_mpi_env\<close> resets the MPI
  environment before the exit handler \<^verbatim>\<open>exit_work\<close> looks at it; on \<^verbatim>\<open>exit()\<close> the handler finds it, sends
  the exit tag and resets it. \<open>None\<close> is a process that does not end.
\<close>

definition fake_main :: "launch \<Rightarrow> (int \<times> event list) option" where
  "fake_main s =
     (case parse_thread_level (st_env s) of
        Inl e \<Rightarrow> Some (1, [Printed])
      | Inr level \<Rightarrow>
          (case run_block s (fst (get_mpi_info_from_env (st_env s) (st_statics s))) of
             (ev, Returned n) \<Rightarrow> Some (n, ev @ [Mpi_finalized])
           | (ev, Thrown e) \<Rightarrow> Some (1, ev @ [Printed, Mpi_finalized])
           | (ev, Exited n) \<Rightarrow> Some (n, ev @ [Finished_set, Sent Tag_exit, Mpi_finalized])
           | (ev, Aborted) \<Rightarrow> Some (1, ev)
           | (ev, Never_ends) \<Rightarrow> None))"

text \<open>\<^verbatim>\<open>__wrap_main\<close>: \<open>main_called\<close> is its static flag; a second call exits the program.\<close>

definition wrap_main :: "(launch \<Rightarrow> (int \<times> event list) option) \<Rightarrow> launch \<Rightarrow> bool \<Rightarrow> (int \<times> event list) option \<times> bool" where
  "wrap_main fake s main_called = (if main_called then (Some (1, [Printed]), True) else (fake s, True))"

end
