(* ===== verification/Init_Proofs.thy ===== *)
theory Init_Proofs
  imports Init
begin

text \<open>What the start of the program promises: settings, and how the processes end.\<close>

section \<open>Addresses in the environment\<close>

text \<open>How C++ prints a pointer, and the library itself in its tip about the reserved heap.\<close>

definition hex_digit :: "nat \<Rightarrow> char" where
  "hex_digit d = char_of (if d < 10 then 48 + d else 87 + d)"

fun hex_string :: "nat \<Rightarrow> string" where
  "hex_string n = (if n < 16 then [hex_digit n] else hex_string (n div 16) @ [hex_digit (n mod 16)])"

declare hex_string.simps [simp del]

definition print_pointer :: "u64 \<Rightarrow> string" where
  "print_pointer p = ''0x'' @ hex_string (unat p)"

lemma digit_value_hex:
  assumes "d < 16"
  shows "digit_value (hex_digit d) = Some d"
proof -
  have "of_char (hex_digit d) = (if d < 10 then 48 + d else 87 + d)"
    using assms by (simp add: hex_digit_def)
  then show ?thesis using assms by (simp add: digit_value_def Let_def)
qed

lemma is_digit_hex: "d < 16 \<Longrightarrow> is_digit 16 (hex_digit d)"
  by (simp add: is_digit_def digit_value_hex)

lemma read_digits_append:
  "list_all (is_digit base) s \<Longrightarrow> read_digits base (s @ t) acc = read_digits base t (read_digits base s acc)"
  by (induction s arbitrary: acc) simp_all

lemma hex_string_digits: "list_all (is_digit 16) (hex_string n)"
  by (induction n rule: hex_string.induct) (subst hex_string.simps, simp add: is_digit_hex)

lemma read_hex_string: "read_digits 16 (hex_string n) 0 = n"
proof (induction n rule: hex_string.induct)
  case (1 n)
  show ?case
  proof (cases "n < 16")
    case True
    then show ?thesis by (simp add: hex_string.simps [of n] is_digit_hex digit_value_hex)
  next
    case False
    have "read_digits 16 (hex_string n) 0 = read_digits 16 [hex_digit (n mod 16)] (n div 16)"
      using 1 False by (simp add: hex_string.simps [of n] read_digits_append hex_string_digits)
    then show ?thesis by (simp add: is_digit_hex digit_value_hex)
  qed
qed

lemma hex_string_Cons: "\<exists>c s. hex_string n = c # s \<and> is_digit 16 c"
proof -
  have "hex_string n \<noteq> []" by (subst hex_string.simps) simp
  then show ?thesis using hex_string_digits [of n] by (cases "hex_string n") auto
qed

lemma stoull_16_print: "stoull_16 (print_pointer p) = Some p"
proof -
  obtain c s where c: "hex_string (unat p) = c # s" "is_digit 16 c" using hex_string_Cons by blast
  have "split_sign (dropWhile is_space (print_pointer p)) = (False, print_pointer p)"
    by (simp add: print_pointer_def is_space_def split_sign_def)
  moreover have "strip_0x (print_pointer p) = hex_string (unat p)"
    using c by (simp add: print_pointer_def strip_0x_def)
  moreover have "starts_digit 16 (hex_string (unat p))" using c by (simp add: starts_digit_def)
  moreover have "unat p < 2 ^ 64" by (rule unat_less_2p64)
  ultimately show ?thesis by (simp add: stoull_16_def Let_def read_hex_string not_le)
qed

text \<open>
  C23. An address or a size printed as C++ prints pointers, as in the tip of \<^verbatim>\<open>reserve_heap_area\<close>, and put
  into the environment variables is read back exactly.
\<close>

theorem reserved_heap_roundtrip:
  assumes "world_size info \<noteq> 1"
  shows "get_reserved_heap (env(''SIMPLE_PARALLEL_RESERVED_HEAP_ADDR'' \<mapsto> print_pointer (ma_data heap),
      ''SIMPLE_PARALLEL_RESERVED_HEAP_SIZE'' \<mapsto> print_pointer (ma_size heap))) info = Inr heap"
  using assms by (simp add: get_reserved_heap_def parse_setting_def stoull_16_print)

theorem reserved_heap_roundtrip_witness:
  "get_reserved_heap (Map.empty(''SIMPLE_PARALLEL_RESERVED_HEAP_ADDR'' \<mapsto> print_pointer 0x7f0000000000,
      ''SIMPLE_PARALLEL_RESERVED_HEAP_SIZE'' \<mapsto> print_pointer 0x40000000)) \<lparr>world_size = 4, world_rank = 0\<rparr>
    = Inr \<lparr>ma_data = 0x7f0000000000, ma_size = 0x40000000\<rparr>"
  using reserved_heap_roundtrip [of "\<lparr>world_size = 4, world_rank = 0\<rparr>" Map.empty
      "\<lparr>ma_data = 0x7f0000000000, ma_size = 0x40000000\<rparr>"] by simp

section \<open>The answer of \<open>get_mpi_info_from_env\<close> never changes\<close>

text \<open>
  All calls of \<^verbatim>\<open>get_mpi_info_from_env\<close> return what the first one returned, on every path of the
  first one, bad and missing variables included, and whatever has become of the environment since.
\<close>

theorem mpi_info_stable:
  "get_mpi_info_from_env env' (snd (get_mpi_info_from_env env mpi_info_start))
    = get_mpi_info_from_env env mpi_info_start"
  by (auto simp: get_mpi_info_from_env_def mpi_info_start_def ret_single_rank_def Let_def split: option.splits)

section \<open>The message about address space randomisation\<close>

text \<open>
  When the check fails, a rank prints that randomisation is not disabled on it exactly if it is
  disabled on it.
\<close>

lemma aslr_message_inverted:
  "\<exists>ms. check_aslr False disabled rank = Inl ms \<and> (Not_disabled_on_rank rank \<in> set ms \<longleftrightarrow> disabled)"
  by (simp add: check_aslr_def)

section \<open>How the root process ends\<close>

text \<open>A process that gets as far as running the program's \<^verbatim>\<open>main\<close> as the root of several ranks.\<close>

definition root_launch :: "launch \<Rightarrow> bool" where
  "root_launch s \<longleftrightarrow>
     parse_thread_level (st_env s) \<in> range Inr \<and>
     st_page_size s = st_actual_pagesize s \<and>
     check_cpu_binding (st_env s) (st_affinity s) (st_hardware_concurrency s) (st_rank s) = Inr () \<and>
     st_env s ''OMPI_COMM_WORLD_SIZE'' \<noteq> None \<and> st_env s ''OMPI_COMM_WORLD_RANK'' \<noteq> None \<and>
     fst (get_mpi_info_from_env (st_env s) (st_statics s)) = \<lparr>world_size = st_size s, world_rank = 0\<rparr> \<and>
     st_rank s = 0 \<and> st_size s > 1 \<and>
     aslr_disabled (st_personality s) \<in> range Inr \<and> st_all_disabled s \<and>
     st_refs_opened s \<and> st_getcontext_ok s \<and> st_swapcontext_ok s"

definition root_events :: "main_end \<Rightarrow> event list" where
  "root_events e = [Heap_registered, Soft_dirty_cleared, Main_ran] @
     (case e of
        Main_returns n \<Rightarrow> [Finished_set, Sent Tag_exit, Mpi_finalized]
      | Main_exits n \<Rightarrow> [Finished_set, Sent Tag_exit, Mpi_finalized]
      | Main_throws e \<Rightarrow> [Finished_set, Printed, Mpi_finalized])"

definition root_status :: "main_end \<Rightarrow> int" where
  "root_status e = (case e of Main_returns n \<Rightarrow> n | Main_exits n \<Rightarrow> n | Main_throws e \<Rightarrow> 1)"

lemma root_process:
  assumes "root_launch s"
  shows "fake_main s = Some (root_status (st_main s), root_events (st_main s))"
proof -
  have s: "parse_thread_level (st_env s) \<in> range Inr" "st_page_size s = st_actual_pagesize s"
    "check_cpu_binding (st_env s) (st_affinity s) (st_hardware_concurrency s) (st_rank s) = Inr ()"
    "st_env s ''OMPI_COMM_WORLD_SIZE'' \<noteq> None" "st_env s ''OMPI_COMM_WORLD_RANK'' \<noteq> None"
    "fst (get_mpi_info_from_env (st_env s) (st_statics s)) = \<lparr>world_size = st_size s, world_rank = 0\<rparr>"
    "st_rank s = 0" "st_size s > 1" "aslr_disabled (st_personality s) \<in> range Inr" "st_all_disabled s"
    "st_refs_opened s" "st_getcontext_ok s" "st_swapcontext_ok s"
    using assms unfolding root_launch_def by blast+
  have block: "run_block s \<lparr>world_size = st_size s, world_rank = 0\<rparr> = run_leader s"
    using s by (auto simp: run_block_def check_pagesize_def check_aslr_def)
  obtain l where l: "parse_thread_level (st_env s) = Inr l" using s(1) by auto
  show ?thesis
    unfolding fake_main_def l s(6) sum.case block
    by (simp add: run_leader_def main_wrap_def s(11-13) root_events_def root_status_def split: main_end.splits)
qed

text \<open>
  The root sends the exit tag exactly once when the program's \<^verbatim>\<open>main\<close> returns or calls \<^verbatim>\<open>exit()\<close>, before
  it finalises MPI, and never when \<^verbatim>\<open>main\<close> throws; its status is that of the program, or 1.
\<close>

theorem exit_tag_sent:
  assumes "root_launch s"
  shows "\<exists>ev. fake_main s = Some (root_status (st_main s), ev @ [Mpi_finalized]) \<and>
    count_list ev (Sent Tag_exit) = (case st_main s of Main_throws e \<Rightarrow> 0 | _ \<Rightarrow> 1)"
  using root_process [OF assms]
  by (intro exI [of _ "butlast (root_events (st_main s))"]) (simp add: root_events_def split: main_end.splits)

definition demo_env :: environment where
  "demo_env = [''OMPI_COMM_WORLD_SIZE'' \<mapsto> ''2'', ''OMPI_COMM_WORLD_RANK'' \<mapsto> ''0'',
     ''SIMPLE_PARALLEL_SKIP_CORE_BIND_CHECK'' \<mapsto> ''1'']"

definition demo_launch :: "main_end \<Rightarrow> launch" where
  "demo_launch e = \<lparr>st_env = demo_env, st_statics = mpi_info_start, st_size = 2, st_rank = 0, st_page_size = 4096,
     st_actual_pagesize = 4096, st_affinity = Some 8, st_hardware_concurrency = 8, st_personality = Some ''40000'',
     st_all_disabled = True, st_refs_opened = True, st_getcontext_ok = True, st_swapcontext_ok = True,
     st_main = e, st_worker = Some (Inr 0)\<rparr>"

lemma demo_root_launch: "root_launch (demo_launch e)"
proof -
  have stoi: "stoi ''2'' = Some 2" "stoi ''0'' = Some 0"
    by (simp_all add: stoi_def split_sign_def is_space_def starts_digit_def is_digit_def digit_value_def)
  have personality: "stoull_16 ''40000'' \<noteq> None"
    by (simp add: stoull_16_def split_sign_def is_space_def strip_0x_def starts_digit_def is_digit_def
        digit_value_def Let_def)
  show ?thesis using stoi personality
    by (auto simp: root_launch_def demo_launch_def demo_env_def parse_thread_level_def check_cpu_binding_def
        get_mpi_info_from_env_def mpi_info_start_def Let_def aslr_disabled_def)
qed

theorem exit_tag_sent_witness:
  "\<exists>ev. fake_main (demo_launch (Main_returns 3)) = Some (3, ev @ [Mpi_finalized]) \<and> count_list ev (Sent Tag_exit) = 1"
  using exit_tag_sent [OF demo_root_launch [of "Main_returns 3"]] by (simp add: demo_launch_def root_status_def)

end
