(* ===== verification/Heap_Registry.thy ===== *)
theory Heap_Registry
  imports Page_Sync_Proofs
begin

text \<open>
  The leader's set of heaps (\<^verbatim>\<open>register_heap\<close>, \<^verbatim>\<open>unregister_heap\<close> of \<^verbatim>\<open>leader.cc\<close>), a sorted vector, and the
  allocator of the library's own containers, \<^verbatim>\<open>mi_internal_os_alloc\<close>, which keeps mimalloc's memory id
  behind the array it hands out.
\<close>

section \<open>The set of heaps\<close>

text \<open>Insertion into and removal from Boost's \<^verbatim>\<open>flat_set\<close>.\<close>

fun flat_insert :: "'h::linorder \<Rightarrow> 'h list \<Rightarrow> 'h list" where
  "flat_insert h [] = [h]"
| "flat_insert h (x # xs) = (if h < x then h # x # xs else if h = x then x # xs else x # flat_insert h xs)"

definition flat_erase :: "'h \<Rightarrow> 'h list \<Rightarrow> 'h list" where
  "flat_erase h xs = filter (\<lambda>x. x \<noteq> h) xs"

definition register_heap :: "bool \<Rightarrow> 'h::linorder \<Rightarrow> ('h, 'x) leader \<Rightarrow> ('h, 'x) leader result" where
  "register_heap finished heap st =
     (if finished then Inr st
      else assertE (\<forall>registered_heap \<in> set (ls_heaps st). heap \<noteq> registered_heap)
        (Inr (st\<lparr>ls_heaps := flat_insert heap (ls_heaps st)\<rparr>)))"

definition unregister_heap :: "bool \<Rightarrow> 'h \<Rightarrow> ('h, 'x) leader \<Rightarrow> ('h, 'x) leader" where
  "unregister_heap finished heap st =
     (if finished then st else st\<lparr>ls_heaps := flat_erase heap (ls_heaps st)\<rparr>)"

lemma set_flat_insert: "set (flat_insert h xs) = insert h (set xs)"
  by (induction xs) auto

lemma sorted_flat_insert: "sorted_wrt (<) xs \<Longrightarrow> sorted_wrt (<) (flat_insert h xs)"
  by (induction xs) (auto simp: set_flat_insert)

lemma sorted_flat_erase: "sorted_wrt (<) xs \<Longrightarrow> sorted_wrt (<) (flat_erase h xs)"
  by (simp add: flat_erase_def sorted_wrt_filter)

section \<open>Sequences of calls\<close>

text \<open>What mimalloc's hooks and the program do over time; \<open>Finish\<close> sets \<^verbatim>\<open>finished\<close>.\<close>

datatype 'h heap_call = Register 'h | Unregister 'h | Finish

fun heap_calls :: "'h::linorder heap_call list \<Rightarrow> bool \<times> ('h, 'x) leader \<Rightarrow> (bool \<times> ('h, 'x) leader) result" where
  "heap_calls [] s = Inr s"
| "heap_calls (Register h # cs) s = bindE (register_heap (fst s) h (snd s)) (\<lambda>st. heap_calls cs (fst s, st))"
| "heap_calls (Unregister h # cs) s = heap_calls cs (fst s, unregister_heap (fst s) h (snd s))"
| "heap_calls (Finish # cs) s = heap_calls cs (True, snd s)"

text \<open>The same calls on a mathematical set; \<open>None\<close> is a heap registered twice.\<close>

fun heap_calls_spec :: "'h heap_call list \<Rightarrow> bool \<times> 'h set \<Rightarrow> (bool \<times> 'h set) option" where
  "heap_calls_spec [] s = Some s"
| "heap_calls_spec (Register h # cs) s =
     (if fst s then heap_calls_spec cs s
      else if h \<in> snd s then None else heap_calls_spec cs (False, insert h (snd s)))"
| "heap_calls_spec (Unregister h # cs) s = heap_calls_spec cs (fst s, if fst s then snd s else snd s - {h})"
| "heap_calls_spec (Finish # cs) s = heap_calls_spec cs (True, snd s)"

definition abs_heaps :: "bool \<times> ('h, 'x) leader \<Rightarrow> bool \<times> 'h set" where
  "abs_heaps s = (fst s, set (ls_heaps (snd s)))"

definition heaps_ok :: "('h::linorder, 'x) leader \<Rightarrow> bool" where
  "heaps_ok st \<longleftrightarrow> sorted_wrt (<) (ls_heaps st)"

lemma register_ok:
  assumes "heaps_ok st"
  shows "register_heap f h st = (if \<not> f \<and> h \<in> set (ls_heaps st) then Inl AssertFailed
      else Inr (if f then st else st\<lparr>ls_heaps := flat_insert h (ls_heaps st)\<rparr>))"
    and "heaps_ok (st\<lparr>ls_heaps := flat_insert h (ls_heaps st)\<rparr>)"
  using assms by (auto simp: register_heap_def heaps_ok_def sorted_flat_insert assertE_def)

lemma unregister_ok: "heaps_ok st \<Longrightarrow> heaps_ok (unregister_heap f h st)"
  by (simp add: unregister_heap_def heaps_ok_def sorted_flat_erase)

lemma heap_calls_refine:
  assumes "heaps_ok (snd s)"
  shows "case heap_calls cs s of
      Inl e \<Rightarrow> e = AssertFailed \<and> heap_calls_spec cs (abs_heaps s) = None
    | Inr s' \<Rightarrow> heap_calls_spec cs (abs_heaps s) = Some (abs_heaps s') \<and> heaps_ok (snd s') \<and>
        snd s' = (snd s)\<lparr>ls_heaps := ls_heaps (snd s')\<rparr>"
  using assms
proof (induction cs s rule: heap_calls.induct)
  case (2 h cs s)
  show ?case
  proof (cases "fst s \<or> h \<notin> set (ls_heaps (snd s))")
    case True
    let ?st = "if fst s then snd s else (snd s)\<lparr>ls_heaps := flat_insert h (ls_heaps (snd s))\<rparr>"
    have r: "register_heap (fst s) h (snd s) = Inr ?st" using True register_ok(1) [OF 2(2)] by auto
    have ok: "heaps_ok ?st" using register_ok(2) [OF 2(2)] 2(2) by auto
    have a: "heap_calls_spec (Register h # cs) (abs_heaps s) = heap_calls_spec cs (abs_heaps (fst s, ?st))"
      using True by (auto simp: abs_heaps_def set_flat_insert)
    show ?thesis using 2(1) [of ?st] ok r a by (auto split: sum.splits if_splits)
  next
    case False
    then show ?thesis using register_ok(1) [OF 2(2)] by (simp add: abs_heaps_def)
  qed
next
  case (3 h cs s)
  have a: "abs_heaps (fst s, unregister_heap (fst s) h (snd s))
      = (fst s, if fst s then set (ls_heaps (snd s)) else set (ls_heaps (snd s)) - {h})"
    by (auto simp: abs_heaps_def unregister_heap_def flat_erase_def)
  show ?case
    using 3 unregister_ok [OF 3(2)] a
    by (auto simp: abs_heaps_def unregister_heap_def split: sum.splits if_splits)
qed (auto simp: abs_heaps_def split: sum.splits)


definition demo_heaps :: "(nat, unit) leader" where
  "demo_heaps = \<lparr>ls_mem = \<lparr>pm_begin = 0, memory_operations = [], lm_os = \<lparr>rs_mem = (\<lambda>a. 0), rs_ext = ()\<rparr>\<rparr>,
     ls_heaps = [], ls_default_heap = 0, ls_mpi_heap = None\<rparr>"


section \<open>\<open>mi_internal_os_alloc\<close>\<close>

text \<open>
  \<open>os_alloc\<close> and \<open>os_free\<close> are mimalloc's \<^verbatim>\<open>_mi_os_alloc\<close> and \<^verbatim>\<open>_mi_os_free\<close>; a memory id is the bytes of an
  \<^verbatim>\<open>mi_memid_t\<close>. \<open>sizeof_t\<close> and \<open>sizeof_memid\<close> are the \<^verbatim>\<open>sizeof\<close> of the two types.
\<close>

type_synonym 'x os_alloc = "u64 \<Rightarrow> 'x rank_state \<Rightarrow> u64 option \<times> 8 word list \<times> 'x rank_state"
type_synonym 'x os_free = "u64 \<Rightarrow> u64 \<Rightarrow> 8 word list \<Rightarrow> 'x rank_state \<Rightarrow> 'x rank_state"

definition allocate :: "u64 \<Rightarrow> u64 \<Rightarrow> 'x os_alloc \<Rightarrow> u64 \<Rightarrow> 'x rank_state \<Rightarrow> (u64 \<times> 'x rank_state) result" where
  "allocate sizeof_t sizeof_memid os_alloc sz w =
     (if sz > - 1 div sizeof_t then Inl BadArrayNewLength
      else (case os_alloc (sizeof_t * sz + sizeof_memid) w of
          (None, memid, w1) \<Rightarrow> Inl BadAlloc
        | (Some p, memid, w1) \<Rightarrow> Inr (p, w1\<lparr>rs_mem := store_bytes (rs_mem w1) (p + sz * sizeof_t) memid\<rparr>)))"

definition deallocate :: "u64 \<Rightarrow> u64 \<Rightarrow> 'x os_free \<Rightarrow> u64 \<Rightarrow> u64 \<Rightarrow> 'x rank_state \<Rightarrow> 'x rank_state" where
  "deallocate sizeof_t sizeof_memid os_free p sz w =
     (let memid = load_bytes (rs_mem w) (p + sz * sizeof_t) (unat sizeof_memid)
      in os_free p (sizeof_t * sz + sizeof_memid) memid w)"

lemma load_stored:
  assumes "n < 2 ^ 64" "length bs = n" "\<And>x. x \<in> block a n \<Longrightarrow> mem' x = store_bytes mem a bs x"
  shows "load_bytes mem' a n = bs"
proof (rule nth_equalityI)
  fix i
  assume "i < length (load_bytes mem' a n)"
  then have i: "i < n" by (simp add: load_bytes_def)
  then have "unat (of_nat i :: u64) = i" using assms(1) by (intro unat_of_nat_64) simp
  moreover have "a + of_nat i \<in> block a n" using i by (auto simp: block_def)
  ultimately show "load_bytes mem' a n ! i = bs ! i"
    using i assms by (simp add: load_bytes_def store_bytes_def)
qed (simp add: load_bytes_def assms(2))

text \<open>
  Freeing gives mimalloc back what it gave: the same address and length and the memory id of the
  allocation, however the array has been written to in between.
\<close>

theorem allocation_roundtrip:
  assumes "os_alloc (sizeof_t * sz + sizeof_memid) w = (Some p, memid, w1)" "length memid = unat sizeof_memid"
    and "allocate sizeof_t sizeof_memid os_alloc sz w = Inr (q, w2)"
    and "\<And>x. x \<in> block (q + sz * sizeof_t) (unat sizeof_memid) \<Longrightarrow> rs_mem w3 x = rs_mem w2 x"
  shows "q = p \<and> deallocate sizeof_t sizeof_memid os_free q sz w3 = os_free p (sizeof_t * sz + sizeof_memid) memid w3"
proof -
  have q: "q = p" "w2 = w1\<lparr>rs_mem := store_bytes (rs_mem w1) (p + sz * sizeof_t) memid\<rparr>"
    using assms(1,3) by (auto simp: allocate_def split: if_splits)
  have "load_bytes (rs_mem w3) (p + sz * sizeof_t) (unat sizeof_memid) = memid"
    using assms(2,4) q by (intro load_stored [where mem = "rs_mem w1"]) simp_all
  then show ?thesis using q(1) by (simp add: deallocate_def)
qed

definition demo_os_alloc :: "unit os_alloc" where
  "demo_os_alloc n w = (Some 4096, replicate 24 7, w)"

definition blank :: "unit rank_state" where
  "blank = \<lparr>rs_mem = (\<lambda>a. 0), rs_ext = ()\<rparr>"

theorem allocation_roundtrip_witness:
  "\<exists>w. allocate 8 24 demo_os_alloc 256 blank = Inr (4096, w) \<and>
    deallocate 8 24 (\<lambda>p n memid w. if p = 4096 \<and> n = 2072 \<and> memid = replicate 24 7 then blank else w) 4096 256 w = blank"
proof -
  obtain w where w: "allocate 8 24 demo_os_alloc 256 blank = Inr (4096, w)"
    by (simp add: allocate_def demo_os_alloc_def)
  have d: "demo_os_alloc (8 * 256 + 24) blank = (Some 4096, replicate 24 7, blank)" by (simp add: demo_os_alloc_def)
  show ?thesis
    using allocation_roundtrip [where os_free = "\<lambda>p n memid w. if p = 4096 \<and> n = 2072 \<and> memid = replicate 24 7 then blank else w",
        OF d _ w, of w] w
    by simp
qed

text \<open>
  The test against overflow leaves out the memory id: for \<open>2 ^ 61 - 1\<close> pointers it passes, mimalloc is asked
  for 16 bytes, and the memory id is stored 8 bytes before them.
\<close>

lemma allocation_wraps:
  "allocate 8 24 os_alloc (2 ^ 61 - 1) w =
     (case os_alloc 16 w of
        (None, memid, w1) \<Rightarrow> Inl BadAlloc
      | (Some p, memid, w1) \<Rightarrow> Inr (p, w1\<lparr>rs_mem := store_bytes (rs_mem w1) (p - 8) memid\<rparr>))"
proof -
  have "8 * (2 ^ 61 - 1) + 24 = (16 :: u64)" "(2 ^ 61 - 1) * 8 = (- 8 :: u64)"
    "(2 ^ 61 - 1 > - 1 div (8 :: u64)) = False" by code_simp+
  then show ?thesis by (simp only: allocate_def if_False add_uminus_conv_diff)
qed

end
