(* ===== verification/Fortran_Schedule.thy ===== *)
theory Fortran_Schedule
  imports Task_Iterator "HOL-Library.Signed_Division"
begin

text \<open>
  The scheduler of the Fortran binding (\<^verbatim>\<open>fortran_dynamic_schedule_binding.cc\<close> and \<^verbatim>\<open>.f90\<close>) on one rank.
  A \<^verbatim>\<open>parallel_scheduler\<close> holds another generator and is a generator itself, so both have the type
  \<open>f_generator\<close>. The integers are of kind \<^verbatim>\<open>c_int64_t\<close>, with the wrap-around of the compilers the
  library supports.
\<close>

section \<open>Generators\<close>

text \<open>\<open>ob_buffer b i\<close> is \<^verbatim>\<open>buffer(i)\<close>; elements that are not assigned keep what was in the variable.\<close>

record optional_buffer =
  ob_has_value :: bool
  ob_buffer :: "nat \<Rightarrow> int"

type_synonym 's f_generator = "'s \<Rightarrow> (optional_buffer \<times> 's) result"

definition i64 :: "int \<Rightarrow> int" where
  "i64 n = signed_take_bit 63 n"

record gss_scheduler =
  fg_current :: int
  fg_end :: int
  fg_thread_count :: int
  fg_grainsize :: int

definition gss_init :: "int \<Rightarrow> int \<Rightarrow> int \<Rightarrow> int \<Rightarrow> gss_scheduler" where
  "gss_init begin_idx end_idx thread_count grainsize =
     \<lparr>fg_current = begin_idx, fg_end = end_idx, fg_thread_count = thread_count, fg_grainsize = grainsize\<rparr>"

text \<open>\<open>junk\<close> is the content of the result variable before the call.\<close>

definition fortran_gss_next :: "optional_buffer \<Rightarrow> gss_scheduler f_generator" where
  "fortran_gss_next junk self =
     (let remaining = i64 (fg_end self - fg_current self + 1)
      in if remaining = 0 then Inr (junk\<lparr>ob_has_value := False\<rparr>, self)
         else if fg_thread_count self = 0 then Inl DivByZero
         else
           let n1 = i64 ((remaining - 1) sdiv fg_thread_count self + 1);
               n2 = max n1 (fg_grainsize self);
               next_count = min n2 remaining
           in Inr (\<lparr>ob_has_value = True,
                  ob_buffer = (ob_buffer junk)(1 := fg_current self, 2 := i64 (fg_current self + next_count - 1))\<rparr>,
                self\<lparr>fg_current := i64 (fg_current self + next_count)\<rparr>))"

section \<open>The iterator and the scheduler object\<close>

record 's f_iterator =
  fi_buffer :: optional_buffer
  fi_state :: 's

definition f_iterator_call :: "'s f_generator \<Rightarrow> 's \<Rightarrow> 's f_iterator result" where
  "f_iterator_call get_next st = bindE (get_next st) (\<lambda>r. Inr \<lparr>fi_buffer = fst r, fi_state = snd r\<rparr>)"

record 's s_p_f_dynamic_schedule =
  sf_buffer_size :: nat
  sf_iter :: "'s f_iterator"

definition s_p_f_get_detail :: "nat \<Rightarrow> 's f_generator \<Rightarrow> 's \<Rightarrow> nat \<Rightarrow> 's s_p_f_dynamic_schedule result" where
  "s_p_f_get_detail hardware_concurrency get_next st buffer_size =
     bindE (f_iterator_call get_next st) (\<lambda>it.
       Inr \<lparr>sf_buffer_size = (if buffer_size = 0 then hardware_concurrency else buffer_size), sf_iter = it\<rparr>)"

definition s_p_f_get_buffer :: "'s s_p_f_dynamic_schedule \<Rightarrow> optional_buffer" where
  "s_p_f_get_buffer d = fi_buffer (sf_iter d)"

definition s_p_f_done :: "'s s_p_f_dynamic_schedule \<Rightarrow> bool" where
  "s_p_f_done d \<longleftrightarrow> \<not> ob_has_value (fi_buffer (sf_iter d))"

definition s_p_f_parallel_scheduler_advance ::
  "'s f_generator \<Rightarrow> 's s_p_f_dynamic_schedule \<Rightarrow> 's s_p_f_dynamic_schedule result" where
  "s_p_f_parallel_scheduler_advance get_next d =
     bindE (f_iterator_call get_next (fi_state (sf_iter d))) (\<lambda>it. Inr (d\<lparr>sf_iter := it\<rparr>))"

definition parallel_scheduler_next :: "'s f_generator \<Rightarrow> 's s_p_f_dynamic_schedule f_generator" where
  "parallel_scheduler_next get_next d =
     (let res = s_p_f_get_buffer d
      in if s_p_f_done d then Inr (res\<lparr>ob_has_value := False\<rparr>, d)
         else bindE (s_p_f_parallel_scheduler_advance get_next d) (\<lambda>d'. Inr (res, d')))"

section \<open>Generators are sources of tasks\<close>

definition f_take :: "'s f_generator \<Rightarrow> 's \<Rightarrow> ((nat \<Rightarrow> int) option \<times> 's) result" where
  "f_take get_next st =
     bindE (get_next st) (\<lambda>r. Inr (if ob_has_value (fst r) then Some (ob_buffer (fst r)) else None, snd r))"

definition f_schedule_ok :: "('s \<Rightarrow> bool) \<Rightarrow> 's s_p_f_dynamic_schedule \<Rightarrow> bool" where
  "f_schedule_ok ok d = ok (fi_state (sf_iter d))"

definition f_schedule_left :: "('s \<Rightarrow> (nat \<Rightarrow> int) list) \<Rightarrow> 's s_p_f_dynamic_schedule \<Rightarrow> (nat \<Rightarrow> int) list" where
  "f_schedule_left left d = (if s_p_f_done d then [] else ob_buffer (s_p_f_get_buffer d) # left (fi_state (sf_iter d)))"

locale fortran_generator = task_source "f_take get_next" ok left
  for get_next :: "'s f_generator" and ok left
begin

lemma call_ok:
  assumes "ok st"
  obtains it where "f_iterator_call get_next st = Inr it" "ok (fi_state it)"
    "(if ob_has_value (fi_buffer it) then ob_buffer (fi_buffer it) # left (fi_state it) else []) = left st"
proof -
  obtain r s' where f: "f_take get_next st = Inr (r, s')" "ok s'"
    "left st = (case r of None \<Rightarrow> [] | Some v \<Rightarrow> v # left s')" "r = None \<longrightarrow> left s' = []"
    by (rule take_cases [OF assms]) auto
  obtain b where "get_next st = Inr (b, s')" "(if ob_has_value b then Some (ob_buffer b) else None) = r"
    using f(1) unfolding f_take_def result_iff by auto
  then show thesis
    using f by (intro that [of "\<lparr>fi_buffer = b, fi_state = s'\<rparr>"]) (auto simp: f_iterator_call_def)
qed

lemma new_schedule:
  assumes "ok st"
  obtains d where "s_p_f_get_detail hc get_next st n = Inr d" "f_schedule_ok ok d" "f_schedule_left left d = left st"
proof -
  obtain it where "f_iterator_call get_next st = Inr it" "ok (fi_state it)"
    "(if ob_has_value (fi_buffer it) then ob_buffer (fi_buffer it) # left (fi_state it) else []) = left st"
    using call_ok [OF assms] .
  then show thesis
    by (intro that [of "\<lparr>sf_buffer_size = (if n = 0 then hc else n), sf_iter = it\<rparr>"])
      (simp_all add: s_p_f_get_detail_def f_schedule_ok_def f_schedule_left_def s_p_f_done_def s_p_f_get_buffer_def
        split: if_splits)
qed

end

sublocale fortran_generator \<subseteq> scheduled:
  task_source "f_take (parallel_scheduler_next get_next)" "f_schedule_ok ok" "f_schedule_left left"
proof
  fix d
  assume "f_schedule_ok ok d" "f_schedule_left left d = []"
  then show "\<exists>d'. f_take (parallel_scheduler_next get_next) d = Inr (None, d') \<and> f_schedule_ok ok d' \<and>
      f_schedule_left left d' = []"
    by (simp add: f_take_def parallel_scheduler_next_def f_schedule_left_def Let_def split: if_splits)
next
  fix d v vs
  assume d: "f_schedule_ok ok d" "f_schedule_left left d = v # vs"
  then have v: "\<not> s_p_f_done d" "v = ob_buffer (s_p_f_get_buffer d)" "left (fi_state (sf_iter d)) = vs"
    by (auto simp: f_schedule_left_def split: if_splits)
  obtain it where "f_iterator_call get_next (fi_state (sf_iter d)) = Inr it" "ok (fi_state it)"
    "(if ob_has_value (fi_buffer it) then ob_buffer (fi_buffer it) # left (fi_state it) else []) = vs"
    using call_ok [of "fi_state (sf_iter d)"] d(1) v(3) by (auto simp: f_schedule_ok_def)
  then show "\<exists>d'. f_take (parallel_scheduler_next get_next) d = Inr (Some v, d') \<and> f_schedule_ok ok d' \<and>
      f_schedule_left left d' = vs"
    using v by (simp add: f_take_def parallel_scheduler_next_def s_p_f_parallel_scheduler_advance_def f_schedule_ok_def
        f_schedule_left_def s_p_f_done_def s_p_f_get_buffer_def split: if_splits)
qed

section \<open>The guided generator of the Fortran binding\<close>

text \<open>
  The range ends below the largest integer, so that the index behind it exists, and it may be reversed, as the
  range of a Fortran loop may.
\<close>

definition fg_range_ok :: "int \<Rightarrow> int \<Rightarrow> bool" where
  "fg_range_ok begin_idx end_idx \<longleftrightarrow> - (2 ^ 63) \<le> begin_idx \<and> begin_idx < 2 ^ 63 \<and> - (2 ^ 63) \<le> end_idx \<and>
     end_idx + 1 < 2 ^ 63 \<and> - (2 ^ 63) \<le> end_idx - begin_idx \<and> end_idx + 1 - begin_idx < 2 ^ 63"

definition fg_ok :: "gss_scheduler \<Rightarrow> bool" where
  "fg_ok st \<longleftrightarrow> 0 < fg_thread_count st \<and> fg_range_ok (fg_current st) (fg_end st)"

definition fg_piece :: "gss_scheduler \<Rightarrow> nat \<Rightarrow> nat" where
  "fg_piece st = gss_piece (nat (fg_thread_count st)) (nat (fg_grainsize st))"

definition fg_task :: "optional_buffer \<Rightarrow> int \<Rightarrow> nat \<times> nat \<Rightarrow> nat \<Rightarrow> int" where
  "fg_task junk cur t = (ob_buffer junk)(1 := cur + int (fst t), 2 := cur + int (fst t) + int (snd t) - 1)"

definition fg_tasks :: "optional_buffer \<Rightarrow> gss_scheduler \<Rightarrow> (nat \<Rightarrow> int) list" where
  "fg_tasks junk st =
     (if fg_end st + 1 < fg_current st then [(ob_buffer junk)(1 := fg_current st, 2 := fg_end st)]
      else map (fg_task junk (fg_current st)) (tiles (fg_piece st) 0 (nat (fg_end st + 1 - fg_current st))))"

lemma i64_id: "- (2 ^ 63) \<le> n \<Longrightarrow> n < 2 ^ 63 \<Longrightarrow> i64 n = n"
  by (simp add: i64_def signed_take_bit_int_eq_self)

lemma int_piece:
  fixes g r :: int
  shows "0 < r \<Longrightarrow> min (max (int q + 1) g) r = int (min (max (q + 1) (nat g)) (nat r))"
  by linarith

lemma fg_next_count:
  assumes "fg_ok st" "fg_current st \<le> fg_end st"
  defines "r \<equiv> fg_end st + 1 - fg_current st"
  shows "min (max (i64 ((r - 1) sdiv fg_thread_count st + 1)) (fg_grainsize st)) r = int (fg_piece st (nat r))"
proof -
  have t: "0 < fg_thread_count st" and r: "0 < r" "r < 2 ^ 63" using assms by (auto simp: fg_ok_def fg_range_ok_def)
  have "(r - 1) sdiv fg_thread_count st = (r - 1) div fg_thread_count st"
    using t r by (simp add: signed_divide_int_def sgn_if)
  moreover have "int (nat r - 1) = r - 1" using r by simp
  then have e: "(r - 1) div fg_thread_count st = int ((nat r - 1) div nat (fg_thread_count st))"
    using t by (simp add: zdiv_int)
  then have d: "0 \<le> (r - 1) div fg_thread_count st" "(r - 1) div fg_thread_count st \<le> r - 1"
    using div_le_dividend [of "nat r - 1" "nat (fg_thread_count st)"] r by linarith+
  ultimately have "i64 ((r - 1) sdiv fg_thread_count st + 1) = (r - 1) div fg_thread_count st + 1"
    using r by (simp add: i64_id)
  then show ?thesis
    unfolding fg_piece_def gss_piece_def int_piece [OF r(1), symmetric] by (simp only: e)
qed

lemma fg_task_shift: "fg_task junk (cur + int n) t = fg_task junk cur (n + fst t, snd t)"
  by (simp add: fg_task_def algebra_simps)

lemma fg_tasks_Cons:
  assumes "fg_ok st" "fg_current st \<le> fg_end st"
  defines "n \<equiv> fg_piece st (nat (fg_end st + 1 - fg_current st))"
  shows "fg_ok (st\<lparr>fg_current := fg_current st + int n\<rparr>)"
    and "fg_tasks junk st = fg_task junk (fg_current st) (0, n) # fg_tasks junk (st\<lparr>fg_current := fg_current st + int n\<rparr>)"
    and "0 < n" "int n \<le> fg_end st + 1 - fg_current st"
proof -
  let ?left = "nat (fg_end st + 1 - fg_current st)"
  have left: "0 < ?left" using assms(2) by simp
  then have n: "0 < n" "n \<le> ?left"
    unfolding n_def fg_piece_def using gss_pieces.piece_pos gss_pieces.piece_le by blast+
  then show "0 < n" "int n \<le> fg_end st + 1 - fg_current st" by linarith+
  then show "fg_ok (st\<lparr>fg_current := fg_current st + int n\<rparr>)" using assms(1,2) by (simp add: fg_ok_def fg_range_ok_def)
  have l: "nat (fg_end st + 1 - (fg_current st + int n)) = ?left - n" using n by simp
  have p: "fg_piece (st\<lparr>fg_current := fg_current st + int n\<rparr>) = fg_piece st" by (simp add: fg_piece_def)
  have "tiles (fg_piece st) 0 ?left = (0, n) # tiles (fg_piece st) n (?left - n)"
    using gss_pieces.tiles_Cons [OF left] by (simp add: n_def fg_piece_def)
  moreover have "tiles (fg_piece st) n (?left - n) = map (\<lambda>(l, m). (n + l, m)) (tiles (fg_piece st) 0 (?left - n))"
    using gss_pieces.tiles_shift [of "nat (fg_thread_count st)" "nat (fg_grainsize st)" n 0] by (simp add: fg_piece_def)
  ultimately show "fg_tasks junk st
      = fg_task junk (fg_current st) (0, n) # fg_tasks junk (st\<lparr>fg_current := fg_current st + int n\<rparr>)"
    using assms(2) n(2) by (simp add: fg_tasks_def p l fg_task_shift case_prod_unfold comp_def)
qed

lemma fg_tasks_Nil: "fg_ok st \<Longrightarrow> fg_tasks junk st = [] \<longleftrightarrow> fg_current st = fg_end st + 1"
  using fg_tasks_Cons(2) [of st junk] by (cases "fg_current st \<le> fg_end st") (auto simp: fg_ok_def fg_tasks_def)

lemma fg_next_task:
  assumes "fg_ok st" "fg_current st \<le> fg_end st"
  defines "n \<equiv> fg_piece st (nat (fg_end st + 1 - fg_current st))"
  shows "f_take (fortran_gss_next junk) st
    = Inr (Some (fg_task junk (fg_current st) (0, n)), st\<lparr>fg_current := fg_current st + int n\<rparr>)"
proof -
  let ?r = "fg_end st + 1 - fg_current st"
  have n: "0 < n" "int n \<le> ?r" using fg_tasks_Cons(3,4) [OF assms(1,2)] by (simp_all add: n_def)
  have "?r < 2 ^ 63" "0 < ?r" using assms by (auto simp: fg_ok_def fg_range_ok_def)
  then have "i64 (fg_end st - fg_current st + 1) = ?r" by (simp add: i64_def signed_take_bit_int_eq_self)
  moreover have "i64 (fg_current st + int n - 1) = fg_current st + int n - 1" "i64 (fg_current st + int n) = fg_current st + int n"
    using n assms(1) by (simp_all add: fg_ok_def fg_range_ok_def i64_id)
  ultimately show ?thesis
    using fg_next_count [OF assms(1,2)] assms(1,2) n
    by (simp add: f_take_def fortran_gss_next_def Let_def fg_task_def fg_ok_def n_def)
qed

lemma fg_next_reversed:
  assumes "fg_ok st" "fg_end st + 1 < fg_current st"
  shows "f_take (fortran_gss_next junk) st =
    Inr (Some ((ob_buffer junk)(1 := fg_current st, 2 := fg_end st)), st\<lparr>fg_current := fg_end st + 1\<rparr>)"
proof -
  let ?r = "fg_end st + 1 - fg_current st" and ?q = "(fg_current st - fg_end st) div fg_thread_count st"
  have t: "0 < fg_thread_count st" and range: "fg_range_ok (fg_current st) (fg_end st)" using assms(1) by (simp_all add: fg_ok_def)
  have r: "?r < 0" "?r - 1 = - (fg_current st - fg_end st)" "0 < fg_current st - fg_end st" using assms(2) by simp_all
  have rem: "i64 (fg_end st - fg_current st + 1) = ?r" using range assms(2) by (simp add: fg_range_ok_def i64_id)
  have d: "(?r - 1) sdiv fg_thread_count st = - ?q" using t r by (simp add: signed_divide_int_def)
  have q: "0 \<le> ?q" "?q \<le> fg_current st - fg_end st"
    using t r(3) zdiv_mono2 [of "fg_current st - fg_end st" 1 "fg_thread_count st"]
    by (simp_all add: pos_imp_zdiv_nonneg_iff)
  then have "i64 (- ?q + 1) = - ?q + 1" using range r(3) by (intro i64_id) (simp_all add: fg_range_ok_def)
  then have "min (max (i64 ((?r - 1) sdiv fg_thread_count st + 1)) (fg_grainsize st)) ?r = ?r" using q(2) unfolding d by simp
  moreover have "i64 (fg_end st) = fg_end st" "i64 (fg_end st + 1) = fg_end st + 1"
    using range by (simp_all add: fg_range_ok_def i64_id)
  ultimately show ?thesis
    using r(1) t by (simp add: f_take_def fortran_gss_next_def Let_def rem)
qed

lemma fg_next_end:
  assumes "fg_ok st" "fg_current st = fg_end st + 1"
  shows "f_take (fortran_gss_next junk) st = Inr (None, st)"
  using assms by (simp add: f_take_def fortran_gss_next_def Let_def i64_def)

interpretation fg_source: fortran_generator "fortran_gss_next junk" fg_ok "fg_tasks junk" for junk
proof
  fix st
  assume "fg_ok st" "fg_tasks junk st = []"
  then show "\<exists>st'. f_take (fortran_gss_next junk) st = Inr (None, st') \<and> fg_ok st' \<and> fg_tasks junk st' = []"
    by (simp add: fg_tasks_Nil fg_next_end)
next
  fix st v vs
  assume s: "fg_ok st" "fg_tasks junk st = v # vs"
  show "\<exists>st'. f_take (fortran_gss_next junk) st = Inr (Some v, st') \<and> fg_ok st' \<and> fg_tasks junk st' = vs"
  proof (cases "fg_end st + 1 < fg_current st")
    case True
    then show ?thesis using fg_next_reversed [OF s(1) True, of junk] s by (simp add: fg_tasks_def fg_ok_def fg_range_ok_def)
  next
    case False
    then have c: "fg_current st \<le> fg_end st" using fg_tasks_Nil [OF s(1), of junk] s(2) by auto
    show ?thesis using fg_next_task [OF s(1) c, of junk] fg_tasks_Cons(1,2) [OF s(1) c] s(2) by simp
  qed
qed

text \<open>The inner loop of a Fortran loop, \<^verbatim>\<open>do index = buffer(1), buffer(2)\<close>.\<close>

definition do_indices :: "(nat \<Rightarrow> int) \<Rightarrow> int list" where
  "do_indices buffer = [buffer 1 .. buffer 2]"

lemma do_indices_task: "do_indices (fg_task junk cur (l, n)) = map (\<lambda>i. cur + int i) [l ..< l + n]"
proof (rule nth_equalityI)
  show "do_indices (fg_task junk cur (l, n)) ! i = map (\<lambda>i. cur + int i) [l ..< l + n] ! i"
    if "i < length (do_indices (fg_task junk cur (l, n)))" for i
    using that by (simp add: do_indices_def fg_task_def)
qed (simp add: do_indices_def fg_task_def)

lemma fg_tasks_exact:
  assumes "fg_ok st"
  shows "concat (map do_indices (fg_tasks junk st)) = [fg_current st .. fg_end st]"
proof (cases "fg_end st + 1 < fg_current st")
  case True
  then show ?thesis by (simp add: fg_tasks_def do_indices_def)
next
  case False
  let ?left = "nat (fg_end st + 1 - fg_current st)"
  have "concat (map do_indices (map (fg_task junk cur) ts)) = map (\<lambda>i. cur + int i) (tile_indices ts)" for cur ts
    by (induction ts) (auto simp: do_indices_task)
  then have "concat (map do_indices (fg_tasks junk st)) = map (\<lambda>i. fg_current st + int i) [0 ..< ?left]"
    using gss_pieces.tiles_exact [of "nat (fg_thread_count st)" "nat (fg_grainsize st)" 0 ?left]
    using False by (simp add: fg_tasks_def fg_piece_def)
  also have "\<dots> = [fg_current st .. fg_end st]"
    by (intro nth_equalityI) auto
  finally show ?thesis .
qed

text \<open>
  A Fortran loop on one rank runs its body for exactly the indices \<^verbatim>\<open>begin\<close> to \<^verbatim>\<open>end\<close>, each once and in
  order (none if the range is reversed), whatever the variables of the binding held before: the scheduler object is created and taking
  from it ends.
\<close>

theorem fortran_loop_exact:
  assumes "0 < thread_count" "fg_range_ok begin_idx end_idx"
  shows "\<exists>d tasks. s_p_f_get_detail hc (fortran_gss_next junk) (gss_init begin_idx end_idx thread_count grainsize) n = Inr d \<and>
    collect (f_take (parallel_scheduler_next (fortran_gss_next junk))) d = Some (Inr tasks) \<and>
    concat (map do_indices tasks) = [begin_idx .. end_idx]"
proof -
  let ?st = "gss_init begin_idx end_idx thread_count grainsize"
  have ok: "fg_ok ?st" using assms by (simp add: fg_ok_def gss_init_def)
  obtain d where d: "s_p_f_get_detail hc (fortran_gss_next junk) ?st n = Inr d" "f_schedule_ok fg_ok d"
    "f_schedule_left (fg_tasks junk) d = fg_tasks junk ?st"
    by (rule fg_source.new_schedule [OF ok])
  have "concat (map do_indices (fg_tasks junk ?st)) = [begin_idx .. end_idx]"
    using fg_tasks_exact [OF ok] by (simp add: gss_init_def)
  then show ?thesis using d fg_source.scheduled.collect_all [OF d(2)] by simp
qed

theorem fortran_loop_exact_witness:
  "\<exists>d tasks. s_p_f_get_detail 8 (fortran_gss_next \<lparr>ob_has_value = False, ob_buffer = (\<lambda>i. 99)\<rparr>) (gss_init (- 3) 20 4 2) 0 = Inr d \<and>
    collect (f_take (parallel_scheduler_next (fortran_gss_next \<lparr>ob_has_value = False, ob_buffer = (\<lambda>i. 99)\<rparr>))) d
      = Some (Inr tasks) \<and>
    concat (map do_indices tasks) = [- 3 .. 20]"
  by (rule fortran_loop_exact) (simp_all add: fg_range_ok_def)

end
