(* ===== verification/Fortran_Par_For.thy ===== *)
theory Fortran_Par_For
  imports Fortran_Schedule Par_For
begin

text \<open>
  The parallel loop that \<^verbatim>\<open>gss_dynamic_schedule_begin.h\<close> and \<^verbatim>\<open>gss_dynamic_schedule_end.h\<close> put around the
  body of a Fortran loop. Unlike the macros of the C binding it ends with a barrier, behind which one
  thread deletes the scheduler.
\<close>

section \<open>The \<open>single\<close> block\<close>

text \<open>
  On a communicator of one rank, where \<^verbatim>\<open>MPI_Allreduce\<close> leaves the number of threads as it is; the rest of
  the macro's arguments are expressions of the caller.
\<close>

definition f_par_for_single ::
  "nat \<Rightarrow> optional_buffer \<Rightarrow> int \<Rightarrow> int \<Rightarrow> int \<Rightarrow> nat \<Rightarrow> gss_scheduler s_p_f_dynamic_schedule result" where
  "f_par_for_single hc junk begin_idx end_idx grainsize omp_num_threads =
     (let all_thread_count = i64 (int omp_num_threads);
          gss_gen = gss_init begin_idx end_idx (i64 (all_thread_count * 40)) grainsize
      in s_p_f_get_detail hc (fortran_gss_next junk) gss_gen omp_num_threads)"

section \<open>The team\<close>

text \<open>
  \<open>Looping\<close> is before the critical section, \<open>Leaving\<close> at the barrier, \<open>Left_loop\<close> behind the second \<^verbatim>\<open>single\<close>
  block and the barrier it implies; \<open>ft_deleted\<close> counts the calls of \<^verbatim>\<open>del\<close>.
\<close>

record ('s, 'v) f_team =
  ft_scheduler :: 's
  ft_threads :: "'v thread list"
  ft_deleted :: nat
  ft_runs :: "(nat \<times> 'v) list"

definition f_team_start :: "nat \<Rightarrow> 's \<Rightarrow> ('s, 'v) f_team" where
  "f_team_start k d = \<lparr>ft_scheduler = d, ft_threads = replicate (Suc k) Looping, ft_deleted = 0, ft_runs = []\<rparr>"

definition at_barrier :: "('s, 'v) f_team \<Rightarrow> bool" where
  "at_barrier s \<longleftrightarrow> (\<forall>t \<in> set (ft_threads s). t = Leaving)"

inductive f_team_step ::
  "('s \<Rightarrow> ('v option \<times> 's) result) \<Rightarrow> ('s, 'v) f_team \<Rightarrow> bool \<Rightarrow> ('s, 'v) f_team \<Rightarrow> bool"
  for critical :: "'s \<Rightarrow> ('v option \<times> 's) result" where
  F_take:
    "i < length (ft_threads s) \<Longrightarrow> ft_threads s ! i = Looping \<Longrightarrow> critical (ft_scheduler s) = Inr (Some v, d) \<Longrightarrow>
     f_team_step critical s True (s\<lparr>ft_scheduler := d, ft_threads := (ft_threads s)[i := Running v]\<rparr>)"
| F_exit:
    "i < length (ft_threads s) \<Longrightarrow> ft_threads s ! i = Looping \<Longrightarrow> critical (ft_scheduler s) = Inr (None, d) \<Longrightarrow>
     f_team_step critical s True (s\<lparr>ft_scheduler := d, ft_threads := (ft_threads s)[i := Leaving]\<rparr>)"
| F_work:
    "i < length (ft_threads s) \<Longrightarrow> ft_threads s ! i = Running v \<Longrightarrow>
     f_team_step critical s True (s\<lparr>ft_threads := (ft_threads s)[i := Looping], ft_runs := ft_runs s @ [(i, v)]\<rparr>)"
| F_delete:
    "ft_threads s \<noteq> [] \<Longrightarrow> at_barrier s \<Longrightarrow>
     f_team_step critical s True
       (s\<lparr>ft_threads := map (\<lambda>t. Left_loop) (ft_threads s), ft_deleted := ft_deleted s + 1\<rparr>)"

inductive_cases f_team_stepE: "f_team_step critical s b t"

definition f_all_left :: "('s, 'v) f_team \<Rightarrow> bool" where
  "f_all_left s \<longleftrightarrow> (\<forall>t \<in> set (ft_threads s). t = Left_loop)"

section \<open>Any team on any source of tasks\<close>

locale f_team = task_source critical ok left
  for critical :: "'s \<Rightarrow> ('v option \<times> 's) result" and ok left +
  fixes tasks :: "'v list" and k :: nat
begin

definition starts :: "('s, 'v) f_team \<Rightarrow> bool" where
  "starts s \<longleftrightarrow> (\<exists>d. s = f_team_start k d \<and> ok d \<and> left d = tasks)"

definition inv :: "('s, 'v) f_team \<Rightarrow> bool" where
  "inv s \<longleftrightarrow> length (ft_threads s) = Suc k \<and> ok (ft_scheduler s) \<and>
     mset (map snd (ft_runs s)) + sum_list (map running (ft_threads s)) + mset (left (ft_scheduler s)) = mset tasks \<and>
     ((\<exists>t \<in> set (ft_threads s). outside t) \<longrightarrow> left (ft_scheduler s) = []) \<and>
     (Left_loop \<in> set (ft_threads s) \<longrightarrow> f_all_left s) \<and>
     ft_deleted s = (if f_all_left s then 1 else 0)"

definition steps_left :: "('s, 'v) f_team \<Rightarrow> nat" where
  "steps_left s = 2 * length (left (ft_scheduler s)) + sum_list (map weight (ft_threads s))"

lemma starts_inv: "starts s \<Longrightarrow> inv s"
  by (auto simp: starts_def inv_def f_team_start_def f_all_left_def running_replicate
      simp del: map_replicate replicate.simps(2))

lemma inv_source: "inv s \<Longrightarrow> ok (ft_scheduler s)"
  by (simp add: inv_def)

text \<open>A thread that is not behind the end shows that none is.\<close>

lemma nobody_left:
  assumes "inv s" "i < length (ft_threads s)" "ft_threads s ! i \<noteq> Left_loop"
  shows "Left_loop \<notin> set (ft_threads s)" "\<not> f_all_left s" "ft_deleted s = 0"
proof -
  show "\<not> f_all_left s" using assms(2,3) by (auto simp: f_all_left_def)
  then show "Left_loop \<notin> set (ft_threads s)" "ft_deleted s = 0" using assms(1) by (auto simp: inv_def)
qed

lemma update_stays:
  assumes "Left_loop \<notin> set ts" "x \<noteq> Left_loop"
  shows "Left_loop \<notin> set (ts[i := x])"
  using assms set_update_subset_insert [of ts i x] by blast

lemma none_left: "ts \<noteq> [] \<Longrightarrow> Left_loop \<notin> set ts \<Longrightarrow> \<not> (\<forall>t \<in> set ts. t = Left_loop)"
  by (cases ts) auto

lemma step_progress:
  assumes "inv s" "f_team_step critical s b t"
  shows "inv t \<and> b \<and> steps_left t < steps_left s"
  using assms(2)
proof (cases rule: f_team_step.cases)
  case (F_take i v d)
  have l: "left (ft_scheduler s) = v # left d" "ok d"
    using take_cases [OF inv_source [OF assms(1)]] F_take(5) by (metis Inr_inject Pair_inject option.distinct(1) option.inject)+
  have n: "ft_threads s ! i \<noteq> Left_loop" using F_take by simp
  note nobody = nobody_left [OF assms(1) F_take(3) n]
  have stays: "Left_loop \<notin> set ((ft_threads s)[i := Running v])" by (rule update_stays [OF nobody(1)]) simp
  have "(ft_threads s)[i := Running v] \<noteq> []" using F_take(3) by auto
  from none_left [OF this stays] show ?thesis
    using assms(1) l F_take nobody stays outside_update [of "ft_threads s" i "Running v"]
      sum_thread_update [of i "ft_threads s" running "Running v"] sum_thread_update [of i "ft_threads s" weight "Running v"]
    by (auto simp: inv_def steps_left_def f_all_left_def)
next
  case (F_exit i d)
  have l: "left (ft_scheduler s) = []" "left d = []" "ok d"
    using take_cases [OF inv_source [OF assms(1)]] F_exit(5) by (metis Inr_inject Pair_inject option.distinct(1))+
  have n: "ft_threads s ! i \<noteq> Left_loop" using F_exit by simp
  note nobody = nobody_left [OF assms(1) F_exit(3) n]
  have stays: "Left_loop \<notin> set ((ft_threads s)[i := Leaving])" by (rule update_stays [OF nobody(1)]) simp
  have "(ft_threads s)[i := Leaving] \<noteq> []" using F_exit(3) by auto
  from none_left [OF this stays] show ?thesis
    using assms(1) l F_exit nobody stays
      sum_thread_update [of i "ft_threads s" running Leaving] sum_thread_update [of i "ft_threads s" weight Leaving]
    by (auto simp: inv_def steps_left_def f_all_left_def)
next
  case (F_work i v)
  have r: "sum_list (map running (ft_threads s)) = add_mset v (sum_list (map running ((ft_threads s)[i := Looping])))"
    using sum_thread_update [of i "ft_threads s" running Looping] F_work by simp
  have n: "ft_threads s ! i \<noteq> Left_loop" using F_work by simp
  note nobody = nobody_left [OF assms(1) F_work(3) n]
  have stays: "Left_loop \<notin> set ((ft_threads s)[i := Looping])" by (rule update_stays [OF nobody(1)]) simp
  have "(ft_threads s)[i := Looping] \<noteq> []" using F_work(3) by auto
  from none_left [OF this stays] show ?thesis
    using assms(1) F_work r nobody stays outside_update [of "ft_threads s" i Looping]
      sum_thread_update [of i "ft_threads s" weight Looping]
    by (auto simp: inv_def steps_left_def f_all_left_def ac_simps)
next
  case F_delete
  have all: "ft_threads s = replicate (Suc k) Leaving"
    using assms(1) F_delete(4) by (intro replicate_eqI) (auto simp: inv_def at_barrier_def)
  then have "outside Leaving \<and> Leaving \<in> set (ft_threads s)" by simp
  then have l: "left (ft_scheduler s) = []" using assms(1) unfolding inv_def by blast
  have "ft_deleted s = 0" using nobody_left(3) [OF assms(1), of 0] all by simp
  then show ?thesis
    using assms(1) l F_delete(1,2) unfolding all
    by (simp add: inv_def steps_left_def f_all_left_def all map_replicate_const sum_list_replicate del: replicate.simps(2))
qed

lemma can_step:
  assumes "inv s" "\<not> f_all_left s"
  shows "\<exists>t. f_team_step critical s True t"
proof (cases "at_barrier s")
  case True
  have "ft_threads s \<noteq> []" using assms(1) by (auto simp: inv_def)
  from F_delete [OF this True] show ?thesis by blast
next
  case False
  then obtain i where i: "i < length (ft_threads s)" "ft_threads s ! i \<noteq> Leaving"
    by (auto simp: at_barrier_def in_set_conv_nth)
  show ?thesis
  proof (cases "ft_threads s ! i")
    case Looping
    obtain r d where "critical (ft_scheduler s) = Inr (r, d)"
      by (rule take_cases [OF inv_source [OF assms(1)]])
    then show ?thesis using F_take [OF i(1) Looping] F_exit [OF i(1) Looping] by (cases r) blast+
  next
    case (Running v)
    show ?thesis using F_work [OF i(1) Running] by blast
  next
    case Left_loop
    then have "Left_loop \<in> set (ft_threads s)" using i(1) nth_mem by metis
    then show ?thesis using assms by (simp add: inv_def)
  qed (use i in simp)
qed

end

sublocale f_team \<subseteq> proto: protocol starts "f_team_step critical" inv f_all_left steps_left
proof
  fix s t :: "('s, 'v) f_team"
  show "inv s \<Longrightarrow> f_team_step critical s False t \<Longrightarrow> steps_left t = steps_left s"
    using step_progress by blast
  show "inv s \<Longrightarrow> \<not> f_all_left s \<Longrightarrow> \<exists>t u. run (f_team_step critical) s 0 t \<and> f_team_step critical t True u"
    using can_step run_here by meson
qed (use starts_inv step_progress in blast)+

context f_team
begin

lemma runs_below:
  assumes "starts s" "reachable (f_team_step critical) s t"
  shows "mset (map snd (ft_runs t)) \<subseteq># mset tasks"
  using proto.reachable_inv [OF assms] unfolding inv_def by (metis mset_subset_eq_add_left union_assoc)

lemma deleted_last:
  assumes "starts s" "reachable (f_team_step critical) s t"
  shows "ft_deleted t = (if f_all_left t then 1 else 0)"
  using proto.reachable_inv [OF assms] by (simp add: inv_def)

lemma left_together:
  assumes "starts s" "reachable (f_team_step critical) s t" "Left_loop \<in> set (ft_threads t)"
  shows "f_all_left t"
  using proto.reachable_inv [OF assms(1,2)] assms(3) by (simp add: inv_def)

lemma all_run:
  assumes "starts s" "reachable (f_team_step critical) s t" "f_all_left t"
  shows "mset (map snd (ft_runs t)) = mset tasks"
proof -
  have i: "inv t" by (rule proto.reachable_inv [OF assms(1,2)])
  then have "ft_threads t \<noteq> []" by (auto simp: inv_def)
  then have "\<exists>x \<in> set (ft_threads t). outside x" using assms(3) by (cases "ft_threads t") (auto simp: f_all_left_def)
  then show ?thesis using i assms(3) running_left [of "ft_threads t"] by (auto simp: inv_def f_all_left_def)
qed

end

section \<open>The loop of a Fortran program\<close>

interpretation fg_team: f_team "f_take (parallel_scheduler_next (fortran_gss_next junk))" "f_schedule_ok fg_ok"
  "f_schedule_left (fg_tasks junk)" tasks k
  for junk tasks k
  by unfold_locales

definition f_loop_ok :: "int \<Rightarrow> int \<Rightarrow> nat \<Rightarrow> bool" where
  "f_loop_ok begin_idx end_idx threads \<longleftrightarrow>
     0 < threads \<and> int threads * 40 < 2 ^ 63 \<and> fg_range_ok begin_idx end_idx"

lemma fg_team_starts:
  assumes "f_loop_ok begin_idx end_idx threads"
  obtains d st where "f_par_for_single hc junk begin_idx end_idx grainsize threads = Inr d"
    "fg_team.starts junk (fg_tasks junk st) k (f_team_start k d)" "fg_ok st" "fg_current st = begin_idx" "fg_end st = end_idx"
proof -
  have a: "0 < threads" "int threads * 40 < 2 ^ 63" "fg_range_ok begin_idx end_idx"
    using assms unfolding f_loop_ok_def by blast+
  have n: "i64 (int threads) = int threads" "i64 (int threads * 40) = int threads * 40"
    using a(1,2) by (simp_all add: i64_def signed_take_bit_int_eq_self)
  let ?st = "gss_init begin_idx end_idx (int threads * 40) grainsize"
  have ok: "fg_ok ?st" using a by (simp add: fg_ok_def gss_init_def)
  obtain d where d: "s_p_f_get_detail hc (fortran_gss_next junk) ?st threads = Inr d" "f_schedule_ok fg_ok d"
    "f_schedule_left (fg_tasks junk) d = fg_tasks junk ?st"
    by (rule fg_source.new_schedule [OF ok])
  show thesis
    by (rule that [of d ?st]) (use d ok n in \<open>auto simp: f_par_for_single_def Let_def fg_team.starts_def gss_init_def\<close>)
qed

lemma fg_team_indices:
  assumes "fg_ok st" "fg_team.starts junk (fg_tasks junk st) k s"
    and "reachable (f_team_step (f_take (parallel_scheduler_next (fortran_gss_next junk)))) s t"
  shows "mset (concat (map do_indices (map snd (ft_runs t)))) \<subseteq># mset [fg_current st .. fg_end st]"
    and "f_all_left t \<Longrightarrow> mset (concat (map do_indices (map snd (ft_runs t)))) = mset [fg_current st .. fg_end st]"
  unfolding fg_tasks_exact [OF assms(1), of junk, symmetric]
  using fg_team.runs_below [OF assms(2,3)] fg_team.all_run [OF assms(2,3)]
  by (blast intro: concat_map_subset concat_map_eq)+

text \<open>
  A parallel Fortran loop on one rank: however the threads interleave, no index is run twice and none
  outside the range; the scheduler is deleted once, when all threads have passed the barrier, and no thread
  goes on before; from every state the team can come to its end; and then the body has run for every
  index from \<^verbatim>\<open>s_p_begin\<close> to \<^verbatim>\<open>s_p_end\<close> exactly once, for a reversed range not at all.
\<close>

theorem fortran_par_for_exact:
  assumes "f_loop_ok begin_idx end_idx threads"
  shows "\<exists>d. f_par_for_single hc junk begin_idx end_idx grainsize threads = Inr d \<and>
    (\<forall>t. reachable (f_team_step (f_take (parallel_scheduler_next (fortran_gss_next junk)))) (f_team_start k d) t \<longrightarrow>
      ft_deleted t = (if f_all_left t then 1 else 0) \<and> (Left_loop \<in> set (ft_threads t) \<longrightarrow> f_all_left t) \<and>
      (\<exists>u. reachable (f_team_step (f_take (parallel_scheduler_next (fortran_gss_next junk)))) t u \<and> f_all_left u) \<and>
      (let indices = mset (concat (map do_indices (map snd (ft_runs t))))
       in indices \<subseteq># mset [begin_idx .. end_idx] \<and> (f_all_left t \<longrightarrow> indices = mset [begin_idx .. end_idx])))"
proof -
  obtain d st where d: "f_par_for_single hc junk begin_idx end_idx grainsize threads = Inr d"
    and s: "fg_team.starts junk (fg_tasks junk st) k (f_team_start k d)"
    and st: "fg_ok st" "fg_current st = begin_idx" "fg_end st = end_idx"
    by (rule fg_team_starts [OF assms])
  show ?thesis
    unfolding Let_def
    using fg_team.left_together [OF s] fg_team_indices [OF st(1) s, unfolded st(2,3)]
    by (intro exI [of _ d] conjI allI impI d fg_team.deleted_last [OF s] fg_team.proto.can_finish [OF s]) blast+
qed

theorem fortran_par_for_exact_witness:
  "\<exists>d. f_par_for_single 8 \<lparr>ob_has_value = False, ob_buffer = (\<lambda>i. 99)\<rparr> (- 3) 20 2 4 = Inr d \<and>
    (\<exists>u. reachable (f_team_step (f_take (parallel_scheduler_next (fortran_gss_next \<lparr>ob_has_value = False, ob_buffer = (\<lambda>i. 99)\<rparr>))))
        (f_team_start 3 d) u \<and> f_all_left u \<and>
      mset (concat (map do_indices (map snd (ft_runs u)))) = mset [- 3 .. 20])"
proof -
  let ?junk = "\<lparr>ob_has_value = False, ob_buffer = (\<lambda>i :: nat. 99 :: int)\<rparr>"
  let ?step = "f_team_step (f_take (parallel_scheduler_next (fortran_gss_next ?junk)))"
  have ok: "f_loop_ok (- 3) 20 4" by (simp add: f_loop_ok_def fg_range_ok_def)
  obtain d where d: "f_par_for_single 8 ?junk (- 3) 20 2 4 = Inr d"
    "\<forall>t. reachable ?step (f_team_start 3 d) t \<longrightarrow> (\<exists>u. reachable ?step t u \<and> f_all_left u) \<and>
      (f_all_left t \<longrightarrow> mset (concat (map do_indices (map snd (ft_runs t)))) = mset [- 3 .. 20])"
    using fortran_par_for_exact [OF ok, of 8 ?junk 2 3] unfolding Let_def by blast
  have "reachable ?step (f_team_start 3 d) (f_team_start 3 d)" using run_here by (intro exI)
  then show ?thesis using d by blast
qed

end
