(* ===== verification/Fortran_Hybrid.thy ===== *)
theory Fortran_Hybrid
  imports Rank_Teams Fortran_Par_For
begin

text \<open>
  The Fortran loop of \<^verbatim>\<open>gss_dynamic_schedule_begin.h\<close> and \<^verbatim>\<open>gss_dynamic_schedule_end.h\<close> on several ranks, with a team
  of threads on each. A team ends with a barrier, behind which one thread deletes the scheduler of its rank.
\<close>

section \<open>The \<open>single\<close> block\<close>

text \<open>
  \<^verbatim>\<open>MPI_Allreduce\<close> is called with \<^verbatim>\<open>MPI_INT\<close> on a variable of 64 bits: it reads and writes the variable's first four
  bytes, the lower half on a little-endian machine. \<open>all_reduce comm n\<close> is the sum over the ranks of \<open>comm\<close>, of which
  this rank contributes \<open>n\<close>.
\<close>

definition first_int :: "int \<Rightarrow> int" where
  "first_int x = signed_take_bit 31 x"

definition put_first_int :: "int \<Rightarrow> int \<Rightarrow> int" where
  "put_first_int x y = x div 2 ^ 32 * 2 ^ 32 + y mod 2 ^ 32"

definition f_all_thread_count :: "('c \<Rightarrow> int \<Rightarrow> int) \<Rightarrow> 'c \<Rightarrow> nat \<Rightarrow> int" where
  "f_all_thread_count all_reduce comm omp_num_threads =
     (let n = i64 (int omp_num_threads) in put_first_int n (all_reduce comm (first_int n)))"

text \<open>The generator the root gives to its scheduler.\<close>

definition f_root_gss_gen :: "('c \<Rightarrow> int \<Rightarrow> int) \<Rightarrow> 'c \<Rightarrow> int \<Rightarrow> int \<Rightarrow> int \<Rightarrow> nat \<Rightarrow> gss_scheduler" where
  "f_root_gss_gen all_reduce comm begin_idx end_idx grainsize omp_num_threads =
     gss_init begin_idx end_idx (i64 (f_all_thread_count all_reduce comm omp_num_threads * 40)) grainsize"

lemma f_all_thread_count:
  assumes "0 < all_reduce comm (int threads)" "all_reduce comm (int threads) < 2 ^ 31" "threads < 2 ^ 31"
  shows "f_all_thread_count all_reduce comm threads = all_reduce comm (int threads)"
    and "i64 (f_all_thread_count all_reduce comm threads * 40) = all_reduce comm (int threads) * 40"
proof -
  have n: "i64 (int threads) = int threads" "first_int (int threads) = int threads"
    using assms(3) by (simp_all add: i64_def first_int_def signed_take_bit_int_eq_self)
  then show c: "f_all_thread_count all_reduce comm threads = all_reduce comm (int threads)"
    using assms by (simp add: f_all_thread_count_def put_first_int_def)
  show "i64 (f_all_thread_count all_reduce comm threads * 40) = all_reduce comm (int threads) * 40"
    unfolding c using assms(1,2) by (intro i64_id) simp_all
qed

section \<open>The end of a team\<close>

record 'v f_hybrid = "'v loops" +
  fh_deleted :: "nat \<Rightarrow> nat"

definition f_hybrid_start :: "(nat \<Rightarrow> nat) \<Rightarrow> 'v sched \<Rightarrow> 'v f_hybrid" where
  "f_hybrid_start k s = loops.extend (loops_start k s) \<lparr>fh_deleted = (\<lambda>r. 0)\<rparr>"

text \<open>Behind the barrier: the call of \<^verbatim>\<open>del\<close> in the second \<^verbatim>\<open>single\<close> block, and the barrier it implies.\<close>

definition delete_behind_barrier :: "nat \<Rightarrow> 'v f_hybrid \<Rightarrow> 'v f_hybrid" where
  "delete_behind_barrier r h =
     h\<lparr>hy_threads := (hy_threads h)(r := map (\<lambda>t. H_left) (hy_threads h r)),
       fh_deleted := (fh_deleted h)(r := fh_deleted h r + 1)\<rparr>"

inductive f_hybrid_step :: "nat \<Rightarrow> 'v f_hybrid \<Rightarrow> bool \<Rightarrow> 'v f_hybrid \<Rightarrow> bool" for n where
  FH_loop: "loop_step n h b h' \<Longrightarrow> f_hybrid_step n h b h'"
| FH_delete:
    "r < n \<Longrightarrow> hy_threads h r \<noteq> [] \<Longrightarrow> \<forall>t \<in> set (hy_threads h r). t = H_leaving \<Longrightarrow>
     f_hybrid_step n h True (delete_behind_barrier r h)"

inductive_cases f_hybrid_stepE: "f_hybrid_step n h b h'"

section \<open>The invariant\<close>

definition together :: "nat \<Rightarrow> 'v f_hybrid \<Rightarrow> nat \<Rightarrow> bool" where
  "together k h r \<longleftrightarrow> present h r = k \<and> fh_deleted h r = 0 \<or> present h r = 0 \<and> fh_deleted h r = 1"

definition f_hybrid_inv :: "nat \<Rightarrow> 'v list \<Rightarrow> (nat \<Rightarrow> nat) \<Rightarrow> 'v f_hybrid \<Rightarrow> bool" where
  "f_hybrid_inv n xs k h \<longleftrightarrow> loops_inv n xs k h \<and> (\<forall>r < n. together (k r) h r)"

lemma loop_step_deleted:
  assumes "loop_step n h b (h' :: 'v f_hybrid)"
  shows "fh_deleted h' = fh_deleted h"
  using assms by (cases rule: loop_step.cases) (simp_all add: set_thread_def)

lemma all_present: "sum_list (map h_present ts) = length ts \<longleftrightarrow> H_left \<notin> set ts"
proof (induction ts)
  case (Cons t ts)
  have "sum_list (map h_present ts) \<le> length ts"
  proof (induction ts)
    case (Cons u us)
    then show ?case by (cases u) simp_all
  qed simp
  then show ?case using Cons by (cases t) auto
qed simp

lemma team_together:
  assumes "loops_inv n xs k h" "r < n" "together (k r) h r"
  shows "(team_left h r \<longleftrightarrow> present h r = 0) \<and> (H_left \<in> set (hy_threads h r) \<longrightarrow> team_left h r) \<and>
    fh_deleted h r = (if team_left h r then 1 else 0)"
proof -
  have k: "0 < k r" "length (hy_threads h r) = k r" using inv_team [OF assms(1,2)] by (simp_all add: team_ok_def)
  have left: "team_left h r \<longleftrightarrow> present h r = 0"
    using h_present_0 [of "hy_threads h r"] by (simp add: team_left_def present_def)
  have "H_left \<notin> set (hy_threads h r) \<longleftrightarrow> present h r = k r"
    using all_present [of "hy_threads h r"] k(2) by (simp add: present_def)
  then show ?thesis using left k(1) assms(3) by (auto simp: together_def)
qed

lemma barrier_sums:
  assumes "\<forall>t \<in> set ts. t = H_leaving"
  shows "sum_list (map h_task ts) = {#}" "sum_list (map h_weight ts) = length ts"
  using assms by (induction ts) auto

lemma delete_inv:
  assumes "f_hybrid_inv n xs k h" "r < n" "hy_threads h r \<noteq> []" "\<forall>t \<in> set (hy_threads h r). t = H_leaving"
  shows "f_hybrid_inv n xs k (delete_behind_barrier r h)"
proof -
  let ?h = "delete_behind_barrier r h"
  have inv: "loops_inv n xs k h" and tog: "\<forall>x < n. together (k x) h x" using assms(1) by (simp_all add: f_hybrid_inv_def)
  have ok: "team_ok (k r) h r" by (rule inv_team [OF inv assms(2)])
  have "hy_threads h r ! 0 = H_leaving" using assms(3,4) by simp
  then have "handler_done (hy_sched h) r" using outside_done [OF ok, of 0] assms(3) by simp
  moreover have left: "\<forall>t \<in> set (map (\<lambda>t. H_left) (hy_threads h r)). t = H_left" by simp
  ultimately have "team_ok (k r) ?h r"
    using ok barrier_sums(1) [OF assms(4)] left_nothing(1) [OF left]
    by (simp add: team_ok_def delete_behind_barrier_def)
  then have "loops_inv n xs k ?h" by (rule thread_step_inv [OF inv assms(2)]) (simp_all add: delete_behind_barrier_def)
  moreover have "present h r \<noteq> 0"
    using h_present_0 [of "hy_threads h r"] assms(3,4) by (cases "hy_threads h r") (auto simp: present_def)
  then have "fh_deleted h r = 0" using tog assms(2) by (auto simp: together_def)
  then have "together (k r) ?h r" using left_nothing(2) [OF left] by (simp add: together_def present_def delete_behind_barrier_def)
  moreover have "together (k x) ?h x" if "x < n" "x \<noteq> r" for x
    using tog that by (simp add: together_def present_def delete_behind_barrier_def)
  ultimately show ?thesis unfolding f_hybrid_inv_def by blast
qed

lemma f_hybrid_step_inv:
  assumes "f_hybrid_inv n xs k h" "f_hybrid_step n h b h'"
  shows "f_hybrid_inv n xs k h'"
  using assms(2)
proof (cases rule: f_hybrid_step.cases)
  case FH_loop
  then show ?thesis
    using assms(1) loop_step_inv [of n xs k h b h'] loop_step_present [OF FH_loop] loop_step_deleted [OF FH_loop]
    by (simp add: f_hybrid_inv_def together_def)
next
  case (FH_delete r)
  then show ?thesis using delete_inv [OF assms(1)] by simp
qed

lemma f_hybrid_step_work:
  assumes "f_hybrid_inv n xs k h" "f_hybrid_step n h b h'"
  shows "if b then loops_work n h' < loops_work n h else loops_work n h' = loops_work n h"
  using assms(2)
proof (cases rule: f_hybrid_step.cases)
  case FH_loop
  then show ?thesis using loop_step_work [of n xs k h b h'] assms(1) by (simp add: f_hybrid_inv_def)
next
  case (FH_delete r)
  have "(\<Sum>x \<in> {0 ..< n}. team_weight h' x) + team_weight h r = (\<Sum>x \<in> {0 ..< n}. team_weight h x) + team_weight h' r"
    unfolding FH_delete(2) by (rule sum_update) (use FH_delete(3) in \<open>simp_all add: team_weight_def delete_behind_barrier_def\<close>)
  moreover have "team_weight h' r < team_weight h r"
    using barrier_sums(2) [OF FH_delete(5)] FH_delete(2,4)
    by (simp add: team_weight_def delete_behind_barrier_def map_replicate_const sum_list_replicate comp_def)
  ultimately show ?thesis using FH_delete(1,2) by (simp add: loops_work_def delete_behind_barrier_def)
qed

lemma f_hybrid_progress:
  assumes "f_hybrid_inv n xs k h" "\<not> all_teams_left n h"
  shows "\<exists>t u. run (f_hybrid_step n) h 0 t \<and> f_hybrid_step n t True u"
proof (cases "\<forall>r < n. all_outside h r")
  case True
  have inv: "loops_inv n xs k h" using assms(1) by (simp add: f_hybrid_inv_def)
  obtain r where r: "r < n" "\<not> team_left h r" using assms(2) by (auto simp: all_teams_left_def)
  have "H_left \<notin> set (hy_threads h r)" "hy_threads h r \<noteq> []"
    using team_together [OF inv r(1)] assms(1) r by (auto simp: f_hybrid_inv_def team_left_def)
  moreover have "t = H_leaving" if "h_outside t" "t \<noteq> H_left" for t :: "'a hthread" using that by (cases t) simp_all
  ultimately have "f_hybrid_step n h True (delete_behind_barrier r h)"
    using True r(1) by (intro FH_delete) (auto simp: all_outside_def)
  then show ?thesis using run_here [of "f_hybrid_step n" h] by blast
next
  case False
  then obtain t u where "run (loop_step n) h 0 t" "loop_step n t True u"
    using loop_progress [of n xs k h] assms(1) unfolding f_hybrid_inv_def by blast
  then show ?thesis using run_lift [of "loop_step n" h 0 t "f_hybrid_step n"] FH_loop by blast
qed

lemma f_hybrid_start_inv:
  assumes "sizes_ok n sizes" "sched_start n sizes xs = Some s" "\<forall>r < n. 0 < k r"
  shows "f_hybrid_inv n xs k (f_hybrid_start k s)"
proof -
  have "loops.truncate (f_hybrid_start k s) = loops_start k s"
    by (simp add: f_hybrid_start_def loops_start_def loops.truncate_def loops.extend_def)
  from loops_start_inv [OF assms(1,2) this assms(3)]
  show ?thesis by (auto simp: f_hybrid_inv_def together_def f_hybrid_start_def loops.extend_def)
qed

interpretation f_hybrid: protocol
  "\<lambda>h. \<exists>sizes s. sizes_ok n sizes \<and> sched_start n sizes xs = Some s \<and> (\<forall>r < n. 0 < k r) \<and> h = f_hybrid_start k s"
  "f_hybrid_step n" "f_hybrid_inv n xs k" "all_teams_left n" "loops_work n"
  for n xs k
proof
  show "loops_work n t < loops_work n h" if "f_hybrid_inv n xs k h" "f_hybrid_step n h True t" for h t :: "'a f_hybrid"
    using f_hybrid_step_work [OF that] by simp
  show "loops_work n t = loops_work n h" if "f_hybrid_inv n xs k h" "f_hybrid_step n h False t" for h t :: "'a f_hybrid"
    using f_hybrid_step_work [OF that] by simp
qed (use f_hybrid_start_inv f_hybrid_step_inv f_hybrid_progress in blast)+

section \<open>The loop on all ranks\<close>

text \<open>
  C26. The parallel Fortran loop on several ranks, with \<open>threads ! r\<close> threads on rank \<open>r\<close>: whatever the interleaving of
  threads, handlers and network, a rank's scheduler is deleted exactly once, behind its team's barrier, before which
  no thread of the team goes on; the loop can always be brought to its end on all ranks; and when all threads are
  behind it, the body has run exactly once for every index from \<^verbatim>\<open>s_p_begin\<close> to \<^verbatim>\<open>s_p_end\<close>, for a reversed range not
  at all, and no message is left. The sum over the ranks fits the \<^verbatim>\<open>MPI_INT\<close> it is computed with.
\<close>

theorem fortran_hybrid_exact:
  assumes "1 < length threads" "\<forall>t \<in> set threads. 0 < t" "threads ! 0 < 2 ^ 31" "fg_range_ok begin_idx end_idx"
    and "0 < all_reduce comm (int (threads ! 0))" "all_reduce comm (int (threads ! 0)) < 2 ^ 31"
  shows "\<exists>tasks s. collect (f_take (fortran_gss_next junk))
        (f_root_gss_gen all_reduce comm begin_idx end_idx grainsize (threads ! 0)) = Some (Inr tasks) \<and>
    distributed_start hc threads tasks = Some s \<and>
    (\<forall>h. reachable (f_hybrid_step (length threads)) (f_hybrid_start (nth threads) s) h \<longrightarrow>
      (\<exists>u. reachable (f_hybrid_step (length threads)) h u \<and> all_teams_left (length threads) u) \<and>
      (\<forall>r < length threads. fh_deleted h r = (if team_left h r then 1 else 0) \<and>
        (H_left \<in> set (hy_threads h r) \<longrightarrow> team_left h r)) \<and>
      (all_teams_left (length threads) h \<longrightarrow>
        (\<Sum>r \<in> {0 ..< length threads}. mset (concat (map do_indices (hy_runs h r)))) = mset [begin_idx .. end_idx] \<and>
        sched_final (length threads) (hy_sched h)))"
proof -
  let ?n = "length threads"
  let ?st = "f_root_gss_gen all_reduce comm begin_idx end_idx grainsize (threads ! 0)"
  let ?tasks = "fg_tasks junk ?st"
  have st: "?st = gss_init begin_idx end_idx (all_reduce comm (int (threads ! 0)) * 40) grainsize"
    using f_all_thread_count(2) [of all_reduce comm "threads ! 0"] assms(3,5,6) by (simp add: f_root_gss_gen_def)
  have ok: "fg_ok ?st" using assms(4,5) unfolding st by (simp add: fg_ok_def gss_init_def)
  have idx: "concat (map do_indices ?tasks) = [begin_idx .. end_idx]"
    using fg_tasks_exact [OF ok, of junk] unfolding st by (simp add: gss_init_def)
  note sizes = all_buffer_sizes_ok [OF assms(1), of hc]
  obtain s where s: "sched_start ?n (all_buffer_sizes hc threads) ?tasks = Some s" using start_exists [OF sizes] by blast
  have "\<forall>r < ?n. 0 < threads ! r" using assms(2) by simp
  then have init: "\<exists>sizes u. sizes_ok ?n sizes \<and> sched_start ?n sizes ?tasks = Some u \<and> (\<forall>r < ?n. 0 < threads ! r) \<and>
      f_hybrid_start (nth threads) s = f_hybrid_start (nth threads) u"
    using sizes s by blast
  have "(\<exists>u. reachable (f_hybrid_step ?n) h u \<and> all_teams_left ?n u) \<and>
      (\<forall>r < ?n. fh_deleted h r = (if team_left h r then 1 else 0) \<and> (H_left \<in> set (hy_threads h r) \<longrightarrow> team_left h r)) \<and>
      (all_teams_left ?n h \<longrightarrow>
        (\<Sum>r \<in> {0 ..< ?n}. mset (concat (map do_indices (hy_runs h r)))) = mset [begin_idx .. end_idx] \<and>
        sched_final ?n (hy_sched h))"
    if h: "reachable (f_hybrid_step ?n) (f_hybrid_start (nth threads) s) h" for h
  proof (intro conjI impI allI)
    have inv: "f_hybrid_inv ?n ?tasks (nth threads) h" by (rule f_hybrid.reachable_inv [OF init h])
    then have loops: "loops_inv ?n ?tasks (nth threads) h" by (simp add: f_hybrid_inv_def)
    show "\<exists>u. reachable (f_hybrid_step ?n) h u \<and> all_teams_left ?n u" by (rule f_hybrid.can_finish [OF init h])
    fix r
    assume r: "r < ?n"
    then have "together (threads ! r) h r" using inv by (simp add: f_hybrid_inv_def)
    note tog = team_together [OF loops r this]
    show "fh_deleted h r = (if team_left h r then 1 else 0)" using tog by blast
    show "H_left \<in> set (hy_threads h r) \<Longrightarrow> team_left h r" using tog by blast
  next
    assume final: "all_teams_left ?n h"
    have inv: "f_hybrid_inv ?n ?tasks (nth threads) h" by (rule f_hybrid.reachable_inv [OF init h])
    then have loops: "loops_inv ?n ?tasks (nth threads) h" by (simp add: f_hybrid_inv_def)
    note runs = all_left_runs [OF loops final]
    show "(\<Sum>r \<in> {0 ..< ?n}. mset (concat (map do_indices (hy_runs h r)))) = mset [begin_idx .. end_idx]"
      unfolding idx [symmetric] by (rule sum_concat_map [OF finite_atLeastLessThan runs(1)])
    show "sched_final ?n (hy_sched h)" by (rule runs(2))
  qed
  then show ?thesis
    using s fg_source.collect_all [OF ok, of junk] unfolding distributed_start_def by blast
qed

theorem fortran_hybrid_exact_witness:
  "\<exists>tasks s h. collect (f_take (fortran_gss_next \<lparr>ob_has_value = False, ob_buffer = (\<lambda>i. 99)\<rparr>))
      (f_root_gss_gen (\<lambda>c n. 7) () (- 3) 20 2 4) = Some (Inr tasks) \<and>
    distributed_start [8, 8, 8] [4, 2, 1] tasks = Some s \<and>
    reachable (f_hybrid_step 3) (f_hybrid_start (nth [4, 2, 1]) s) h \<and> all_teams_left 3 h \<and>
    (\<Sum>r \<in> {0 ..< 3}. mset (concat (map do_indices (hy_runs h r)))) = mset [- 3 .. 20]"
proof -
  let ?junk = "\<lparr>ob_has_value = False, ob_buffer = (\<lambda>i :: nat. 99 :: int)\<rparr>"
  have a: "1 < length [4, 2, 1 :: nat]" "\<forall>t \<in> set [4, 2, 1 :: nat]. 0 < t" "[4, 2, 1 :: nat] ! 0 < 2 ^ 31"
    "fg_range_ok (- 3) 20" "(0 :: int) < 7" "(7 :: int) < 2 ^ 31"
    and n: "length [4, 2, 1 :: nat] = 3" "[4, 2, 1 :: nat] ! 0 = 4"
    by (simp_all add: fg_range_ok_def)
  obtain tasks s where s: "collect (f_take (fortran_gss_next ?junk)) (f_root_gss_gen (\<lambda>c n. 7) () (- 3) 20 2 4) = Some (Inr tasks)"
    "distributed_start [8, 8, 8] [4, 2, 1] tasks = Some s"
    "\<And>h. reachable (f_hybrid_step 3) (f_hybrid_start (nth [4, 2, 1]) s) h \<Longrightarrow>
      (\<exists>u. reachable (f_hybrid_step 3) h u \<and> all_teams_left 3 u) \<and>
      (all_teams_left 3 h \<longrightarrow>
        (\<Sum>r \<in> {0 ..< 3}. mset (concat (map do_indices (hy_runs h r)))) = mset [- 3 .. 20])"
    using fortran_hybrid_exact [where all_reduce = "\<lambda>c n. 7" and comm = "()" and grainsize = 2 and hc = "[8, 8, 8]" and
        junk = ?junk, OF a]
    unfolding n by blast
  have "reachable (f_hybrid_step 3) (f_hybrid_start (nth [4, 2, 1]) s) (f_hybrid_start (nth [4, 2, 1]) s)"
    using run_here by (intro exI)
  then obtain h where "reachable (f_hybrid_step 3) (f_hybrid_start (nth [4, 2, 1]) s) h" "all_teams_left 3 h"
    using s(3) by blast
  then show ?thesis using s by blast
qed

end
