(* ===== verification/Sum_Region.thy ===== *)
theory Sum_Region
  imports Reduce_Region
begin

text \<open>
  A parallel region that sums into one array, from its constructor to its destructor, when each rank's code is a
  function on its memory: stores of integers, loops that add to a variable, and arrays that are added element by
  element.
\<close>

section \<open>Stores\<close>

definition store_le :: "nat \<Rightarrow> u64 \<Rightarrow> u64 \<Rightarrow> memory \<Rightarrow> memory" where
  "store_le n a v mem = (\<lambda>x. let k = unat (x - a) in if k < n then to_byte v k else mem x)"

definition store64 :: "u64 \<Rightarrow> u64 \<Rightarrow> memory \<Rightarrow> memory" where
  "store64 = store_le 8"

definition store32 :: "u64 \<Rightarrow> u32 \<Rightarrow> memory \<Rightarrow> memory" where
  "store32 a v = store_le 4 a (ucast v)"

lemma store_le_outside: "x \<notin> block a n \<Longrightarrow> store_le n a v mem x = mem x"
proof -
  assume x: "x \<notin> block a n"
  have "x = a + of_nat (unat (x - a))" by simp
  then have "\<not> unat (x - a) < n" using x unfolding block_def by blast
  then show ?thesis by (simp add: store_le_def Let_def)
qed

lemma load_store_le: "n \<le> 8 \<Longrightarrow> load_le (store_le n a v mem) a n = take_bit (8 * n) v"
proof (rule load_le_bytes)
  assume n: "n \<le> 8"
  show "\<forall>j < n. store_le n a v mem (a + of_nat j) = to_byte v j"
  proof (intro allI impI)
    fix j
    assume "j < n"
    moreover from this n have "unat (of_nat j :: u64) = j" by (intro unat_of_nat_64) simp
    ultimately show "store_le n a v mem (a + of_nat j) = to_byte v j" by (simp add: store_le_def)
  qed
qed

text \<open>\<^verbatim>\<open>x += v\<close> for the variable at \<open>a\<close>, and \<^verbatim>\<open>x[e] += v(e)\<close> for an array of \<open>n\<close> elements.\<close>

definition plus_at ::
  "(memory \<Rightarrow> u64 \<Rightarrow> 'e :: plus) \<Rightarrow> (u64 \<Rightarrow> 'e \<Rightarrow> memory \<Rightarrow> memory) \<Rightarrow> u64 \<Rightarrow> 'e \<Rightarrow> memory \<Rightarrow> memory" where
  "plus_at val store a v mem = store a (val mem a + v) mem"

definition plus_array ::
  "nat \<Rightarrow> (memory \<Rightarrow> u64 \<Rightarrow> 'e :: plus) \<Rightarrow> (u64 \<Rightarrow> 'e \<Rightarrow> memory \<Rightarrow> memory) \<Rightarrow> u64 \<Rightarrow> nat \<Rightarrow> (nat \<Rightarrow> 'e) \<Rightarrow> memory \<Rightarrow> memory" where
  "plus_array es val store a n v mem = fold (\<lambda>e. plus_at val store (a + of_nat (e * es)) (v e)) [0 ..< n] mem"

abbreviation add64 :: "u64 \<Rightarrow> u64 \<Rightarrow> memory \<Rightarrow> memory" where
  "add64 \<equiv> plus_at load64 store64"

lemma elements_apart:
  assumes "e < n" "e' < n" "e \<noteq> e'" "n * es \<le> 2 ^ 64"
  shows "block (a + of_nat (e * es)) es \<inter> block (a + of_nat (e' * es)) es = {}"
proof (rule equals0I)
  fix x
  assume x: "x \<in> block (a + of_nat (e * es)) es \<inter> block (a + of_nat (e' * es)) es"
  obtain i where i: "x = a + of_nat (e * es) + of_nat i" "i < es" using x by (auto simp: block_def)
  obtain j where j: "x = a + of_nat (e' * es) + of_nat j" "j < es" using x by (auto simp: block_def)
  have below: "c * es + l < 2 ^ 64" if "c < n" "l < es" for c l
  proof -
    have "c * es + l < Suc c * es" using that(2) by simp
    also have "\<dots> \<le> n * es" using that(1) by (intro mult_le_mono1) simp
    finally show ?thesis using assms(4) by simp
  qed
  have "(of_nat (e * es + i) :: u64) = of_nat (e' * es + j)" using i(1) j(1) by (simp add: add.assoc)
  then have eq: "e * es + i = e' * es + j"
    using unat_of_nat_64 [OF below [OF assms(1) i(2)]] unat_of_nat_64 [OF below [OF assms(2) j(2)]] by metis
  have "(e * es + i) div es = e" "(e' * es + j) div es = e'" using i(2) j(2) by simp_all
  then show False using eq assms(3) by simp
qed

locale sum_cell = sum_view es val
  for es :: nat and val :: "memory \<Rightarrow> u64 \<Rightarrow> 'e :: comm_monoid_add" +
  fixes store :: "u64 \<Rightarrow> 'e \<Rightarrow> memory \<Rightarrow> memory"
  assumes load_store: "val (store a v m) a = v"
    and store_outside: "x \<notin> block a es \<Longrightarrow> store a v m x = m x"
begin

lemma fold_plus_at:
  shows "val (fold (plus_at val store a) vs mem) a = val mem a + sum_list vs"
    and "x \<notin> block a es \<Longrightarrow> fold (plus_at val store a) vs mem x = mem x"
  by (induction vs arbitrary: mem) (simp_all add: plus_at_def load_store store_outside add.assoc)

lemma plus_at_other:
  "block b es \<inter> block a es = {} \<Longrightarrow> val (plus_at val store a v mem) b = val mem b"
  by (rule val_outside [of "block a es"]) (simp_all add: plus_at_def store_outside)

lemma plus_array_prefix:
  assumes "n * es \<le> 2 ^ 64" "m \<le> n" "e < n"
  shows "val (plus_array es val store a m v mem) (a + of_nat (e * es)) =
    (if e < m then val mem (a + of_nat (e * es)) + v e else val mem (a + of_nat (e * es)))"
  using assms(2)
proof (induction m)
  case (Suc m)
  let ?mem = "plus_array es val store a m v mem"
  have step: "plus_array es val store a (Suc m) v mem = plus_at val store (a + of_nat (m * es)) (v m) ?mem"
    by (simp add: plus_array_def)
  show ?case
  proof (cases "e = m")
    case True
    then show ?thesis using Suc unfolding step by (simp add: plus_at_def load_store)
  next
    case False
    then have "block (a + of_nat (e * es)) es \<inter> block (a + of_nat (m * es)) es = {}"
      using assms(1,3) Suc.prems by (intro elements_apart [of _ n]) simp_all
    then show ?thesis using Suc False plus_at_other unfolding step by simp
  qed
qed (simp add: plus_array_def)

lemma plus_array_adds:
  "n * es \<le> 2 ^ 64 \<Longrightarrow> e < n \<Longrightarrow>
   val (plus_array es val store a n v mem) (a + of_nat (e * es)) = val mem (a + of_nat (e * es)) + v e"
  using plus_array_prefix [of n n e] by simp

lemma fold_plus_array:
  assumes "n * es \<le> 2 ^ 64" "e < n"
  shows "val (fold (plus_array es val store a n) ps mem) (a + of_nat (e * es)) =
    val mem (a + of_nat (e * es)) + (\<Sum>p \<leftarrow> ps. p e)"
  by (induction ps arbitrary: mem) (simp_all add: plus_array_adds [OF assms] add.assoc del: of_nat_mult)

end

interpretation cell64: sum_cell 8 load64 store64
proof
  show "load64 (store64 a v m) a = v" for a v m
    using load_store_le [of 8 a v m] by (simp add: store64_def load64_def take_bit_word_eq_self)
  show "x \<notin> block a 8 \<Longrightarrow> store64 a v m x = m x" for x a v m
    by (simp add: store64_def store_le_outside)
qed

interpretation cell32: sum_cell 4 load32 store32
proof
  show "load32 (store32 a v m) a = v" for a v m
  proof (rule bit_word_eqI)
    fix n
    assume "n < LENGTH(32)"
    then show "bit (load32 (store32 a v m) a) n \<longleftrightarrow> bit v n"
      using load_store_le [of 4 a "ucast v" m] by (simp add: load32_def store32_def bit_simps)
  qed
  show "x \<notin> block a 4 \<Longrightarrow> store32 a v m x = m x" for x a v m
    by (simp add: store32_def store_le_outside)
qed

section \<open>Sums over all ranks\<close>

lemma sum_ranks:
  fixes f :: "'a \<Rightarrow> 'e :: comm_monoid_add" and n :: nat
  assumes "(\<Sum>k \<in> {0 ..< n}. mset (g k)) = mset xs"
  shows "(\<Sum>k < n. sum_list (map f (g k))) = sum_list (map f xs)"
proof -
  have s: "sum_list (map f ys) = sum_mset (image_mset f (mset ys))" for ys by (simp flip: sum_mset_sum_list)
  have "sum_mset (image_mset f (\<Sum>k \<in> A. mset (g k))) = (\<Sum>k \<in> A. sum_mset (image_mset f (mset (g k))))"
    if "finite A" for A
    using that by (induction A) simp_all
  from this [OF finite_atLeastLessThan, of 0 n] have "sum_mset (image_mset f (mset xs)) = (\<Sum>k \<in> {0 ..< n}. sum_list (map f (g k)))"
    unfolding assms s .
  then show ?thesis unfolding s by (simp add: atLeast0LessThan)
qed

lemma sum_upt: "sum_list [0 ..< Suc n] = n * (n + 1) div 2"
  by (induction n) simp_all

section \<open>From the constructor to the destructor\<close>

lemma do_enter_entered:
  assumes "do_enter_parallel mc True (c, p) = Some (out, Inr (), c', p')" "comm_size mc (pc_comm c) \<noteq> 1"
  shows "c' = c\<lparr>pc_entered := True\<rparr> \<and> verify_reduces_no_overlap (pc_reduces c) = Inr ()"
  using assms by (auto simp: do_enter_parallel_def Let_def split: if_splits sum.splits option.splits prod.splits)

lemma ctor_entered:
  assumes "par_ctx_ctor mc finished ctx True reduces p = Some (out, Inr (), Some c, p')" "mc_world_size mc \<noteq> 1"
  shows "c = (fresh_ctx ctx reduces)\<lparr>pc_entered := True\<rparr> \<and> verify_reduces_no_overlap reduces = Inr ()"
proof -
  have "do_enter_parallel mc True (fresh_ctx ctx reduces, p) = Some (out, Inr (), c, p')"
    using assms(1) by (auto simp: par_ctx_ctor_def new_par_ctx_base_def assertE_def split: sum.splits option.splits prod.splits if_splits)
  from do_enter_entered [OF this] show ?thesis using assms(2) by (simp add: comm_size_def)
qed

lemma c_ctor_entered:
  assumes "s_p_construct_par_ctx mc finished ctx True areas p = Some (out, Inr pctx, p')" "mc_world_size mc \<noteq> 1"
    and "build_reduces (mc_type_size mc) (pf_page_size (mc_pf mc)) areas = Inr reduces"
  shows "sc_detail pctx = Some ((fresh_ctx ctx reduces)\<lparr>pc_entered := True\<rparr>) \<and> verify_reduces_no_overlap reduces = Inr ()"
proof -
  obtain c where c: "do_enter_parallel mc True (fresh_ctx ctx reduces, p) = Some (out, Inr (), c, p')" "sc_detail pctx = Some c"
    using assms(1,3)
    by (auto simp: s_p_construct_par_ctx_def new_par_ctx_base_def set_reduces_def assertE_def
        split: sum.splits option.splits prod.splits if_splits)
  from do_enter_entered [OF c(1)] show ?thesis using assms(2) c(2) by (simp add: comm_size_def)
qed

text \<open>
  The memories of the other ranks at the end of the region: each worker's reduce areas are initialised, then it runs
  its part \<open>body k\<close> of the region.
\<close>

definition workers_end ::
  "(mpi_datatype \<Rightarrow> string) \<Rightarrow> reduce_area list \<Rightarrow> (nat \<Rightarrow> memory \<Rightarrow> memory) \<Rightarrow> nat \<Rightarrow> memory list \<Rightarrow> bool" where
  "workers_end names reduces body n others \<longleftrightarrow> Suc (length others) = n \<and>
     (\<forall>k < length others. \<exists>mem mem'. init_reduces names reduces mem = Inr mem' \<and> others ! k = body (Suc k) mem')"

text \<open>What MPI and the sizes have to satisfy for the sum over one array.\<close>

definition sums_area :: "('h, 'r, 'x) machine \<Rightarrow> nat \<Rightarrow> (memory \<Rightarrow> u64 \<Rightarrow> 'e :: comm_monoid_add) \<Rightarrow> memory list \<Rightarrow>
    reduce_area \<Rightarrow> bool" where
  "sums_area mc es val others r \<longleftrightarrow> sum_area es r \<and> reduce_area_ok mc (\<lambda>r. es) r \<and>
     reduces_at_root (mc_reduce mc) es (+) val others (m_type r) MPI_SUM m_root_rank S_p_comm"

context sum_cell
begin

lemma region_total:
  assumes c: "pc_entered c" "pc_comm c = S_p_comm" "pc_reduces c = [r]" "verify_reduces_no_overlap [r] = Inr ()"
    and mc: "mc_world_size mc = int n" "1 < n" "mc_rank mc = 0" "sums_area mc es val others r"
    and ranks: "workers_end names [r] body n others" "rs_mem w = body 0 mem0"
    and adds: "\<And>k mem i. k < n \<Longrightarrow> i < unat (m_count r) \<Longrightarrow>
      val (body k mem) (element_at es r i) = val mem (element_at es r i) + d k i"
  shows "\<exists>w'. do_exit_parallel mc c (True, w) = Some (Inr Behind_call, False, w') \<and>
    (\<forall>i < unat (m_count r). val (rs_mem w') (element_at es r i) = val mem0 (element_at es r i) + (\<Sum>k < n. d k i)) \<and>
    (\<forall>x. x \<notin> area_block (\<lambda>r. es) r \<longrightarrow> rs_mem w' x = rs_mem w x)"
proof -
  have len: "Suc (length others) = n" using ranks(1) by (simp add: workers_end_def)
  obtain start where start: "\<forall>k < length others. \<exists>mem. init_reduces names [r] mem = Inr (start k)"
    "\<forall>k < length others. others ! k = body (Suc k) (start k)"
    using ranks(1) unfolding workers_end_def by metis
  have "\<exists>w'. do_exit_parallel mc c (True, w) = Some (Inr Behind_call, False, w') \<and>
    (\<forall>r \<in> set (pc_reduces c). \<forall>i < unat (m_count r).
      val (rs_mem w') (element_at es r i) = val mem0 (element_at es r i) + (\<Sum>k \<le> length others. d k i)) \<and>
    (\<forall>x. x \<notin> (\<Union>r \<in> set (pc_reduces c). area_block (\<lambda>r. es) r) \<longrightarrow> rs_mem w' x = rs_mem w x)"
  proof (rule region_end_sum [OF c(1,2) _ mc(3), where start = start and names = names])
    show "1 < mc_world_size mc" using mc(1,2) by simp
    show "verify_reduces_no_overlap (pc_reduces c) = Inr ()" using c(3,4) by simp
    show "\<forall>r \<in> set (pc_reduces c). sum_area es r \<and> reduce_area_ok mc (\<lambda>r. es) r"
      using c(3) mc(4) by (simp add: sums_area_def)
    show "\<forall>r \<in> set (pc_reduces c). reduces_at_root (mc_reduce mc) es (+) val others (m_type r) MPI_SUM m_root_rank S_p_comm"
      using c(3) mc(4) by (simp add: sums_area_def)
    show "\<forall>k < length others. \<exists>mem. init_reduces names (pc_reduces c) mem = Inr (start k)" using start(1) c(3) by simp
    show "\<forall>k < length others. \<forall>r \<in> set (pc_reduces c). \<forall>i < unat (m_count r).
      val (others ! k) (element_at es r i) = val (start k) (element_at es r i) + d (Suc k) i"
      using start(2) c(3) adds len by simp
    show "\<forall>r \<in> set (pc_reduces c). \<forall>i < unat (m_count r).
      val (rs_mem w) (element_at es r i) = val mem0 (element_at es r i) + d 0 i"
      using ranks(2) c(3) adds mc(2) by simp
  qed
  moreover have "(\<Sum>k \<le> length others. d k i) = (\<Sum>k < n. d k i)" for i using len lessThan_Suc_atMost [of "length others"] by simp
  ultimately show ?thesis using c(3) by simp
qed

end

end
