(* ===== verification/C_Region.thy ===== *)
theory C_Region
  imports Sum_Region
begin

text \<open>
  The macros of \<^verbatim>\<open>c_binding.h\<close> around a parallel region of a C program.
\<close>

section \<open>The types a reduce area may have\<close>

text \<open>The type \<^verbatim>\<open>T\<close> of a reduced pointer \<^verbatim>\<open>T *\<close>; the alternatives of \<^verbatim>\<open>_Generic\<close>. No other type compiles.\<close>

datatype c_elem = C_float | C_double | C_bool | C_int8_t | C_int16_t | C_int32_t | C_int64_t
  | C_uint8_t | C_uint16_t | C_uint32_t | C_uint64_t

fun generic_type :: "c_elem \<Rightarrow> mpi_datatype" where
  "generic_type C_float = MPI_FLOAT"
| "generic_type C_double = MPI_DOUBLE"
| "generic_type C_bool = MPI_C_BOOL"
| "generic_type C_int8_t = MPI_INT8_T"
| "generic_type C_int16_t = MPI_INT16_T"
| "generic_type C_int32_t = MPI_INT32_T"
| "generic_type C_int64_t = MPI_INT64_T"
| "generic_type C_uint8_t = MPI_UINT8_T"
| "generic_type C_uint16_t = MPI_UINT16_T"
| "generic_type C_uint32_t = MPI_UINT32_T"
| "generic_type C_uint64_t = MPI_UINT64_T"

text \<open>An argument \<^verbatim>\<open>(pointer, count, operation)\<close> of the macro, with the type of the pointer.\<close>

record c_reduce =
  cr_type :: c_elem
  cr_begin :: u64
  cr_count :: u64
  cr_op :: mpi_op

definition s_p_comma_sep :: "c_reduce \<Rightarrow> s_p_reduce_area" where
  "s_p_comma_sep elem =
     \<lparr>ra_type = generic_type (cr_type elem), ra_begin = cr_begin elem, ra_count = cr_count elem, ra_op = cr_op elem\<rparr>"

definition s_p_c_par_begin ::
  "('h, 'r, 'x) machine \<Rightarrow> bool \<Rightarrow> u64 \<Rightarrow> bool \<Rightarrow> c_reduce list \<Rightarrow> ('h, 'x) process \<Rightarrow>
   (msg list \<times> s_p_par_ctx result \<times> ('h, 'x) process) option" where
  "s_p_c_par_begin mc finished ctx enter_parallel reduces p =
     s_p_construct_par_ctx mc finished ctx enter_parallel (map s_p_comma_sep reduces) p"

definition s_p_c_par_end ::
  "('h, 'r, 'x) machine \<Rightarrow> s_p_par_ctx \<Rightarrow> bool \<times> 'x rank_state \<Rightarrow>
   (s_p_par_ctx \<times> continues result \<times> bool \<times> 'x rank_state) option" where
  "s_p_c_par_end mc ctx s = s_p_destruct_par_ctx mc ctx s"

text \<open>
  Every type the macro accepts can be reduced: numbers can be summed, booleans combined with \<^verbatim>\<open>MPI_LAND\<close> and
  \<^verbatim>\<open>MPI_LOR\<close>, and a worker's copy is initialised without an exception.
\<close>

lemma generic_types_supported:
  assumes "m_type r = generic_type t" "if t = C_bool then m_op r \<in> {MPI_LAND, MPI_LOR} else m_op r = MPI_SUM"
    and "t = C_bool \<longrightarrow> m_sizeof_type r = 1"
  shows "\<exists>mem'. init_reduce_area_on_worker names r mem = Inr mem'"
  using assms by (cases t) (auto simp: init_reduce_area_on_worker_def zero_init_types_def)

section \<open>A region that sums into one array of 64-bit integers\<close>

lemma build_one:
  assumes "build_reduces type_size page_size [i] = Inr reduces"
  shows "\<exists>r. reduces = [r] \<and> m_begin r = ra_begin i \<and> m_count r = ra_count i \<and> m_type r = ra_type i \<and> m_op r = ra_op i \<and>
    m_sizeof_type r = type_size (ra_type i)"
  using assms by (auto simp: reduce_area_of_type_def init_inner_pages_def result_iff)

text \<open>The array at \<open>a\<close> with \<open>n\<close> elements, and what its size has to satisfy.\<close>

definition u64_array :: "u64 \<Rightarrow> u64 \<Rightarrow> c_reduce" where
  "u64_array a n = \<lparr>cr_type = C_uint64_t, cr_begin = a, cr_count = n, cr_op = MPI_SUM\<rparr>"

definition array_fits :: "u64 \<Rightarrow> u64 \<Rightarrow> bool" where
  "array_fits a n \<longleftrightarrow> 0 < unat n \<and> unat n + INT_MAX \<le> 2 ^ 64 \<and> unat a + unat n * 8 \<le> 2 ^ 64 \<and> 0 < unat a"

lemma u64_array_area:
  assumes "build_reduces (mc_type_size mc) page_size [s_p_comma_sep (u64_array a n)] = Inr reduces"
    and "mc_type_size mc MPI_UINT64_T = 8" "array_fits a n"
  obtains r where "reduces = [r]" "m_begin r = a" "m_count r = n" "m_type r = MPI_UINT64_T" "sum_area 8 r"
    "reduce_area_ok mc (\<lambda>r. 8) r"
proof -
  obtain r where r: "reduces = [r]" "m_begin r = a" "m_count r = n" "m_type r = MPI_UINT64_T" "m_op r = MPI_SUM"
    "m_sizeof_type r = 8"
    using build_one [OF assms(1)] assms(2) by (auto simp: s_p_comma_sep_def u64_array_def)
  have size: "unat (n * 8) = unat n * 8" using unat_mult_nw [of n 8] assms(3) by (simp add: array_fits_def)
  have "sum_area 8 r" using r by (simp add: sum_area_def zero_init_types_def)
  moreover have "reduce_area_ok mc (\<lambda>r. 8) r"
    using r assms(2,3) size
    by (auto simp: reduce_area_ok_def get_mpi_type_size_def get_mpi_type_size_fallback_def reduce_mem_area_def area_fits_def
        array_fits_def)
  ultimately show thesis using that r(1-4) by blast
qed

text \<open>
  From \<^verbatim>\<open>S_P_C_PAR_BEGIN\<close> to \<^verbatim>\<open>S_P_C_PAR_END\<close>, where rank \<open>k\<close> runs \<open>body k\<close> and adds \<open>d k i\<close> to element \<open>i\<close>.
\<close>

lemma c_region_total:
  assumes "s_p_c_par_begin mc finished ctx True [u64_array a cnt] p = Some (out, Inr pctx, p')" "sc_detail pctx = Some c"
    and mc: "mc_world_size mc = int n" "1 < n" "mc_rank mc = 0" "mc_type_size mc MPI_UINT64_T = 8" "array_fits a cnt"
    and mpi: "reduces_at_root (mc_reduce mc) 8 (+) load64 others MPI_UINT64_T MPI_SUM m_root_rank S_p_comm"
    and ranks: "workers_end names (pc_reduces c) body n others" "rs_mem w = body 0 mem0"
    and adds: "\<And>k mem i. k < n \<Longrightarrow> i < unat cnt \<Longrightarrow>
      load64 (body k mem) (a + of_nat (i * 8)) = load64 mem (a + of_nat (i * 8)) + d k i"
  shows "\<exists>ctx' w'. s_p_c_par_end mc pctx (True, w) = Some (ctx', Inr Behind_call, False, w') \<and>
    (\<forall>i < unat cnt. load64 (rs_mem w') (a + of_nat (i * 8)) = load64 mem0 (a + of_nat (i * 8)) + (\<Sum>k < n. d k i))"
proof -
  have ctor: "s_p_construct_par_ctx mc finished ctx True [s_p_comma_sep (u64_array a cnt)] p = Some (out, Inr pctx, p')"
    using assms(1) by (simp add: s_p_c_par_begin_def)
  then obtain reduces where b: "build_reduces (mc_type_size mc) (pf_page_size (mc_pf mc)) [s_p_comma_sep (u64_array a cnt)]
      = Inr reduces"
    by (simp only: s_p_construct_par_ctx_def split: sum.splits) auto
  obtain r where r: "reduces = [r]" "m_begin r = a" "m_count r = cnt" "m_type r = MPI_UINT64_T" "sum_area 8 r"
    "reduce_area_ok mc (\<lambda>r. 8) r"
    by (rule u64_array_area [OF b mc(4,5)])
  have "mc_world_size mc \<noteq> 1" using mc(1,2) by simp
  from c_ctor_entered [OF ctor this b] assms(2)
  have c: "pc_entered c" "pc_comm c = S_p_comm" "pc_reduces c = [r]" "verify_reduces_no_overlap [r] = Inr ()"
    using r(1) by auto
  have "sums_area mc 8 load64 others r" using r mpi by (simp add: sums_area_def)
  moreover have "workers_end names [r] body n others" using ranks(1) c(3) by simp
  ultimately have "\<exists>w'. do_exit_parallel mc c (True, w) = Some (Inr Behind_call, False, w') \<and>
    (\<forall>i < unat (m_count r). load64 (rs_mem w') (element_at 8 r i) = load64 mem0 (element_at 8 r i) + (\<Sum>k < n. d k i)) \<and>
    (\<forall>x. x \<notin> area_block (\<lambda>r. 8) r \<longrightarrow> rs_mem w' x = rs_mem w x)"
    by (rule cell64.region_total [OF c mc(1-3)]) (use ranks(2) adds r(2,3) in \<open>simp_all add: element_at_def\<close>)
  then show ?thesis
    using assms(2) r(2,3) by (auto simp: s_p_c_par_end_def s_p_destruct_par_ctx_def element_at_def)
qed

section \<open>A concrete region\<close>

text \<open>Two ranks; the root's memory is all zeroes and the other rank ends the region with the memory \<open>other\<close>.\<close>

definition demo_region_mc :: "memory \<Rightarrow> (unit, nat, nat multiset \<times> nat) machine" where
  "demo_region_mc other = (demo_sum_mc other)\<lparr>mc_pf := demo_pf (\<lambda>a. 0)\<rparr>"

definition demo_region_leader :: "(unit, nat multiset \<times> nat) leader" where
  "demo_region_leader = demo_leader\<lparr>ls_mem := (ls_mem demo_leader)\<lparr>lm_os := demo_rank (\<lambda>a. 0)\<rparr>\<rparr>"

definition demo_region_process :: "(unit, nat multiset \<times> nat) process" where
  "demo_region_process = \<lparr>pr_in_parallel = False, pr_leader = demo_region_leader\<rparr>"

lemma demo_region_simps:
  "mc_world_size (demo_region_mc other) = 2" "mc_rank (demo_region_mc other) = 0"
  "mc_type_size (demo_region_mc other) t = 8" "mc_pf (demo_region_mc other) = demo_pf (\<lambda>a. 0)"
  "mc_getcontext_ok (demo_region_mc other)" "mc_swapcontext_ok (demo_region_mc other)"
  "\<not> mc_fortran_binding (demo_region_mc other)"
  by (simp_all add: demo_region_mc_def demo_sum_mc_def demo_mc_def)

lemma demo_region_law:
  "reduces_at_root (mc_reduce (demo_region_mc other)) 8 (+) load64 [other] dt MPI_SUM m_root_rank S_p_comm"
  using demo_sum_reduces by (simp add: demo_region_mc_def)

definition demo_region_area :: "u64 \<Rightarrow> u64 \<Rightarrow> reduce_area" where
  "demo_region_area a n = \<lparr>m_begin = a, m_count = n, m_type = MPI_UINT64_T, m_op = MPI_SUM, m_sizeof_type = 8,
     m_inner_pages = (case memarea2innerpgrng 4096 \<lparr>ma_data = a, ma_size = n * 8\<rparr> of Inl e \<Rightarrow> None | Inr i \<Rightarrow> i)\<rparr>"

lemma demo_region_build:
  assumes "memarea2innerpgrng 4096 \<lparr>ma_data = a, ma_size = n * 8\<rparr> = Inr inner"
  shows "build_reduces (mc_type_size (demo_region_mc other)) 4096 [s_p_comma_sep (u64_array a n)] = Inr [demo_region_area a n]"
  using assms
  by (simp add: reduce_area_of_type_def init_inner_pages_def s_p_comma_sep_def u64_array_def demo_region_simps
      demo_region_area_def)

lemma demo_region_enters:
  assumes "\<And>rng. get_inner_pages r = Some rng \<Longrightarrow> range_ok 4096 rng"
  shows "\<exists>out p'. do_enter_parallel (demo_region_mc other) True (fresh_ctx 9 [r], demo_region_process)
      = Some (out, Inr (), (fresh_ctx 9 [r])\<lparr>pc_entered := True\<rparr>, p') \<and>
    rs_mem (ls_rank (pr_leader p')) = (\<lambda>a. 0)"
proof -
  let ?mc = "demo_region_mc other" and ?pf = "demo_pf (\<lambda>a. 0)"
  have heap: "use_mpi_heap ?pf demo_region_leader = demo_region_leader"
    by (simp add: use_mpi_heap_def demo_region_leader_def demo_leader_def)
  have leader: "ls_rank demo_region_leader = demo_rank (\<lambda>a. 0)" "ls_heaps demo_region_leader = [()]"
    by (simp_all add: demo_region_leader_def)
  have "reduces_ok 4096 [r]" using assms by (simp add: reduces_ok_def)
  then have "scan_ok 4096 8 demo_pread (\<lambda>p. 0x8080000000000000) one_block demo_intervals [()] [r]"
    using demo_scan_ok by (simp add: scan_ok_def)
  then have "leader_ok demo_outstanding rs_mem demo_entry ?pf [r] (use_mpi_heap ?pf demo_region_leader)"
    using demo_net [of "\<lambda>a. 0"] demo_cover by (simp add: leader_ok_def one_block_pages heap leader)
  then obtain out l where l: "leader_enter_parallel_impl ?pf 9 [r] demo_region_leader = Some (out, Inr (), l)"
    "rs_mem (ls_rank l) = (\<lambda>a. 0)"
    using leader_sends [of demo_outstanding rs_mem demo_entry ?pf "[r]" demo_region_leader 9] leader by (auto simp: heap)
  have can: "can_enter ?mc demo_region_process"
    by (simp add: can_enter_def demo_region_simps demo_region_process_def)
  have "verify_reduces_no_overlap [r] = Inr ()"
    by (simp add: verify_reduces_no_overlap_def verify_outer.simps verify_inner.simps)
  from do_enter_switches [OF can this, of 9 out "Inr ()" l] l(1)
  have "do_enter_parallel ?mc True (fresh_ctx 9 [r], demo_region_process)
    = Some (out, Inr (), (fresh_ctx 9 [r])\<lparr>pc_entered := True\<rparr>,
        demo_region_process\<lparr>pr_in_parallel := True, pr_leader := set_rank (ls_rank l) l\<rparr>)"
    by (simp add: demo_region_simps demo_region_process_def)
  then show ?thesis using l(2) by simp
qed

lemma demo_region_begins:
  assumes inner: "memarea2innerpgrng 4096 \<lparr>ma_data = a, ma_size = n * 8\<rparr> = Inr inner"
    and "\<And>rng. inner = Some rng \<Longrightarrow> range_ok 4096 rng"
  shows "\<exists>out pctx p'. s_p_c_par_begin (demo_region_mc other) False 9 True [u64_array a n] demo_region_process
      = Some (out, Inr pctx, p') \<and>
    sc_detail pctx = Some ((fresh_ctx 9 [demo_region_area a n])\<lparr>pc_entered := True\<rparr>) \<and>
    rs_mem (ls_rank (pr_leader p')) = (\<lambda>a. 0)"
proof -
  let ?r = "demo_region_area a n"
  have "get_inner_pages ?r = inner" using inner by (simp add: get_inner_pages_def demo_region_area_def)
  then obtain out p' where "do_enter_parallel (demo_region_mc other) True (fresh_ctx 9 [?r], demo_region_process)
      = Some (out, Inr (), (fresh_ctx 9 [?r])\<lparr>pc_entered := True\<rparr>, p')" "rs_mem (ls_rank (pr_leader p')) = (\<lambda>a. 0)"
    using demo_region_enters [of ?r other] assms(2) by blast
  then show ?thesis
    using demo_region_build [OF inner]
    by (simp add: s_p_c_par_begin_def s_p_construct_par_ctx_def demo_region_simps new_par_ctx_base_def set_reduces_def)
qed

lemma demo_workers:
  assumes "m_type r \<in> set zero_init_types" "m_op r = MPI_SUM"
  obtains other where "workers_end (\<lambda>t. []) [r] body 2 [other]"
proof -
  obtain mem' where "init_reduces (\<lambda>t. []) [r] (\<lambda>a. 7) = Inr mem'"
    using assms by (auto simp: init_reduce_area_on_worker_def list_ex_iff)
  then have "workers_end (\<lambda>t. []) [r] body 2 [body 1 mem']" by (auto simp: workers_end_def)
  then show thesis by (rule that)
qed

lemma demo_region_workers:
  obtains other where "workers_end (\<lambda>t. []) [demo_region_area a n] body 2 [other]"
  by (rule demo_workers [of "demo_region_area a n"]) (simp_all add: demo_region_area_def zero_init_types_def)

end
