(* ===== verification/Example_Gen.thy ===== *)
theory Example_Gen
  imports Gss_Collapse
begin

text \<open>
  The generator function of the example program \<^verbatim>\<open>example/c_example.c\<close>: the stretches of a triangular double loop
  that the collapsed loop macro hands out.
\<close>

section \<open>The generator function\<close>

lemma closer: "cnt \<noteq> expect \<Longrightarrow> unat (expect - (cnt + 1)) < unat (expect - cnt)" for cnt expect :: u64
proof -
  assume "cnt \<noteq> expect"
  then have "expect - cnt \<noteq> 0" by simp
  then have pos: "0 < unat (expect - cnt)" by (simp only: u64_neq_0_iff)
  then have "unat (expect - cnt - 1) = unat (expect - cnt) - 1" using unat_sub_nw [of 1 "expect - cnt"] by simp
  then show ?thesis using pos by (simp add: diff_diff_eq)
qed

lemma next_row: "i < j \<Longrightarrow> unat (i + 1) = unat i + 1" for i j :: u64
proof -
  assume "i < j"
  then have "unat i + 1 < 2 ^ 64" using unat_less_2p64 [of j] unfolding word_less_nat_alt by linarith
  then show ?thesis using unat_add_nw [of i 1] by simp
qed

text \<open>
  The loops of \<^verbatim>\<open>my_gen_func\<close>, entered at \<^verbatim>\<open>label\<close>: the inner one while \<open>j \<le> i\<close>; then \<^verbatim>\<open>i++\<close>, the outer condition, and
  \<^verbatim>\<open>j = 0\<close>.
\<close>

function my_gen_loop :: "s_p_ij_point \<Rightarrow> u64 \<Rightarrow> u64 \<Rightarrow> u64 \<Rightarrow> u64 \<Rightarrow> s_p_ij_point \<times> u64" where
  "my_gen_loop final_end expect_count i j cnt =
     (if j \<le> i then
        if cnt = expect_count then (\<lparr>pt_i = i, pt_j = j\<rparr>, cnt)
        else my_gen_loop final_end expect_count i (j + 1) (cnt + 1)
      else if i + 1 < pt_i final_end then my_gen_loop final_end expect_count (i + 1) 0 cnt
      else (\<lparr>pt_i = i + 1, pt_j = j\<rparr>, cnt))"
  by pat_completeness auto

termination
proof (relation "measures [\<lambda>(final_end, expect, i, j, cnt). unat (expect - cnt),
    \<lambda>(final_end, expect, i, j, cnt). unat (pt_i final_end) - unat i]")
  show "wf (measures [\<lambda>(final_end, expect, i, j, cnt). unat (expect - cnt),
      \<lambda>(final_end, expect, i, j, cnt). unat (pt_i final_end) - unat i])" by simp
next
  fix final_end and expect i j j' cnt :: u64
  assume "\<not> j \<le> i" "i + 1 < pt_i final_end"
  moreover from this have "unat (i + 1) = unat i + 1" by (intro next_row) (simp add: not_le)
  ultimately show "((final_end, expect, i + 1, j', cnt), (final_end, expect, i, j, cnt))
    \<in> measures [\<lambda>(final_end, expect, i, j, cnt). unat (expect - cnt),
        \<lambda>(final_end, expect, i, j, cnt). unat (pt_i final_end) - unat i]"
    by (simp add: word_less_nat_alt)
qed (simp add: closer)

declare my_gen_loop.simps [simp del]

definition my_gen_func :: "unit collapse_2_gss_gen_func" where
  "my_gen_func current final_end expect_count state =
     my_gen_loop final_end expect_count (pt_i current) (pt_j current) 0"

section \<open>It walks the triangle\<close>

definition triangle :: "nat \<Rightarrow> nat" where
  "triangle m = m * (m + 1) div 2"

lemma triangle_Suc: "triangle (Suc m) = triangle m + Suc m"
  by (simp add: triangle_def)

lemma triangle_0: "triangle 0 = 0"
  by (simp add: triangle_def)

lemma triangle_mono: "i \<le> m \<Longrightarrow> triangle i \<le> triangle m"
  unfolding triangle_def by (intro div_le_mono mult_le_mono) simp_all

text \<open>The points of the double loop in order; behind the last one is what the function returns at the end.\<close>

fun triangle_points :: "nat \<Rightarrow> s_p_ij_point list" where
  "triangle_points 0 = []"
| "triangle_points (Suc m) = triangle_points m @ map (\<lambda>j. \<lparr>pt_i = of_nat m, pt_j = of_nat j\<rparr>) [0 ..< Suc m]"

definition triangle_point :: "nat \<Rightarrow> nat \<Rightarrow> s_p_ij_point" where
  "triangle_point m k = (if k < triangle m then triangle_points m ! k else \<lparr>pt_i = of_nat m, pt_j = of_nat m\<rparr>)"

lemma length_triangle_points [simp]: "length (triangle_points m) = triangle m"
  by (induction m) (simp_all add: triangle_Suc triangle_0)

lemma triangle_points_nth: "i < m \<Longrightarrow> j \<le> i \<Longrightarrow> triangle_points m ! (triangle i + j) = \<lparr>pt_i = of_nat i, pt_j = of_nat j\<rparr>"
proof (induction m)
  case (Suc m)
  show ?case
  proof (cases "i = m")
    case False
    then have "triangle (Suc i) \<le> triangle m" using Suc.prems by (intro triangle_mono) simp
    then have "triangle i + j < triangle m" using Suc.prems by (simp add: triangle_Suc)
    then show ?thesis using Suc False by (simp add: nth_append)
  qed (use Suc.prems in \<open>simp add: nth_append del: upt_Suc\<close>)
qed simp

lemma triangle_row: "k < triangle m \<Longrightarrow> \<exists>i j. i < m \<and> j \<le> i \<and> k = triangle i + j"
proof (induction m)
  case (Suc m)
  show ?case
  proof (cases "k < triangle m")
    case True
    then show ?thesis using Suc.IH less_Suc_eq by blast
  next
    case False
    then have "k = triangle m + (k - triangle m)" "k - triangle m \<le> m" using Suc.prems by (simp_all add: triangle_Suc)
    then show ?thesis by blast
  qed
qed (simp add: triangle_0)

lemma triangle_below: "i < m \<Longrightarrow> j \<le> i \<Longrightarrow> triangle i + j < triangle m"
  using triangle_mono [of "Suc i" m] by (simp add: triangle_Suc)

lemma triangle_point_at: "i < m \<Longrightarrow> j \<le> i \<Longrightarrow> triangle_point m (triangle i + j) = \<lparr>pt_i = of_nat i, pt_j = of_nat j\<rparr>"
  by (simp add: triangle_point_def triangle_below triangle_points_nth)

lemma rows_below: "m \<le> triangle m"
  by (induction m) (simp_all add: triangle_Suc)

text \<open>
  At position \<open>p\<close> of the triangle, in or just behind row \<open>i\<close>, with \<open>n\<close> iterations still to take: the loops stop \<open>n\<close>
  positions on, or at the end.
\<close>

lemma my_gen_loop_row_end:
  assumes "i < m" "m < 2 ^ 64"
  shows "my_gen_loop \<lparr>pt_i = of_nat m, pt_j = e\<rparr> expect (of_nat i) (of_nat (Suc i)) cnt =
    (if Suc i < m then my_gen_loop \<lparr>pt_i = of_nat m, pt_j = e\<rparr> expect (of_nat (Suc i)) 0 cnt
     else (\<lparr>pt_i = of_nat m, pt_j = of_nat m\<rparr>, cnt))"
proof -
  have u: "unat (of_nat i :: u64) = i" "unat (of_nat (Suc i) :: u64) = Suc i" "unat (of_nat m :: u64) = m"
    using assms by (simp_all add: unat_of_nat_64 del: of_nat_Suc)
  have "\<not> of_nat (Suc i) \<le> (of_nat i :: u64)" by (simp only: word_le_nat_alt u)
  moreover have "of_nat i + 1 = (of_nat (Suc i) :: u64)" by simp
  moreover have "(of_nat (Suc i) :: u64) < of_nat m \<longleftrightarrow> Suc i < m" by (simp only: word_less_nat_alt u)
  moreover have "\<not> Suc i < m \<longrightarrow> of_nat (Suc i) = (of_nat m :: u64)" using assms(1) by (metis Suc_lessI)
  ultimately show ?thesis
    by (subst my_gen_loop.simps) (simp del: of_nat_Suc)
qed

lemma my_gen_loop_walk:
  assumes "i < m" "j \<le> i" "triangle m < 2 ^ 64" "n < 2 ^ 64"
  shows "my_gen_loop \<lparr>pt_i = of_nat m, pt_j = e\<rparr> (cnt + of_nat n) (of_nat i) (of_nat j) cnt =
    (let p = triangle i + j; d = min n (triangle m - p) in (triangle_point m (p + d), cnt + of_nat d))"
  using assms
proof (induction n arbitrary: i j cnt)
  case 0
  have "unat (of_nat i :: u64) = i" "unat (of_nat j :: u64) = j"
    using 0 rows_below [of m] by (simp_all add: unat_of_nat_64)
  then have "of_nat j \<le> (of_nat i :: u64)" using 0 by (simp add: word_le_nat_alt)
  then show ?case using triangle_point_at [OF 0(1,2)] by (simp add: my_gen_loop.simps [of _ _ "of_nat i"] Let_def)
next
  case (Suc n)
  let ?fe = "\<lparr>pt_i = of_nat m, pt_j = e\<rparr> :: s_p_ij_point" and ?e = "cnt + of_nat (Suc n)" and ?p = "triangle i + j"
  have m: "m < 2 ^ 64" using Suc.prems(3) rows_below [of m] by linarith
  have "unat (of_nat i :: u64) = i" "unat (of_nat j :: u64) = j" using Suc.prems m by (simp_all add: unat_of_nat_64)
  then have le: "of_nat j \<le> (of_nat i :: u64)" using Suc.prems(2) by (simp add: word_le_nat_alt)
  have "unat (of_nat (Suc n) :: u64) = Suc n" by (rule unat_of_nat_64 [OF Suc.prems(4)])
  then have "(of_nat (Suc n) :: u64) \<noteq> 0" by (metis unat_0 nat.distinct(1))
  then have "cnt \<noteq> ?e" by (metis add_cancel_left_right)
  then have step: "my_gen_loop ?fe ?e (of_nat i) (of_nat j) cnt = my_gen_loop ?fe ?e (of_nat i) (of_nat (Suc j)) (cnt + 1)"
    using le by (subst my_gen_loop.simps) (simp add: add.commute)
  have e: "?e = (cnt + 1) + of_nat n" by (simp add: algebra_simps)
  have below: "?p < triangle m" by (rule triangle_below [OF Suc.prems(1,2)])
  have n: "n < 2 ^ 64" using Suc.prems(4) by simp
  have goal: "my_gen_loop ?fe ?e (of_nat i) (of_nat (Suc j)) (cnt + 1) =
      (let d = min n (triangle m - Suc ?p) in (triangle_point m (Suc ?p + d), cnt + 1 + of_nat d))"
  proof (cases "Suc j \<le> i")
    case True
    then show ?thesis using Suc.IH [OF Suc.prems(1) True Suc.prems(3) n, of "cnt + 1"] unfolding e by (simp add: Let_def)
  next
    case False
    then have ji: "j = i" using Suc.prems(2) by simp
    have p: "Suc ?p = triangle (Suc i)" by (simp add: ji triangle_Suc)
    show ?thesis
    proof (cases "Suc i < m")
      case True
      have "my_gen_loop ?fe ?e (of_nat (Suc i)) (of_nat 0) (cnt + 1) =
          (let d = min n (triangle m - Suc ?p) in (triangle_point m (Suc ?p + d), cnt + 1 + of_nat d))"
        using Suc.IH [OF True _ Suc.prems(3) n, of 0 "cnt + 1"] unfolding e p by (simp add: Let_def)
      then show ?thesis using my_gen_loop_row_end [OF Suc.prems(1) m] True unfolding ji by simp
    next
      case last: False
      then have "m = Suc i" using Suc.prems(1) by simp
      then show ?thesis
        using my_gen_loop_row_end [OF Suc.prems(1) m] last unfolding p unfolding ji
        by (simp add: triangle_point_def Let_def)
    qed
  qed
  have "min (Suc n) (triangle m - ?p) = Suc (min n (triangle m - Suc ?p))" using below by linarith
  then show ?case unfolding step goal by (simp add: Let_def algebra_simps)
qed

lemma triangle_point_inj:
  assumes "triangle m < 2 ^ 64"
  shows "inj_on (triangle_point m) {..triangle m}"
proof (rule inj_onI)
  have m: "m < 2 ^ 64" using assms rows_below [of m] by linarith
  have u: "unat (of_nat i :: u64) = i" if "i \<le> m" for i using that m by (intro unat_of_nat_64) linarith
  have coord: "\<exists>i j. k = triangle i + j \<and> j \<le> i \<and> i < m \<and> unat (pt_i (triangle_point m k)) = i \<and>
      unat (pt_j (triangle_point m k)) = j" if below: "k < triangle m" for k
  proof -
    obtain i j where ij: "i < m" "j \<le> i" "k = triangle i + j" using triangle_row [OF below] by blast
    then show ?thesis using u [of i] u [of j] triangle_point_at [OF ij(1,2)] by auto
  qed
  have last: "unat (pt_i (triangle_point m (triangle m))) = m" using u [of m] by (simp add: triangle_point_def)
  fix k l
  assume kl: "k \<in> {..triangle m}" "l \<in> {..triangle m}" "triangle_point m k = triangle_point m l"
  show "k = l"
  proof (cases "k < triangle m \<and> l < triangle m")
    case True
    then show ?thesis using coord [of k] coord [of l] kl(3) by auto
  next
    case False
    then have "k = triangle m \<or> l = triangle m" using kl by auto
    then show ?thesis using kl coord [of k] coord [of l] last by (metis atMost_iff less_irrefl nless_le)
  qed
qed

text \<open>
  The generator function of the example walks the triangular double loop \<^verbatim>\<open>for i < m, for j <= i\<close>, of any size that
  a 64-bit counter can count: it is what the collapsed loop macro asks of such a function.
\<close>

lemma my_gen_walks:
  assumes "triangle m < 2 ^ 64"
  shows "walks my_gen_func state \<lparr>pt_i = of_nat m, pt_j = e\<rparr> (triangle_point m) (triangle m)"
  unfolding walks_def
proof (intro conjI allI impI)
  have m: "m < 2 ^ 64" using assms rows_below [of m] by linarith
  show "triangle m < 2 ^ 64" by (rule assms)
  show "inj_on (triangle_point m) {..triangle m}" by (rule triangle_point_inj [OF assms])
  show "pt_i (triangle_point m (triangle m)) = pt_i \<lparr>pt_i = of_nat m, pt_j = e\<rparr>" by (simp add: triangle_point_def)
  fix k
  assume k: "k < triangle m"
  obtain i j where ij: "i < m" "j \<le> i" "k = triangle i + j" using triangle_row [OF k] by blast
  have pt: "triangle_point m k = \<lparr>pt_i = of_nat i, pt_j = of_nat j\<rparr>" unfolding ij(3) by (rule triangle_point_at [OF ij(1,2)])
  have "unat (of_nat i :: u64) = i" "unat (of_nat m :: u64) = m" using ij(1) m by (simp_all add: unat_of_nat_64)
  then have "(of_nat i :: u64) \<noteq> of_nat m" using ij(1) by (metis less_irrefl)
  then show "pt_i (triangle_point m k) \<noteq> pt_i \<lparr>pt_i = of_nat m, pt_j = e\<rparr>" unfolding pt by simp
  fix n :: u64
  have n: "unat n < 2 ^ 64" "of_nat (unat n) = n" using unat_less_2p64 [of n] by simp_all
  have "my_gen_loop \<lparr>pt_i = of_nat m, pt_j = e\<rparr> (0 + of_nat (unat n)) (of_nat i) (of_nat j) 0 =
      (let p = triangle i + j; d = min (unat n) (triangle m - p) in (triangle_point m (p + d), 0 + of_nat d))"
    by (rule my_gen_loop_walk [OF ij(1,2) assms n(1)])
  moreover have "k + min (unat n) (triangle m - k) = min (k + unat n) (triangle m)" using k by simp
  ultimately show "my_gen_func (triangle_point m k) \<lparr>pt_i = of_nat m, pt_j = e\<rparr> n state =
      (triangle_point m (min (k + unat n) (triangle m)), of_nat (min (unat n) (triangle m - k)))"
    unfolding my_gen_func_def pt using ij(3) n(2) by (simp add: Let_def)
qed

end
