(* ===== verification/C_Example.thy ===== *)
theory C_Example
  imports Hybrid_Loop C_Region Example_Gen
begin

text \<open>
  The two blocks of \<^verbatim>\<open>main\<close> in \<^verbatim>\<open>example/c_example.c\<close> on several ranks, from \<^verbatim>\<open>S_P_C_PAR_BEGIN\<close> to the number each
  prints: the loop macros, the scheduler across ranks, the teams of threads and the reduction together.
\<close>

section \<open>Auxiliary facts\<close>

lemma gauss: "sum_list [0 ..< Suc n] = triangle n"
  by (simp only: sum_upt triangle_def)

lemma sum_of_nat: "sum_list (map of_nat xs) = (of_nat (sum_list xs) :: 'e :: semiring_1)"
  by (induction xs) simp_all

section \<open>Loops that end\<close>

lemma demo_loop_end:
  fixes tasks :: "'v list"
  assumes "1 < length threads" "\<forall>t \<in> set threads. 0 < t"
  obtains s h where "distributed_start hc threads tasks = Some s"
    "reachable (hybrid_step (length threads)) (hybrid_start (nth threads) s) h" "all_teams_left (length threads) h"
proof (rule hybrid_tasks [OF assms, of hc tasks])
  fix s
  assume s: "distributed_start hc threads tasks = Some s"
    "\<And>h. reachable (hybrid_step (length threads)) (hybrid_start (nth threads) s) h \<Longrightarrow>
      (\<exists>u. reachable (hybrid_step (length threads)) h u \<and> all_teams_left (length threads) u) \<and>
      (\<forall>r < length threads. hy_deleted h r = (if team_left h r then 1 else 0)) \<and>
      (all_teams_left (length threads) h \<longrightarrow>
        (\<Sum>r \<in> {0 ..< length threads}. mset (hy_runs h r)) = mset tasks \<and> sched_final (length threads) (hy_sched h))"
  have "reachable (hybrid_step (length threads)) (hybrid_start (nth threads) s) (hybrid_start (nth threads) s)"
    by (rule exI, rule run_here)
  from s(2) [OF this] show thesis using s(1) that by blast
qed

section \<open>The first block\<close>

text \<open>
  The team of a rank: \<open>parts\<close> are the indices each of its threads ran, in the order in which OpenMP adds the threads'
  private copies of \<^verbatim>\<open>heap_test\<close>, which start from zeroes, to the rank's array.
\<close>

definition c_heap_private :: "nat list \<Rightarrow> nat \<Rightarrow> u64" where
  "c_heap_private is = fold (\<lambda>i p. p(0 := p 0 + of_nat i)) is (\<lambda>e. 0)"

definition c_heap_team :: "u64 \<Rightarrow> nat list list \<Rightarrow> memory \<Rightarrow> memory" where
  "c_heap_team a parts mem = fold (plus_array 8 load64 store64 a 1024) (map c_heap_private parts) mem"

lemma c_heap_private: "c_heap_private is e = (if e = 0 then of_nat (sum_list is) else 0)"
proof -
  have "fold (\<lambda>i p. p(0 := p 0 + of_nat i)) is p e = (if e = 0 then p 0 + of_nat (sum_list is) else p e)"
    for p :: "nat \<Rightarrow> u64" by (induction "is" arbitrary: p) (simp_all add: add.assoc)
  then show ?thesis by (simp add: c_heap_private_def)
qed

lemma c_heap_team:
  assumes "e < 1024"
  shows "load64 (c_heap_team a parts mem) (a + of_nat (e * 8)) =
    load64 mem (a + of_nat (e * 8)) + (if e = 0 then sum_list (map of_nat (concat parts)) else 0)"
proof -
  have "(\<Sum>p \<leftarrow> map c_heap_private parts. p e) = (if e = 0 then sum_list (map of_nat (concat parts)) else 0)"
    by (induction parts) (simp_all add: c_heap_private sum_of_nat)
  then show ?thesis unfolding c_heap_team_def using cell64.fold_plus_array [of 1024 e a] assms by simp
qed

definition c_heap_reduces :: "u64 \<Rightarrow> c_reduce list" where
  "c_heap_reduces a = [u64_array a 1024]"

definition c_heap_tasks :: "('c \<Rightarrow> u64 \<Rightarrow> u64) \<Rightarrow> 'c \<Rightarrow> nat \<Rightarrow> s_p_simple_task list result" where
  "c_heap_tasks all_reduce comm threads = gss_root_tasks all_reduce 0 102400 4 comm threads"

lemma c_heap_total:
  assumes "1 < length threads" "\<forall>t \<in> set threads. 0 < t" "all_reduce comm (of_nat (threads ! 0) * 40) \<noteq> 0"
    and "c_heap_tasks all_reduce comm (threads ! 0) = Inr tasks" "distributed_start hc threads tasks = Some s"
    and "reachable (hybrid_step (length threads)) (hybrid_start (nth threads) s) h" "all_teams_left (length threads) h"
    and "\<forall>k < length threads. mset (concat (parts k)) = mset (par_for_indices (hy_runs h k))"
  shows "(\<Sum>k < length threads. sum_list (map of_nat (concat (parts k)))) = (5242828800 :: u64)"
proof -
  have "(0 :: u64) \<le> 102400" by simp
  from gss_root_exact [where all_reduce = all_reduce and comm = comm and threads = "threads ! 0" and grain_size = 4,
      OF assms(3) this]
  have idx: "par_for_indices tasks = [unat (0 :: u64) ..< unat (102400 :: u64)]"
    using assms(4) unfolding c_heap_tasks_def by (metis sum.inject(2))
  have ends: "unat (0 :: u64) = 0" "unat (102400 :: u64) = Suc 102399" by simp_all
  have "(\<Sum>k \<in> {0 ..< length threads}. mset (concat (parts k))) = (\<Sum>k \<in> {0 ..< length threads}. mset (par_for_indices (hy_runs h k)))"
    using assms(8) by (intro sum.cong) simp_all
  also have "\<dots> = mset (par_for_indices tasks)"
    unfolding par_for_indices_def
    by (rule sum_concat_map [OF finite_atLeastLessThan hybrid_left_runs [OF assms(1,2,5-7)]])
  finally have "(\<Sum>k < length threads. sum_list (map of_nat (concat (parts k)))) = sum_list (map (of_nat :: nat \<Rightarrow> u64) (par_for_indices tasks))"
    by (rule sum_ranks)
  also have "\<dots> = of_nat (triangle 102399)" unfolding idx ends sum_of_nat gauss ..
  also have "triangle 102399 = 5242828800" by (simp add: triangle_def)
  finally show ?thesis by simp
qed



section \<open>The second block\<close>

text \<open>
  \<^verbatim>\<open>count++\<close> at every point of the rank's tasks. The loop is outside any OpenMP region, so a team has one thread.
\<close>

definition c_count_loop :: "u64 \<Rightarrow> s_p_collapse_2_task list \<Rightarrow> memory \<Rightarrow> memory option" where
  "c_count_loop a tasks mem =
     map_option (\<lambda>ps. fold (\<lambda>p. add64 a 1) ps mem) (collapse_2_par_for my_gen_func () \<lparr>pt_i = 10, pt_j = 10\<rparr> tasks)"

definition c_count_reduces :: "u64 \<Rightarrow> c_reduce list" where
  "c_count_reduces a = [u64_array a 1]"

definition c_count_tasks :: "('c \<Rightarrow> u64 \<Rightarrow> u64) \<Rightarrow> 'c \<Rightarrow> nat \<Rightarrow> s_p_collapse_2_task list result option" where
  "c_count_tasks all_reduce comm threads =
     collapse_2_root_tasks all_reduce 4 comm 55 \<lparr>pt_i = 0, pt_j = 0\<rparr> \<lparr>pt_i = 10, pt_j = 10\<rparr> my_gen_func () threads"

lemma fold_count: "load64 (fold (\<lambda>p. add64 a 1) ps mem) a = load64 mem a + of_nat (length ps)"
  by (induction ps arbitrary: mem) (simp_all add: plus_at_def cell64.load_store)

lemma my_gen_walks_10: "walks my_gen_func () \<lparr>pt_i = 10, pt_j = 10\<rparr> (triangle_point 10) 55"
proof -
  have t: "triangle 10 = 55" by (simp add: triangle_def)
  show ?thesis using my_gen_walks [of 10 "()" 10] unfolding t by simp
qed

lemma c_count_tasks_exist:
  assumes "all_reduce comm 40 \<noteq> 0"
  obtains tasks where "c_count_tasks all_reduce comm 1 = Some (Inr tasks)"
    "collapse_2_par_for my_gen_func () \<lparr>pt_i = 10, pt_j = 10\<rparr> tasks = Some (map (triangle_point 10) [0 ..< 55])"
proof -
  have start: "triangle_point 10 0 = \<lparr>pt_i = 0, pt_j = 0\<rparr>"
    using triangle_point_at [of 0 10 0] by (simp add: triangle_0)
  have "all_reduce comm (of_nat 1 * 40) \<noteq> 0" using assms by simp
  from collapse_2_root_exact [where all_reduce = all_reduce and comm = comm and grain_size = 4, OF this my_gen_walks_10]
  show thesis using that by (auto simp: c_count_tasks_def start)
qed

lemma c_count_total:
  assumes "1 < n" "all_reduce comm 40 \<noteq> 0"
    and "c_count_tasks all_reduce comm 1 = Some (Inr tasks)" "distributed_start hc (replicate n 1) tasks = Some s"
    and "reachable (hybrid_step n) (hybrid_start (nth (replicate n 1)) s) h" "all_teams_left n h"
  obtains ps where "\<forall>k < n. collapse_2_par_for my_gen_func () \<lparr>pt_i = 10, pt_j = 10\<rparr> (hy_runs h k) = Some (ps k)"
    "(\<Sum>k < n. of_nat (length (ps k))) = (55 :: u64)"
proof -
  have run: "collapse_2_par_for my_gen_func () \<lparr>pt_i = 10, pt_j = 10\<rparr> tasks = Some (map (triangle_point 10) [0 ..< 55])"
    by (rule c_count_tasks_exist [where all_reduce = all_reduce and comm = comm, OF assms(2)]) (use assms(3) in simp)
  have len: "length (replicate n (1 :: nat)) = n" and ones: "\<forall>t \<in> set (replicate n (1 :: nat)). 0 < t" by simp_all
  have sum: "(\<Sum>k \<in> {0 ..< n}. mset (hy_runs h k)) = mset tasks"
    using hybrid_left_runs [OF _ ones assms(4)] assms(1,5,6) unfolding len by simp
  obtain ps where ps: "\<forall>k \<in> {0 ..< n}. collapse_2_par_for my_gen_func () \<lparr>pt_i = 10, pt_j = 10\<rparr> (hy_runs h k) = Some (ps k)"
    "(\<Sum>k \<in> {0 ..< n}. mset (ps k)) = mset (map (triangle_point 10) [0 ..< 55])"
    using collapse_2_runs_sum [OF run finite_atLeastLessThan sum] by blast
  have "(\<Sum>k < n. of_nat (length (ps k))) = (of_nat (length (map (triangle_point 10) [0 ..< 55])) :: u64)"
    using sum_ranks [OF ps(2), of "\<lambda>p. 1 :: u64"] by (simp only: map_replicate_const sum_list_replicate mult_1_right)
  then have "(\<Sum>k < n. of_nat (length (ps k))) = (55 :: u64)" by simp
  then show thesis by (rule that [rotated]) (use ps(1) in simp)
qed



end
