(* ===== verification/Cxx_Example.thy ===== *)
theory Cxx_Example
  imports Distributed_Loop C_Region
begin

text \<open>
  The blocks of \<^verbatim>\<open>main\<close> in \<^verbatim>\<open>example/cxx_example.cc\<close>: parallel contexts of the C++ interface around loops over a
  \<^verbatim>\<open>dynamic_schedule\<close>, from the constructor of the context to the number each block prints.
\<close>

section \<open>Vectors and arrays\<close>

fun foldE :: "('a \<Rightarrow> 's \<Rightarrow> 's result) \<Rightarrow> 'a list \<Rightarrow> 's \<Rightarrow> 's result" where
  "foldE f [] s = Inr s"
| "foldE f (x # xs) s = bindE (f x s) (foldE f xs)"

lemma foldE_append: "foldE f (xs @ ys) s = bindE (foldE f xs s) (foldE f ys)"
  by (induction xs arbitrary: s) (simp_all add: bindE_def split: sum.splits)

lemma foldE_Inr: "(\<And>x s. x \<in> set xs \<Longrightarrow> f x s = Inr (g x s)) \<Longrightarrow> foldE f xs s = Inr (fold g xs s)"
  by (induction xs arbitrary: s) simp_all

text \<open>\<^verbatim>\<open>v.at(i) = x\<close>, for a vector or a \<^verbatim>\<open>std::array\<close>; \<^verbatim>\<open>std::views::iota(0, n)\<close>; \<^verbatim>\<open>std::accumulate(..., 0)\<close>.\<close>

definition put_at :: "nat \<Rightarrow> 'e \<Rightarrow> 'e list \<Rightarrow> 'e list result" where
  "put_at i x v = (if i < length v then Inr (v[i := x]) else Inl OutOfRange)"

definition iota :: "nat \<Rightarrow> int list" where
  "iota n = map int [0 ..< n]"

definition fill_vector :: "nat \<Rightarrow> int list \<Rightarrow> int list result" where
  "fill_vector n v = foldE (\<lambda>i. put_at i (int i)) [0 ..< n] v"

lemma fill_fold:
  "m \<le> length v \<Longrightarrow> fold (\<lambda>i v. v[i := int i]) [0 ..< m] v = iota m @ drop m v"
proof (induction m)
  case (Suc m)
  then show ?case by (simp add: iota_def list_update_append nth_append Cons_nth_drop_Suc [symmetric])
qed (simp add: iota_def)

lemma fill_vector:
  assumes "length v = n"
  shows "fill_vector n v = Inr (iota n)"
proof -
  have "m \<le> n \<Longrightarrow> foldE (\<lambda>i. put_at i (int i)) [0 ..< m] v = Inr (iota m @ drop m v)" for m
  proof (induction m)
    case (Suc m)
    then have "foldE (\<lambda>i. put_at i (int i)) [0 ..< Suc m] v = put_at m (int m) (iota m @ drop m v)"
      by (simp add: foldE_append bindE_def split: sum.splits)
    also have "\<dots> = Inr (iota (Suc m) @ drop (Suc m) v)"
      using Suc.prems assms
      by (simp add: put_at_def iota_def list_update_append Cons_nth_drop_Suc [symmetric])
    finally show ?case .
  qed (simp add: iota_def)
  from this [of n] show ?thesis using assms by (simp add: fill_vector_def)
qed

section \<open>The blocks that sum a range\<close>

text \<open>
  The range each of them iterates over and the buffer size it passes to \<^verbatim>\<open>dynamic_schedule\<close>, where 0 is the default
  argument. \<open>old\<close> is what an array declared without an initialiser holds.
\<close>

definition iota_block :: "int list result \<times> nat" where
  "iota_block = (Inr (iota 100), 2)"

definition vector_block :: "int list result \<times> nat" where
  "vector_block = (fill_vector 100 (replicate 100 0), 0)"

definition c_array_block :: "int list \<Rightarrow> int list result \<times> nat" where
  "c_array_block old = (Inr (fold (\<lambda>i c_arr. c_arr[i := int i]) [0 ..< 100] old), 0)"

definition array_block :: "int list \<Rightarrow> int list result \<times> nat" where
  "array_block old = (fill_vector 100 old, 0)"

definition span_block :: "int list result \<times> nat" where
  "span_block = (fill_vector 100 (replicate 100 0), 0)"

definition sum_blocks :: "(int list result \<times> nat) set" where
  "sum_blocks = {iota_block, vector_block, span_block} \<union>
     (\<Union>old \<in> {old. length old = 100}. {c_array_block old, array_block old})"

lemma sum_blocks: "b \<in> sum_blocks \<Longrightarrow> fst b = Inr (iota 100)"
proof -
  have "fold (\<lambda>i c_arr. c_arr[i := int i]) [0 ..< 100] old = iota 100" if "length old = 100" for old
    using fill_fold [of 100 old] that by simp
  then show "b \<in> sum_blocks \<Longrightarrow> fst b = Inr (iota 100)"
    by (auto simp only: sum_blocks_def iota_block_def vector_block_def c_array_block_def array_block_def span_block_def
        fill_vector length_replicate fst_conv UN_iff Un_iff insert_iff mem_Collect_eq empty_iff)
qed

text \<open>The context of \<^verbatim>\<open>ctx{true, reduce{count, MPI_SUM}}\<close> for the \<^verbatim>\<open>size_t\<close> at \<open>a\<close>, and \<^verbatim>\<open>count += i\<close> in the loop.\<close>

definition count_ctx ::
  "('h, 'r, 'x) machine \<Rightarrow> bool \<Rightarrow> u64 \<Rightarrow> u64 \<Rightarrow> ('h, 'x) process \<Rightarrow>
   (msg list \<times> unit result \<times> par_ctx_base option \<times> ('h, 'x) process) option" where
  "count_ctx mc finished ctx a p =
     (case reduce_area_of_value (pf_page_size (mc_pf mc)) MPI_UNSIGNED_LONG 8 a MPI_SUM of
        Inl e \<Rightarrow> Some ([], Inl e, None, p)
      | Inr r \<Rightarrow> par_ctx_ctor mc finished ctx True [r] p)"

definition count_loop :: "u64 \<Rightarrow> int list \<Rightarrow> memory \<Rightarrow> memory" where
  "count_loop a is mem = fold (\<lambda>i. add64 a (of_int i)) is mem"

lemma count_loop_adds: "load64 (count_loop a is mem) a = load64 mem a + sum_list (map of_int is)"
proof -
  have "count_loop a is mem = fold (add64 a) (map of_int is) mem" by (simp add: count_loop_def fold_map comp_def)
  then show ?thesis by (simp add: cell64.fold_plus_at)
qed

text \<open>A region of which rank \<open>k\<close> adds \<open>d k\<close> to the counter.\<close>

lemma count_region_total:
  assumes "count_ctx mc finished ctx a p = Some (out, Inr (), Some c, p')"
    and mc: "mc_world_size mc = int n" "1 < n" "mc_rank mc = 0" "mc_type_size mc MPI_UNSIGNED_LONG = 8" "array_fits a 1"
    and mpi: "reduces_at_root (mc_reduce mc) 8 (+) load64 others MPI_UNSIGNED_LONG MPI_SUM m_root_rank S_p_comm"
    and ranks: "workers_end names (pc_reduces c) body n others" "rs_mem w = body 0 mem0"
    and adds: "\<And>k mem. k < n \<Longrightarrow> load64 (body k mem) a = load64 mem a + d k"
  shows "\<exists>w'. do_exit_parallel mc c (True, w) = Some (Inr Behind_call, False, w') \<and>
    load64 (rs_mem w') a = load64 mem0 a + (\<Sum>k < n. d k)"
proof -
  obtain r where r: "reduce_area_of_value (pf_page_size (mc_pf mc)) MPI_UNSIGNED_LONG 8 a MPI_SUM = Inr r"
    "par_ctx_ctor mc finished ctx True [r] p = Some (out, Inr (), Some c, p')"
    using assms(1) by (auto simp: count_ctx_def split: sum.splits)
  have area: "m_begin r = a" "m_count r = 1" "m_type r = MPI_UNSIGNED_LONG" "m_op r = MPI_SUM" "m_sizeof_type r = 8"
    using r(1) by (auto simp: reduce_area_of_value_def init_inner_pages_def result_iff)
  have "mc_world_size mc \<noteq> 1" using mc(1,2) by simp
  from ctor_entered [OF r(2) this]
  have c: "pc_entered c" "pc_comm c = S_p_comm" "pc_reduces c = [r]" "verify_reduces_no_overlap [r] = Inr ()" by auto
  have "sums_area mc 8 load64 others r"
    using area mc(4,5) mpi
    by (auto simp: sums_area_def sum_area_def zero_init_types_def reduce_area_ok_def get_mpi_type_size_def
        get_mpi_type_size_fallback_def reduce_mem_area_def area_fits_def array_fits_def)
  moreover have "workers_end names [r] body n others" using ranks(1) c(3) by simp
  ultimately have "\<exists>w'. do_exit_parallel mc c (True, w) = Some (Inr Behind_call, False, w') \<and>
    (\<forall>i < unat (m_count r). load64 (rs_mem w') (element_at 8 r i) = load64 mem0 (element_at 8 r i) + (\<Sum>k < n. d k)) \<and>
    (\<forall>x. x \<notin> area_block (\<lambda>r. 8) r \<longrightarrow> rs_mem w' x = rs_mem w x)"
    by (rule cell64.region_total [where d = "\<lambda>k i. d k", OF c mc(1-3)])
      (use ranks(2) adds area(1,2) in \<open>simp_all add: element_at_def\<close>)
  then show ?thesis using area(1,2) by (auto simp: element_at_def)
qed

text \<open>What the ranks' loops over a \<^verbatim>\<open>dynamic_schedule\<close> got.\<close>

definition rank_values :: "'v sched \<Rightarrow> nat \<Rightarrow> 'v list" where
  "rank_values t k = (if k = 0 then srv_used t else got (clients t k))"

lemma rank_values_mset:
  assumes "1 < n" "distributed_start hc (replicate n buf) xs = Some s"
    and "reachable (sched_step n) s t" "srv_pc t = Srv_done"
  shows "(\<Sum>k \<in> {0 ..< n}. mset (rank_values t k)) = mset xs"
proof -
  have ok: "sizes_ok n (all_buffer_sizes hc (replicate n buf))"
    using all_buffer_sizes_ok [of "replicate n buf" hc] assms(1) by simp
  have start: "sched_start n (all_buffer_sizes hc (replicate n buf)) xs = Some s"
    using assms(2) by (simp add: distributed_start_def)
  have "(\<Sum>k \<in> {0 ..< n}. mset (rank_values t k)) = mset (srv_used t) + (\<Sum>k \<in> {1 ..< n}. mset (rank_values t k))"
    using assms(1) by (simp add: sum.atLeast_Suc_lessThan rank_values_def)
  also have "(\<Sum>k \<in> {1 ..< n}. mset (rank_values t k)) = (\<Sum>k \<in> {1 ..< n}. mset (got (clients t k)))"
    by (intro sum.cong) (simp_all add: rank_values_def)
  finally show ?thesis using sched_distributes [OF ok start assms(3,4)] by simp
qed

lemma of_int_iota: "sum_list (map of_int (iota n)) = (of_nat (sum_list [0 ..< n]) :: u64)"
  by (induction n) (simp_all add: iota_def)

lemma iota_total: "sum_list (map of_int (iota 100)) = (4950 :: u64)"
proof -
  have "sum_list [0 ..< 100] = 4950" using sum_upt [of 99] by (simp del: upt_rec_numeral sum_list_upt)
  then show ?thesis unfolding of_int_iota by simp
qed



section \<open>The same loop on one rank\<close>

text \<open>The loop of \<^verbatim>\<open>single_rank_handler\<close>: its state is what lies between \<^verbatim>\<open>m_iter\<close> and \<^verbatim>\<open>m_end\<close>.\<close>

fun single_rank_loop :: "('v \<Rightarrow> memory \<Rightarrow> memory) \<Rightarrow> 'v list \<Rightarrow> memory \<Rightarrow> memory" where
  "single_rank_loop body [] mem = mem"
| "single_rank_loop body (v # rest) mem = single_rank_loop body rest (body v mem)"

lemma single_rank_loop_fold: "single_rank_loop body vs mem = fold body vs mem"
  by (induction vs arbitrary: mem) simp_all

lemma cxx_sum_blocks_alone:
  assumes "b \<in> sum_blocks" "fst b = Inr xs" "mc_world_size mc = 1"
    and "reduce_area_of_value (pf_page_size (mc_pf mc)) MPI_UNSIGNED_LONG 8 a MPI_SUM = Inr r" "load64 mem a = 0"
  shows "\<exists>c. count_ctx mc False ctx a p = Some ([], Inr (), Some c, p) \<and> comm_size mc (get_comm c) = 1 \<and>
    load64 (single_rank_loop (\<lambda>i. add64 a (of_int i)) xs mem) a = 4950 \<and>
    do_exit_parallel mc c s = Some (Inr Behind_call, s)"
proof -
  have "do_enter_parallel mc True (fresh_ctx ctx [r], p) = Some ([], Inr (), (fresh_ctx ctx [r])\<lparr>pc_comm := S_p_comm_self\<rparr>, p)"
    using assms(3) by (intro do_enter_inactive) (simp add: comm_size_def)
  moreover have "xs = iota 100" using sum_blocks [OF assms(1)] assms(2) by simp
  moreover have "single_rank_loop (\<lambda>i. add64 a (of_int i)) xs mem = count_loop a xs mem"
    by (simp add: single_rank_loop_fold count_loop_def)
  ultimately show ?thesis
    using assms(4,5) iota_total
    by (simp add: count_ctx_def par_ctx_ctor_def new_par_ctx_base_def get_comm_def comm_size_def do_exit_parallel_def
        count_loop_adds)
qed

section \<open>The block with an inactive context\<close>

text \<open>\<^verbatim>\<open>array.at(i)++\<close>.\<close>

definition increment_at :: "nat \<Rightarrow> 'e :: {plus, one} list \<Rightarrow> 'e list result" where
  "increment_at i v = (if i < length v then Inr (v[i := v ! i + 1]) else Inl OutOfRange)"

text \<open>\<open>a\<close> is the address of the array; the result is what the block prints, with the state behind the destructor.\<close>

definition span_reduce_block ::
  "('h, 'r, 'x) machine \<Rightarrow> bool \<Rightarrow> u64 \<Rightarrow> u64 \<Rightarrow> int list \<Rightarrow> ('h, 'x) process \<Rightarrow> bool \<times> 'x rank_state \<Rightarrow>
   (msg list \<times> int result \<times> ('h, 'x) process \<times> bool \<times> 'x rank_state) option" where
  "span_reduce_block mc finished ctx a old p s =
     (case bindE (fill_vector 100 old) (\<lambda>v.
          bindE (reduce_area_of_range (pf_page_size (mc_pf mc)) MPI_INT 4 a 100 MPI_SUM) (\<lambda>r. Inr (v, r))) of
        Inl e \<Rightarrow> Some ([], Inl e, p, s)
      | Inr (v, r) \<Rightarrow>
          (case par_ctx_ctor mc finished ctx False [r] p of
             None \<Rightarrow> None
           | Some (out, Inl e, c, p') \<Rightarrow> Some (out, Inl e, p', s)
           | Some (out, Inr u, None, p') \<Rightarrow> None
           | Some (out, Inr u, Some c, p') \<Rightarrow>
               (case assertE (comm_size mc (get_comm c) = 1) (foldE increment_at [0 ..< 100] v) of
                  Inl e \<Rightarrow> Some (out, Inl e, p', s)
                | Inr v' \<Rightarrow>
                    (case do_exit_parallel mc c s of
                       None \<Rightarrow> None
                     | Some (Inl e, s') \<Rightarrow> Some (out, Inl e, p', s')
                     | Some (Inr k, s') \<Rightarrow> Some (out, Inr (sum_list v'), p', s')))))"

lemma increments:
  "m \<le> length v \<Longrightarrow> foldE increment_at [0 ..< m] v = Inr (map (\<lambda>x. x + 1) (take m v) @ drop m v)"
proof (induction m)
  case (Suc m)
  then have "foldE increment_at [0 ..< Suc m] v = increment_at m (map (\<lambda>x. x + 1) (take m v) @ drop m v)"
    by (simp add: foldE_append bindE_def split: sum.splits)
  also have "\<dots> = Inr (map (\<lambda>x. x + 1) (take (Suc m) v) @ drop (Suc m) v)"
    using Suc.prems
    by (simp add: increment_at_def list_update_append nth_append take_Suc_conv_app_nth Cons_nth_drop_Suc [symmetric])
  finally show ?case .
qed simp

lemma sum_list_add1: "sum_list (map (\<lambda>x. x + 1) xs) = sum_list xs + int (length xs)"
  by (induction xs) simp_all

text \<open>
  With \<^verbatim>\<open>enter_parallel\<close> false the block is a sequential program: its assertion on the communicator holds, nothing is
  sent, neither the process nor the rank changes, and it prints 5050, whatever the size of the world.
\<close>

lemma span_reduce_block:
  assumes "length old = 100" "reduce_area_of_range (pf_page_size (mc_pf mc)) MPI_INT 4 a 100 MPI_SUM = Inr r"
  shows "span_reduce_block mc False ctx a old p s = Some ([], Inr 5050, p, s)"
proof -
  have enter: "do_enter_parallel mc False (fresh_ctx ctx [r], p) = Some ([], Inr (), (fresh_ctx ctx [r])\<lparr>pc_comm := S_p_comm_self\<rparr>, p)"
    by (intro do_enter_inactive) simp
  have "length (iota 100) = 100" by (simp add: iota_def del: upt_rec_numeral)
  then have inc: "foldE increment_at [0 ..< 100] (iota 100) = Inr (map (\<lambda>x. x + 1) (iota 100))"
    using increments [of 100 "iota 100"] by simp
  have "sum_list (iota 100) = 4950"
    using sum_upt [of 99] by (simp add: iota_def sum_list_of_nat del: upt_rec_numeral sum_list_upt)
  then have "sum_list (map (\<lambda>x. x + 1) (iota 100)) = 5050"
    using sum_list_add1 [of "iota 100"] \<open>length (iota 100) = 100\<close> by simp
  then show ?thesis
    using fill_vector [OF assms(1)] assms(2) enter inc
    by (simp add: span_reduce_block_def par_ctx_ctor_def new_par_ctx_base_def get_comm_def comm_size_def do_exit_parallel_def
        del: upt_rec_numeral)
qed

section \<open>The blocks with OpenMP tasks\<close>

text \<open>
  A rank's tasks: \<open>parts\<close> are the values that were added to each private copy of \<^verbatim>\<open>count\<close>, in the order in which the
  copies are added to \<^verbatim>\<open>count\<close>.
\<close>

definition task_count :: "u64 \<Rightarrow> int list list \<Rightarrow> memory \<Rightarrow> memory" where
  "task_count a parts mem = fold (add64 a) (map (\<lambda>is. fold (\<lambda>i c. c + of_int i) is 0) parts) mem"

lemma fold_of_int: "fold (\<lambda>i c. c + of_int i) is (c :: u64) = c + sum_list (map of_int is)"
  by (induction "is" arbitrary: c) (simp_all add: add.assoc)

lemma task_count_adds: "load64 (task_count a parts mem) a = load64 mem a + sum_list (map of_int (concat parts))"
proof -
  have "sum_list (map (\<lambda>is. fold (\<lambda>i c. c + of_int i) is 0) parts) = (sum_list (map of_int (concat parts)) :: u64)"
    by (induction parts) (simp_all add: fold_of_int)
  then show ?thesis by (simp add: task_count_def cell64.fold_plus_at)
qed

text \<open>The block prints 499500 for every distribution of the tasks over ranks and private copies.\<close>

lemma cxx_task_count:
  assumes enter: "count_ctx mc finished ctx a p = Some (out, Inr (), Some c, p')"
    and mc: "mc_world_size mc = int n" "1 < n" "mc_rank mc = 0" "mc_type_size mc MPI_UNSIGNED_LONG = 8" "array_fits a 1"
    and mpi: "reduces_at_root (mc_reduce mc) 8 (+) load64 others MPI_UNSIGNED_LONG MPI_SUM m_root_rank S_p_comm"
    and loop: "distributed_start hc (replicate n 2) (iota 1000) = Some s" "reachable (sched_step n) s t" "srv_pc t = Srv_done"
    and parts: "\<forall>k < n. mset (concat (parts k)) = mset (rank_values t k)"
    and ranks: "workers_end names (pc_reduces c) (\<lambda>k. task_count a (parts k)) n others"
      "rs_mem w = task_count a (parts 0) mem0" "load64 mem0 a = 0"
  shows "\<exists>w'. do_exit_parallel mc c (True, w) = Some (Inr Behind_call, False, w') \<and> load64 (rs_mem w') a = 499500"
proof -
  have "sum_list [0 ..< 1000] = 499500" using sum_upt [of 999] by (simp del: upt_rec_numeral sum_list_upt)
  then have "sum_list (map of_int (iota 1000)) = (499500 :: u64)" unfolding of_int_iota by simp
  note sum = trans [OF sum_ranks this]
  have "(\<Sum>k \<in> {0 ..< n}. mset (concat (parts k))) = (\<Sum>k \<in> {0 ..< n}. mset (rank_values t k))"
    using parts by (intro sum.cong) simp_all
  then have "(\<Sum>k \<in> {0 ..< n}. mset (concat (parts k))) = mset (iota 1000)"
    using rank_values_mset [OF mc(2) loop] by simp
  then have total: "(\<Sum>k < n. sum_list (map of_int (concat (parts k)))) = (499500 :: u64)" by (rule sum)
  show ?thesis
    using count_region_total [OF enter mc mpi ranks(1,2) task_count_adds] unfolding total ranks(3) by simp
qed

text \<open>
  The reduction of \<^verbatim>\<open>std::vector<int>\<close> that the program declares: a private copy has the length of the original and
  zeroes; \<open>vector_sum\<close> adds the copy \<open>in_vec\<close> to the vector of \<open>n\<close> elements whose data is at \<open>a\<close>.
\<close>

definition private_vec :: "nat \<Rightarrow> int list \<Rightarrow> u32 list result" where
  "private_vec n is =
     foldE (\<lambda>i v. if 0 \<le> i then increment_at (nat i) v else Inl OutOfRange) is (replicate n 0)"

definition vector_sum :: "u32 list \<Rightarrow> u64 \<Rightarrow> nat \<Rightarrow> memory \<Rightarrow> memory result" where
  "vector_sum in_vec a n mem =
     assertE (length in_vec = n)
       (foldE (\<lambda>i mem. if i < n \<and> i < length in_vec
                        then Inr (plus_at load32 store32 (a + of_nat (i * 4)) (in_vec ! i) mem) else Inl OutOfRange)
          [0 ..< length in_vec] mem)"

definition task_vec :: "u64 \<Rightarrow> nat \<Rightarrow> int list list \<Rightarrow> memory \<Rightarrow> memory result" where
  "task_vec a n parts mem = foldE (\<lambda>is mem. bindE (private_vec n is) (\<lambda>v. vector_sum v a n mem)) parts mem"

lemma increments_count:
  assumes "\<forall>i \<in> set is. 0 \<le> i \<and> i < int (length v)"
  shows "\<exists>v'. foldE (\<lambda>i v. if 0 \<le> i then increment_at (nat i) v else Inl OutOfRange) is (v :: u32 list) = Inr v' \<and>
    length v' = length v \<and> (\<forall>e < length v. v' ! e = v ! e + of_nat (count_list is (int e)))"
  using assms
proof (induction "is" arbitrary: v)
  case (Cons i "is")
  let ?v = "v[nat i := v ! nat i + 1]"
  have i: "0 \<le> i" "nat i < length v" using Cons.prems by auto
  then have "increment_at (nat i) v = Inr ?v" by (simp add: increment_at_def)
  moreover obtain v' where "foldE (\<lambda>i v. if 0 \<le> i then increment_at (nat i) v else Inl OutOfRange) is ?v = Inr v'"
    "length v' = length v" "\<forall>e < length v. v' ! e = ?v ! e + of_nat (count_list is (int e))"
    using Cons.IH [of ?v] Cons.prems by auto
  ultimately show ?case using i by (auto simp: nth_list_update)
qed simp

lemma vector_sum_adds:
  assumes "length v = n"
  shows "vector_sum v a n mem = Inr (plus_array 4 load32 store32 a n (nth v) mem)"
  unfolding vector_sum_def plus_array_def using assms by (subst foldE_Inr) simp_all

lemma task_vec_adds:
  assumes "\<forall>i \<in> set (concat parts). 0 \<le> i \<and> i < int n" "n * 4 \<le> 2 ^ 64"
  shows "\<exists>mem'. task_vec a n parts mem = Inr mem' \<and>
    (\<forall>e < n. load32 mem' (a + of_nat (e * 4)) = load32 mem (a + of_nat (e * 4)) + of_nat (count_list (concat parts) (int e)))"
  using assms(1)
proof (induction parts arbitrary: mem)
  case (Cons "is" parts)
  have "\<forall>i \<in> set is. 0 \<le> i \<and> i < int (length (replicate n (0 :: u32)))" using Cons.prems by auto
  from increments_count [OF this] obtain v where v: "private_vec n is = Inr v" "length v = n"
    "\<forall>e < n. v ! e = of_nat (count_list is (int e))"
    by (auto simp: private_vec_def)
  let ?mem = "plus_array 4 load32 store32 a n (nth v) mem"
  obtain mem' where "task_vec a n parts ?mem = Inr mem'"
    "\<forall>e < n. load32 mem' (a + of_nat (e * 4)) = load32 ?mem (a + of_nat (e * 4)) + of_nat (count_list (concat parts) (int e))"
    using Cons.IH [of ?mem] Cons.prems by auto
  moreover have "load32 ?mem (a + of_nat (e * 4)) = load32 mem (a + of_nat (e * 4)) + of_nat (count_list is (int e))"
    if "e < n" for e
    using cell32.plus_array_adds [OF assms(2) that] v(3) that by simp
  moreover have "task_vec a n (is # parts) mem = task_vec a n parts ?mem"
    using v(1) vector_sum_adds [OF v(2)] by (simp add: task_vec_def)
  ultimately show ?case by (simp add: add.assoc)
qed (simp add: task_vec_def)

definition vec_ctx ::
  "('h, 'r, 'x) machine \<Rightarrow> bool \<Rightarrow> u64 \<Rightarrow> u64 \<Rightarrow> ('h, 'x) process \<Rightarrow>
   (msg list \<times> unit result \<times> par_ctx_base option \<times> ('h, 'x) process) option" where
  "vec_ctx mc finished ctx a p =
     (case reduce_area_of_range (pf_page_size (mc_pf mc)) MPI_INT 4 a 100 MPI_SUM of
        Inl e \<Rightarrow> Some ([], Inl e, None, p)
      | Inr r \<Rightarrow> par_ctx_ctor mc finished ctx True [r] p)"

text \<open>\<^verbatim>\<open>std::accumulate(vec.begin(), vec.end(), 0)\<close>.\<close>

definition accumulate_vec :: "memory \<Rightarrow> u64 \<Rightarrow> nat \<Rightarrow> u32" where
  "accumulate_vec mem a n = fold (\<lambda>e s. s + load32 mem (a + of_nat (e * 4))) [0 ..< n] 0"

lemma fold_ones: "(\<forall>e \<in> set xs. f e = 1) \<Longrightarrow> fold (\<lambda>e s. s + f e) xs s = s + (of_nat (length xs) :: u32)"
  by (induction xs arbitrary: s) (simp_all add: add.assoc)

lemma count_iota: "e < n \<Longrightarrow> count_list (iota n) (int e) = 1"
proof (induction n)
  case (Suc n)
  have "count_list (map int [0 ..< n]) (int n) = 0" by (rule count_notin) auto
  then show ?case using Suc by (auto simp: iota_def less_Suc_eq)
qed simp

lemma count_list_sum: "of_nat (count_list xs y) = sum_list (map (\<lambda>x. if x = y then 1 else 0 :: u32) xs)"
  by (induction xs) simp_all

text \<open>
  No access of the block is out of range, no length assertion of the reduction fails, every element of the vector ends
  as 1, and the block prints 100.
\<close>

lemma cxx_task_vec:
  assumes enter: "vec_ctx mc finished ctx a p = Some (out, Inr (), Some c, p')"
    and mc: "mc_world_size mc = int n" "1 < n" "mc_rank mc = 0" "mc_type_size mc MPI_INT = 4" "0 < unat a" "unat a + 400 \<le> 2 ^ 64"
    and mpi: "reduces_at_root (mc_reduce mc) 4 (+) load32 others MPI_INT MPI_SUM m_root_rank S_p_comm"
    and loop: "distributed_start hc (replicate n 2) (iota 100) = Some s" "reachable (sched_step n) s t" "srv_pc t = Srv_done"
    and parts: "\<forall>k < n. mset (concat (parts k)) = mset (rank_values t k)"
    and ranks: "workers_end names (pc_reduces c) (\<lambda>k mem. projr (task_vec a 100 (parts k) mem)) n others"
      "rs_mem w = projr (task_vec a 100 (parts 0) mem0)" "\<forall>e < 100. load32 mem0 (a + of_nat (e * 4)) = 0"
  shows "(\<forall>k < n. \<forall>mem. \<exists>mem'. task_vec a 100 (parts k) mem = Inr mem') \<and>
    (\<exists>w'. do_exit_parallel mc c (True, w) = Some (Inr Behind_call, False, w') \<and>
      (\<forall>e < 100. load32 (rs_mem w') (a + of_nat (e * 4)) = 1) \<and> accumulate_vec (rs_mem w') a 100 = 100)"
proof -
  obtain r where r: "reduce_area_of_range (pf_page_size (mc_pf mc)) MPI_INT 4 a 100 MPI_SUM = Inr r"
    "par_ctx_ctor mc finished ctx True [r] p = Some (out, Inr (), Some c, p')"
    using enter by (auto simp: vec_ctx_def split: sum.splits)
  have area: "m_begin r = a" "m_count r = 100" "m_type r = MPI_INT" "m_op r = MPI_SUM" "m_sizeof_type r = 4"
    using r(1) by (auto simp: reduce_area_of_range_def init_inner_pages_def result_iff)
  have "mc_world_size mc \<noteq> 1" using mc(1,2) by simp
  from ctor_entered [OF r(2) this]
  have c: "pc_entered c" "pc_comm c = S_p_comm" "pc_reduces c = [r]" "verify_reduces_no_overlap [r] = Inr ()" by auto
  have sums: "sums_area mc 4 load32 others r"
    using area mc(4-6) mpi
    by (auto simp: sums_area_def sum_area_def zero_init_types_def reduce_area_ok_def get_mpi_type_size_def
        get_mpi_type_size_fallback_def reduce_mem_area_def area_fits_def INT_MAX_def)
  have split: "(\<Sum>k \<in> {0 ..< n}. mset (concat (parts k))) = mset (iota 100)"
    using rank_values_mset [OF mc(2) loop] parts by simp
  have in_range: "\<forall>i \<in> set (concat (parts k)). 0 \<le> i \<and> i < int 100" if "k < n" for k
  proof -
    have "mset (concat (parts k)) \<subseteq># (\<Sum>k \<in> {0 ..< n}. mset (concat (parts k)))"
      using that by (subst sum.remove [of _ k]) simp_all
    then have "set (concat (parts k)) \<subseteq> set (iota 100)" unfolding split by (metis set_mset_mono set_mset_mset)
    moreover have "set (iota 100) \<subseteq> {0 ..< int 100}" by (auto simp: iota_def)
    ultimately have "set (concat (parts k)) \<subseteq> {0 ..< int 100}" by (rule subset_trans)
    then show ?thesis by (meson atLeastLessThan_iff subsetD)
  qed
  have body: "\<exists>mem'. task_vec a 100 (parts k) mem = Inr mem' \<and> (\<forall>e < 100. load32 mem' (a + of_nat (e * 4)) =
      load32 mem (a + of_nat (e * 4)) + of_nat (count_list (concat (parts k)) (int e)))" if "k < n" for k mem
    by (rule task_vec_adds [OF in_range [OF that]]) simp
  let ?body = "\<lambda>k mem. projr (task_vec a 100 (parts k) mem)" and ?d = "\<lambda>k e. of_nat (count_list (concat (parts k)) (int e)) :: u32"
  have workers: "workers_end names [r] ?body n others" using ranks(1) c(3) by simp
  have adds: "load32 (?body k mem) (element_at 4 r e) = load32 mem (element_at 4 r e) + ?d k e"
    if "k < n" "e < unat (m_count r)" for k mem e
    using body [OF that(1), of mem] that(2) area(1,2) by (auto simp: element_at_def)
  have "\<exists>w'. do_exit_parallel mc c (True, w) = Some (Inr Behind_call, False, w') \<and>
    (\<forall>e < unat (m_count r). load32 (rs_mem w') (element_at 4 r e) = load32 mem0 (element_at 4 r e) + (\<Sum>k < n. ?d k e)) \<and>
    (\<forall>x. x \<notin> area_block (\<lambda>r. 4) r \<longrightarrow> rs_mem w' x = rs_mem w x)"
    by (rule cell32.region_total [where body = ?body and d = ?d, OF c mc(1-3) sums workers ranks(2) adds])
  then obtain w' where w': "do_exit_parallel mc c (True, w) = Some (Inr Behind_call, False, w')"
    "\<forall>e < unat (m_count r). load32 (rs_mem w') (element_at 4 r e) = load32 mem0 (element_at 4 r e) + (\<Sum>k < n. ?d k e)"
    by blast
  have total: "(\<Sum>k < n. of_nat (count_list (concat (parts k)) (int e))) = (1 :: u32)" if "e < 100" for e
    unfolding count_list_sum sum_ranks [OF split] using count_iota [OF that] by (simp flip: count_list_sum)
  have ones: "\<forall>e < 100. load32 (rs_mem w') (a + of_nat (e * 4)) = 1"
    using w'(2) total ranks(3) area(1,2) by (simp add: element_at_def)
  then have "accumulate_vec (rs_mem w') a 100 = 0 + of_nat (length [0 ..< 100 :: nat])"
    unfolding accumulate_vec_def by (intro fold_ones) auto
  then have "accumulate_vec (rs_mem w') a 100 = 100" by simp
  moreover have "\<forall>k < n. \<forall>mem. \<exists>mem'. task_vec a 100 (parts k) mem = Inr mem'" using body by blast
  ultimately show ?thesis using ones w'(1) by blast
qed

end
