(* ===== verification/Spec2Isabelle.thy ===== *)
theory Spec2Isabelle
  imports Prelude Pagemap Bigmpi Gss_Collapse Schedule_Proofs Request_Rings Hybrid_Loop Mem_Ops_Proofs
    Page_Sync_Proofs Fortran_Binding Par_Ctx_Proofs Reduce_Region Fortran_Region Init_Proofs Par_For Heap_Registry
    Fortran_Schedule Fortran_Par_For Fortran_Hybrid C_Example Cxx_Example
begin

text \<open>
  A model of \<^verbatim>\<open>simple_parallel\<close>, a library that runs marked regions of a program on all ranks of an MPI job as if
  they shared memory. Rank 0, the leader, runs the program. At the start of a parallel context it broadcasts its
  stack, the heap pages written since the last time, and the log of its memory mappings; the other ranks, the
  workers, replay them at the same addresses and continue in the region with the leader's register context. At the
  end of the context the workers' contributions are reduced into the leader's arrays and the workers go back to
  waiting. Loops in a region are shared out by a dynamic scheduler over MPI messages and OpenMP threads.

  \<^bold>\<open>Theories and code\<close> (paths under \<^verbatim>\<open>src/\<close>; \<open>sp/\<close> is \<^verbatim>\<open>src/simple_parallel/\<close>, \<open>inc/\<close> is
  \<^verbatim>\<open>include/simple_parallel/\<close>).

  \<^item> \<open>Prelude\<close>: 64-bit words, errors as values (\<open>'a result\<close>), \<^verbatim>\<open>mem_area\<close> and \<^verbatim>\<open>pte_range\<close> (\<open>inc/\<close>\<^verbatim>\<open>cxx/types_fwd.h\<close>).
    \<open>Tiling\<close>: cutting a length into pieces, shared by the chunked MPI calls and the loop generators. \<open>Protocol\<close>:
    labelled transition systems, with the locales of an invariant and of a system that always can end.
  \<^item> \<open>Pagemap\<close> (\<open>sp/\<close>\<^verbatim>\<open>pagemap.cc\<close>, \<^verbatim>\<open>include/pagemap.h\<close>): page map entries, areas and pages. \<open>Page_Scan\<close>, \<open>Page_Select\<close>
    (\<open>sp/\<close>\<^verbatim>\<open>leader.cc\<close>): which heap pages are sent, and which of them are zero.
  \<^item> \<open>Bigmpi\<close> (\<open>sp/\<close>\<^verbatim>\<open>bigmpi.cc\<close>): MPI calls with counts beyond \<^verbatim>\<open>int\<close>; \<^verbatim>\<open>sync_areas\<close> with its window of requests.
  \<^item> \<open>Mem_Ops\<close>, \<open>Mem_Ops_Proofs\<close> (\<open>sp/\<close>\<^verbatim>\<open>leader.cc\<close>, \<^verbatim>\<open>include/leader.h\<close>, \<^verbatim>\<open>worker.cc\<close>): the reserved heap, the proxies of
    \<^verbatim>\<open>mmap\<close>, \<^verbatim>\<open>munmap\<close> and \<^verbatim>\<open>madvise\<close>, their log and its replay. \<open>Heap_Registry\<close>: the leader's set of heaps and the
    allocator of the library's own containers.
  \<^item> \<open>Page_Sync\<close>, \<open>Page_Sync_Proofs\<close> (\<open>sp/\<close>\<^verbatim>\<open>leader.cc\<close>, \<^verbatim>\<open>worker.cc\<close>): both ends of the broadcasts that enter a context;
    the leader's side produces a list of messages, the worker's side consumes one.
  \<^item> \<open>Elf_Symbols\<close>, \<open>Fortran_Globals\<close> (\<open>sp/\<close>\<^verbatim>\<open>sync_fortran_global_vars.cc\<close>): finding the module variables of a Fortran
    program in the symbol tables of the loaded objects, and broadcasting them. \<open>Fortran_Binding\<close>
    (\<^verbatim>\<open>src/fortran_binding/fortran_binding.cc\<close>): types, array sizes, module arrays by name.
  \<^item> \<open>Reduce_Area\<close> (\<open>inc/\<close>\<^verbatim>\<open>cxx/simple_parallel.h\<close>, \<open>sp/\<close>\<^verbatim>\<open>leader.cc\<close>): arrays to reduce, their overlap test and the workers'
    initial values. \<open>Par_Ctx\<close>, \<open>Par_Ctx_Proofs\<close>: \<^verbatim>\<open>par_ctx_base\<close> with its C++, C and Fortran classes and the flag
    \<^verbatim>\<open>in_parallel\<close>. \<open>Reduce_Region\<close>: what the reduce areas hold at the end of a region. \<open>Fortran_Region\<close>: the derived
    type of \<^verbatim>\<open>fortran_binding.f90\<close> and the statements of \<^verbatim>\<open>parallel_begin.h\<close> and \<^verbatim>\<open>parallel_end.h\<close>.
  \<^item> \<open>Init\<close>, \<open>Init_Proofs\<close> (\<open>sp/\<close>\<^verbatim>\<open>init.cc\<close>, \<^verbatim>\<open>override_main.cc\<close>): settings, checks, and the ends of a process.
  \<^item> \<open>Gss\<close>, \<open>Gss_Collapse\<close> (\<^verbatim>\<open>src/c_binding/c_dynamic_schedule_binding.cc\<close>): the guided generators.
    \<open>Task_Iterator\<close>, \<open>Par_For\<close> (with \<open>inc/\<close>\<^verbatim>\<open>c/c_dynamic_schedule_binding.h\<close>): the scheduler object on one rank and the team of
    threads of the two loop macros. \<open>Fortran_Schedule\<close>, \<open>Fortran_Par_For\<close>: the same for Fortran
    (\<^verbatim>\<open>fortran_dynamic_schedule_binding.cc\<close>, \<^verbatim>\<open>.f90\<close>, \<^verbatim>\<open>gss_dynamic_schedule_begin.h\<close> and \<^verbatim>\<open>_end.h\<close>).
  \<^item> \<open>Dynamic_Schedule\<close>, \<open>Schedule_Proofs\<close>, \<open>Request_Rings\<close> (\<open>inc/\<close>\<^verbatim>\<open>cxx/dynamic_schedule.h\<close>): the scheduler across ranks as a
    step relation of all ranks and the network; its buffers of send handles. \<open>Distributed_Loop\<close>: its constructors, and
    a guided loop over several ranks. \<open>Rank_Teams\<close>: a team of threads on every
    rank over the scheduler; \<open>Hybrid_Loop\<close> and \<open>Fortran_Hybrid\<close>: the C macros and the Fortran loop on several ranks.
  \<^item> \<open>Sum_Region\<close>: stores, and a region that sums into one array when the ranks' code is a function on memory. \<open>C_Region\<close>
    (\<open>inc/\<close>\<^verbatim>\<open>c/c_binding.h\<close>): the macros around a region of a C program. \<open>Example_Gen\<close>, \<open>C_Example\<close>, \<open>Cxx_Example\<close>
    (\<^verbatim>\<open>example/c_example.c\<close>, \<^verbatim>\<open>example/cxx_example.cc\<close>): the blocks of the two example programs.
  \<^item> This theory: the life of the program from both ends.

  \<^bold>\<open>What the lemmas show.\<close> Functional exactness of each routine (page arithmetic, page selection, chunked calls,
  generators, symbol tables, reductions); a refinement: after a worker has consumed what the leader sent, its memory
  agrees with the leader's on the stack and on every heap page outside the reduce areas (\<open>enter_parallel_syncs\<close>), and
  the operation log keeps the mappings equal (\<open>mem_log_replay\<close>); for every interleaving: the scheduler hands out each value
  once and cannot deadlock, a team runs each index once, and so do the teams of several ranks together; at the end of a region each element of each reduce area is
  the combination of all ranks' (\<open>region_end_reduces\<close>, \<open>parallel_sum_exact\<close>); put together, the example programs print the numbers that a sequential
  run would (\<open>c_example_heap\<close>, \<open>c_example_count\<close>, \<open>cxx_sum_blocks\<close>, \<open>cxx_task_vec\<close>); at most one context is entered; and, where
  the code fails, theorems that say how (lost exceptions, a flag that stays set, a counter that is outlived, rings that
  overflow, a skipped Fortran region with the wrong communicator).

  \<^bold>\<open>Bounds.\<close> Machine integers are words of their width; where a proof needs that a size does not wrap, the statement
  says so. There is no fuel: loops are structural or have a \<open>termination\<close> proof, and those that may run for ever are
  partial functions into \<open>option\<close>, where \<open>None\<close> is a run that does not return; that they return is proved. Systems of
  ranks or threads are inductive step relations; that they end is a measure on their steps.

  \<^bold>\<open>Arguments of the model.\<close> MPI, mimalloc, the kernel (page map, \<^verbatim>\<open>mmap\<close>, \<^verbatim>\<open>madvise\<close>), Boost's interval sets, libelf, RE2, the
  dynamic linker, the compilers' type codes, \<^verbatim>\<open>getcontext\<close> and \<^verbatim>\<open>swapcontext\<close> are arguments of the definitions; what a proof
  relies on is a named hypothesis, and each property has a witness with concrete functions in their place.

  \<^bold>\<open>Not modelled.\<close> The CMake build and the code it generates; the text of debug and timing output and of the
  examples' own lines;
  the mutexes of the leader's data (its operations run one at a time here); the start of MPI's environment; the
  copying of the register context, which is taken to work; \<^verbatim>\<open>detect_page_size.cc\<close>, a build helper;
  \<^verbatim>\<open>c_cxx_manipulate_fortran_global_array.h\<close>, which only declares functions.
\<close>

section \<open>The life of the program\<close>

text \<open>What the root broadcasts with its tags, as a worker finds it: one message for each tag it sends.\<close>

fun sent_tags :: "event list \<Rightarrow> msg list" where
  "sent_tags [] = []"
| "sent_tags (Sent t # ev) = Tag_msg (tag_value t) # sent_tags ev"
| "sent_tags (_ # ev) = sent_tags ev"

lemma root_sent_tags:
  "sent_tags (root_events e) = (case e of Main_throws x \<Rightarrow> [] | _ \<Rightarrow> [Tag_msg (tag_value Tag_exit)])"
  by (simp add: root_events_def split: main_end.splits)

lemma worker_after_root:
  assumes "reserve_heap_area (pf_kernel pf) heap w = (Inr (), w0)" "serves pl pf rounds w0 w'"
  shows "worker pf heap (concat (map (round_msgs pl) rounds) @ sent_tags (root_events e)) w =
    (case e of Main_throws x \<Rightarrow> None | _ \<Rightarrow> Some (Inr 0, [], w'))"
  unfolding worker_reserved [OF assms(1)] worker_loop_serves [OF assms(2)] root_sent_tags
  by (simp add: worker_loop_tag worker_loop_blocks split: main_end.splits)



end
